(* ===== verification/Koku_Prelude.thy ===== *)
theory Koku_Prelude
  imports Main "HOL-Library.Word" "HOL-Library.Sublist" "HOL-Library.Monad_Syntax"
    "HOL-Library.Code_Target_Numeral"
begin

text \<open>
  Shared vocabulary of the development.  Machine integers of the Rust sources are words of the
  same width; a byte slice is a list of 8-bit words; indices and lengths (\<open>usize\<close>) are
  natural numbers, since every sum of lengths the modelled code forms stays far below \<open>2^32\<close>.
  The theory holds 64-bit arithmetic with its wrap-around, slice access with the bounds check of
  \<open>slice::get\<close>, big-endian conversion of byte runs with its round-trip laws, and two interface
  locales: a parser that is fed a stream in pieces, and a stream of framed items for it.
\<close>

unbundle bit_operations_syntax

named_theorems wire_simps \<open>facts that evaluate slice access and byte conversion\<close>

type_synonym u8 = "8 word"
type_synonym u16 = "16 word"
type_synonym u32 = "32 word"
type_synonym u64 = "64 word"
type_synonym bytes = "u8 list"

text \<open>
  A Rust computation that returns \<open>Result<T, E>\<close> and may also panic: the left summand is the
  failure.
\<close>

datatype 'e failure = Error 'e | Panic

type_synonym ('e, 'a) outcome = "'e failure + 'a"

fun outcome_bind :: "('e + 'a) \<Rightarrow> ('a \<Rightarrow> 'e + 'b) \<Rightarrow> 'e + 'b" where
  "outcome_bind (Inl e) f = Inl e"
| "outcome_bind (Inr x) f = f x"

lemma outcome_bind_Inr_iff [simp]:
  "outcome_bind r f = Inr y \<longleftrightarrow> (\<exists>x. r = Inr x \<and> f x = Inr y)"
  by (cases r) auto

lemma outcome_bind_assoc: "outcome_bind (outcome_bind r f) g = outcome_bind r (\<lambda>x. outcome_bind (f x) g)"
  by (cases r) simp_all

lemma outcome_bind_cong [fundef_cong]:
  "r = r' \<Longrightarrow> (\<And>x. r' = Inr x \<Longrightarrow> f x = g x) \<Longrightarrow> outcome_bind r f = outcome_bind r' g"
  by (cases r') auto

lemma option_bind_Some_iff [simp]:
  "Option.bind m f = Some y \<longleftrightarrow> (\<exists>x. m = Some x \<and> f x = Some y)"
  by (cases m) auto

subsection \<open>Arithmetic of 64 bits\<close>

text \<open>
  A \<open>u64\<close> kept as a natural number: sums, differences and products wrap around, as they do in the
  release build, whose profile leaves overflow checks off.
\<close>

definition u64_add :: "nat \<Rightarrow> nat \<Rightarrow> nat" where
  "u64_add a b = (a + b) mod 2 ^ 64"

definition u64_sub :: "nat \<Rightarrow> nat \<Rightarrow> nat" where
  "u64_sub a b = (a + (2 ^ 64 - b mod 2 ^ 64)) mod 2 ^ 64"

definition u64_mul :: "nat \<Rightarrow> nat \<Rightarrow> nat" where
  "u64_mul a b = (a * b) mod 2 ^ 64"

lemma u64_exact:
  "a + b < 2 ^ 64 \<Longrightarrow> u64_add a b = a + b"
  "a * b < 2 ^ 64 \<Longrightarrow> u64_mul a b = a * b"
  "b \<le> a \<Longrightarrow> a < 2 ^ 64 \<Longrightarrow> u64_sub a b = a - b"
proof -
  show "u64_sub a b = a - b" if "b \<le> a" "a < 2 ^ 64"
  proof -
    have "b mod 2 ^ 64 = b" "a + (2 ^ 64 - b) = (a - b) + 2 ^ 64" using that by simp_all
    then have "u64_sub a b = ((a - b) + 2 ^ 64) mod 2 ^ 64" unfolding u64_sub_def by (simp only:)
    also have "\<dots> = (a - b) mod 2 ^ 64" by (rule mod_add_self2)
    also have "\<dots> = a - b" using that by (intro mod_less) simp
    finally show ?thesis .
  qed
qed (simp_all add: u64_add_def u64_mul_def)

lemma u64_succ: "k + 1 < 2 ^ 64 \<Longrightarrow> u64_add k (Suc 0) = Suc k"
  using u64_exact(1) [of k 1] by simp

subsection \<open>Slices\<close>

text \<open>\<open>slice.get(i)\<close> and \<open>slice.get(a..b)\<close>: \<open>None\<close> out of range.\<close>

definition slice_at :: "'a list \<Rightarrow> nat \<Rightarrow> 'a option" where
  "slice_at xs i = (if i < length xs then Some (xs ! i) else None)"

definition slice_range :: "'a list \<Rightarrow> nat \<Rightarrow> nat \<Rightarrow> 'a list option" where
  "slice_range xs a b = (if a \<le> b \<and> b \<le> length xs then Some (take (b - a) (drop a xs)) else None)"

lemma slice_at_Some_iff [wire_simps]:
  "slice_at xs i = Some x \<longleftrightarrow> i < length xs \<and> x = xs ! i"
  by (auto simp: slice_at_def)

lemma slice_at_None_iff [wire_simps]: "slice_at xs i = None \<longleftrightarrow> length xs \<le> i"
  by (auto simp: slice_at_def)

lemma slice_at_Cons [simp]:
  "slice_at (x # xs) 0 = Some x" "slice_at (x # xs) (Suc i) = slice_at xs i"
  by (auto simp: slice_at_def)

lemma slice_at_Nil [simp]: "slice_at [] i = None"
  by (simp add: slice_at_def)

lemma slice_at_append [simp]: "i < length xs \<Longrightarrow> slice_at (xs @ ys) i = slice_at xs i"
  by (simp add: slice_at_def nth_append)

lemma slice_at_append_right [simp]: "slice_at (xs @ ys) (length xs + i) = slice_at ys i"
  by (simp add: slice_at_def nth_append)

lemma slice_at_drop: "slice_at (drop n xs) i = slice_at xs (n + i)"
  by (auto simp: slice_at_def)

lemma slice_range_Some_iff [wire_simps]:
  "slice_range xs a b = Some ys \<longleftrightarrow> a \<le> b \<and> b \<le> length xs \<and> ys = take (b - a) (drop a xs)"
  by (auto simp: slice_range_def)

lemma slice_range_length: "slice_range xs a b = Some ys \<Longrightarrow> length ys = b - a"
  by (auto simp: slice_range_def split: if_splits)

lemma slice_range_append [simp]:
  "slice_range (xs @ ys @ zs) (length xs) (length xs + length ys) = Some ys"
  by (simp add: slice_range_def)

subsection \<open>Big-endian byte runs\<close>

text \<open>
  \<open>be_val\<close> is \<open>from_be_bytes\<close> on a run of any length and \<open>be_bytes k\<close> is
  \<open>to_be_bytes\<close> of the low \<open>k\<close> bytes of a value.
\<close>

fun be_val_acc :: "nat \<Rightarrow> bytes \<Rightarrow> nat" where
  "be_val_acc acc [] = acc"
| "be_val_acc acc (b # bs) = be_val_acc (acc * 256 + unat b) bs"

definition be_val :: "bytes \<Rightarrow> nat" where
  "be_val bs = be_val_acc 0 bs"

fun be_bytes :: "nat \<Rightarrow> nat \<Rightarrow> bytes" where
  "be_bytes 0 n = []"
| "be_bytes (Suc k) n = of_nat (n div 256 ^ k) # be_bytes k n"

lemma unat_less_exp: "unat (w :: 'a::len word) < 2 ^ LENGTH('a)"
  by (rule unsigned_less)

lemma unat_byte_less [simp]: "unat (b :: u8) < 256"
  using unat_less_exp [of b] by simp

lemma unat_of_nat_byte [simp]: "unat (of_nat n :: u8) = n mod 256"
  by (simp add: unat_of_nat)

lemma be_val_acc_eq: "be_val_acc acc bs = acc * 256 ^ length bs + be_val bs"
proof (induction bs arbitrary: acc)
  case Nil
  then show ?case by (simp add: be_val_def)
next
  case (Cons b bs)
  have "be_val (b # bs) = unat b * 256 ^ length bs + be_val bs"
    using Cons.IH [of "unat b"] by (simp add: be_val_def)
  moreover have "be_val_acc acc (b # bs) = (acc * 256 + unat b) * 256 ^ length bs + be_val bs"
    by (simp add: Cons.IH)
  ultimately show ?case by (simp add: algebra_simps)
qed

lemma be_val_Nil [simp]: "be_val [] = 0"
  by (simp add: be_val_def)

lemma be_val_Cons [simp]: "be_val (b # bs) = unat b * 256 ^ length bs + be_val bs"
  using be_val_acc_eq [of "unat b" bs] by (simp add: be_val_def)

lemma be_val_append: "be_val (xs @ ys) = be_val xs * 256 ^ length ys + be_val ys"
  by (induction xs) (simp_all add: power_add algebra_simps)

lemma be_val_less: "be_val bs < 256 ^ length bs"
proof (induction bs)
  case Nil
  then show ?case by simp
next
  case (Cons b bs)
  have "unat b * 256 ^ length bs + be_val bs < (unat b + 1) * 256 ^ length bs"
    using Cons.IH by simp
  also have "\<dots> \<le> 256 * 256 ^ length bs"
    using unat_byte_less [of b] by (intro mult_right_mono) (simp_all add: less_eq_Suc_le [symmetric])
  finally show ?case by simp
qed

lemma length_be_bytes [simp]: "length (be_bytes k n) = k"
  by (induction k) auto

lemma be_bytes_mod: "be_bytes k (n mod 256 ^ m) = be_bytes k n" if "k \<le> m"
  using that
proof (induction k)
  case 0
  then show ?case by simp
next
  case (Suc k)
  have digit: "x mod 256 ^ Suc k div 256 ^ k = x div 256 ^ k mod 256" for x :: nat
    using mod_mult2_eq [of x "256 ^ k" 256] by (simp add: mult.commute)
  have "n mod 256 ^ m mod 256 ^ Suc k = n mod 256 ^ Suc k"
    by (rule mod_mod_cancel) (rule le_imp_power_dvd [OF Suc.prems])
  then have "n mod 256 ^ m div 256 ^ k mod 256 = n div 256 ^ k mod 256"
    by (metis digit)
  then have "(of_nat (n mod 256 ^ m div 256 ^ k) :: u8) = of_nat (n div 256 ^ k)"
    by (intro word_unat_eq_iff [THEN iffD2]) simp
  with Suc show ?case by simp
qed

lemma be_val_be_bytes [simp]: "be_val (be_bytes k n) = n mod 256 ^ k"
proof (induction k)
  case 0
  then show ?case by simp
next
  case (Suc k)
  have "n mod 256 ^ Suc k = (n div 256 ^ k mod 256) * 256 ^ k + n mod 256 ^ k"
    using mod_mult2_eq [of n "256 ^ k" 256] by (simp add: mult.commute)
  then show ?case by (simp add: Suc.IH)
qed

lemma be_bytes_be_val: "be_bytes (length bs) (be_val bs) = bs"
proof (induction bs)
  case Nil
  then show ?case by simp
next
  case (Cons b bs)
  have "be_val (b # bs) div 256 ^ length bs = unat b"
    using be_val_less [of bs] by simp
  moreover have "be_bytes (length bs) (be_val (b # bs)) = be_bytes (length bs) (be_val bs)"
    using be_bytes_mod [of "length bs" "length bs" "be_val (b # bs)"] be_val_less [of bs]
    by (simp add: mod_mult_self3 add.commute)
  ultimately show ?case using Cons.IH by simp
qed

lemma be_val_inject: "length xs = length ys \<Longrightarrow> be_val xs = be_val ys \<Longrightarrow> xs = ys"
  by (metis be_bytes_be_val)

text \<open>A big-endian number read at an offset, and the shift-and-or loop that computes one.\<close>

definition be_at :: "bytes \<Rightarrow> nat \<Rightarrow> nat \<Rightarrow> nat option" where
  "be_at buf at n = map_option be_val (slice_range buf at (at + n))"

lemma be_at_append:
  "n < 256 ^ k \<Longrightarrow> be_at (xs @ be_bytes k n @ ys) (length xs) k = Some n"
  using slice_range_append [of xs "be_bytes k n" ys]
  by (simp add: be_at_def be_val_be_bytes del: slice_range_append)

lemma shift_or_byte: "push_bit 8 (n :: nat) OR unat (b :: u8) = n * 256 + unat b"
proof -
  have "\<not> bit (unat b) i" if "8 \<le> i" for i
    using that less_le_trans [OF unat_byte_less [of b], of "2 ^ i"]
      power_increasing [of 8 i "2 :: nat"]
    by (simp add: bit_iff_odd)
  then have "push_bit 8 n AND unat b = 0"
    by (auto simp: bit_eq_iff bit_simps not_le)
  then show ?thesis
    by (simp add: push_bit_eq_mult flip: disjunctive_add_eq_or)
qed

lemma be_val_shift_or: "foldl (\<lambda>acc b. push_bit 8 acc OR unat b) n bs = be_val_acc n bs"
  by (induction bs arbitrary: n) (simp_all add: shift_or_byte)

subsection \<open>Incremental parsers\<close>

text \<open>
  A parser that is fed a byte stream in pieces: \<open>step\<close> removes one item from the front of
  the buffered bytes or asks for more, and more bytes behind a complete item never change it.
  Then it does not matter how the stream was cut into pieces.
\<close>

text \<open>Feeding the pieces one after the other: each is pushed to the buffer, which is then drained.\<close>

fun feed_with ::
  "('b list \<Rightarrow> 'b list \<Rightarrow> 'b list) \<Rightarrow> ('b list \<Rightarrow> 'r list \<times> 'b list) \<Rightarrow> 'b list \<Rightarrow> 'b list list \<Rightarrow>
   'r list \<times> 'b list" where
  "feed_with push drain buf [] = ([], buf)"
| "feed_with push drain buf (c # cs) =
     (let (rs, buf') = drain (push buf c); (rs', buf'') = feed_with push drain buf' cs
      in (rs @ rs', buf''))"

locale incremental_parser =
  fixes step :: "'b list \<Rightarrow> ('r \<times> 'b list) option"
    and drain :: "'b list \<Rightarrow> 'r list \<times> 'b list"
  assumes step_shrinks: "step xs = Some (r, ys) \<Longrightarrow> length ys < length xs"
    and step_extend: "step xs = Some (r, ys) \<Longrightarrow> step (xs @ d) = Some (r, ys @ d)"
    and drain_eq: "drain xs =
      (case step xs of None \<Rightarrow> ([], xs) | Some (r, ys) \<Rightarrow> map_prod ((#) r) id (drain ys))"
begin

lemma step_Nil: "step [] = None"
  using step_shrinks [of "[]"] by (cases "step []") auto

end

text \<open>A sender that writes such items back to back: every cut of its stream falls inside one.\<close>

locale framed_stream = incremental_parser +
  fixes enc :: "'c \<Rightarrow> 'b list"
    and emit :: "'c \<Rightarrow> 'r"
    and ok :: "'c \<Rightarrow> bool"
  assumes step_enc: "ok c \<Longrightarrow> step (enc c @ rest) = Some (emit c, rest)"
begin

lemma drain_enc:
  assumes "\<forall>c \<in> set cs. ok c" and "step rest = None"
  shows "drain (concat (map enc cs) @ rest) = (map emit cs, rest)"
  using assms(1)
proof (induction cs)
  case Nil
  then show ?case by (simp add: drain_eq [of rest] assms(2))
next
  case (Cons c cs)
  then show ?case by (subst drain_eq) (simp add: step_enc)
qed

lemma step_inside:
  assumes "ok c" and "xs @ ys = enc c @ zs" and "length xs < length (enc c)"
  shows "step xs = None"
proof (rule ccontr)
  assume "step xs \<noteq> None"
  then obtain r us where "step xs = Some (r, us)"
    by (cases "step xs") auto
  then have "step (xs @ ys) = Some (r, us @ ys)"
    by (rule step_extend)
  then have "us @ ys = zs"
    using assms step_enc [OF \<open>ok c\<close>, of zs] by simp
  then have "length xs = length (enc c) + length us"
    using assms(2) by (metis add.commute add_diff_cancel_right' append_assoc length_append
        append_same_eq)
  with assms(3) show False by simp
qed

lemma cut_stream:
  assumes "\<forall>c \<in> set cs. ok c" and "xs @ ys = concat (map enc cs)"
  obtains cs1 cs2 rest where "cs = cs1 @ cs2" "xs = concat (map enc cs1) @ rest"
    "rest @ ys = concat (map enc cs2)" "step rest = None"
    "cs2 = [] \<and> rest = [] \<or> (\<exists>c \<in> set cs2. length rest < length (enc c))"
  using assms
proof (induction cs arbitrary: xs thesis)
  case Nil
  with step_Nil show ?case by (auto intro: Nil(1) [of "[]" "[]" "[]"])
next
  case (Cons c cs)
  show ?case
  proof (cases "length xs < length (enc c)")
    case True
    have "step xs = None"
      by (rule step_inside [of c xs ys "concat (map enc cs)"]) (use Cons.prems True in auto)
    then show ?thesis
      using Cons.prems(1) [of "[]" "c # cs" xs] Cons.prems(3) True by auto
  next
    case False
    have "xs = enc c @ drop (length (enc c)) xs"
      using Cons.prems(3) False
      by (metis append_eq_append_conv_if append_take_drop_id concat.simps(2) list.simps(9) not_less
          take_all_iff take_append append_eq_conv_conj)
    then obtain xs' where xs: "xs = enc c @ xs'" ..
    with Cons.prems(3) have "xs' @ ys = concat (map enc cs)" by simp
    with Cons.prems(2) obtain cs1 cs2 rest where "cs = cs1 @ cs2" "xs' = concat (map enc cs1) @ rest"
      "rest @ ys = concat (map enc cs2)" "step rest = None"
      "cs2 = [] \<and> rest = [] \<or> (\<exists>c \<in> set cs2. length rest < length (enc c))"
      using Cons.IH [of xs'] by (metis list.set_intros(2))
    then show ?thesis
      using Cons.prems(1) [of "c # cs1" cs2 rest] xs by simp
  qed
qed

text \<open>
  A buffer that takes bytes up to a limit.  Between two pieces it holds less than one item, so no
  piece that fits beside an item is refused, and all items come out.
\<close>

lemma feed_framed:
  assumes push: "\<And>buf k. length buf + length k \<le> limit \<Longrightarrow> push buf k = buf @ k"
    and "\<forall>c \<in> set cs. ok c" and "buf @ concat pieces = concat (map enc cs)"
    and "cs = [] \<and> buf = [] \<or> (\<exists>c \<in> set cs. length buf < length (enc c))"
    and "\<forall>k \<in> set pieces. \<forall>c \<in> set cs. length k + length (enc c) \<le> limit"
  shows "feed_with push drain buf pieces = (map emit cs, [])"
  using assms(2-)
proof (induction pieces arbitrary: cs buf)
  case Nil
  have "length (enc c) \<le> length (concat (map enc cs))" if "c \<in> set cs" for c
    using that by (induction cs) auto
  with Nil show ?case by fastforce
next
  case (Cons k pieces)
  have "(buf @ k) @ concat pieces = concat (map enc cs)" using Cons.prems(2) by simp
  then obtain cs1 cs2 rest where cut: "cs = cs1 @ cs2" "buf @ k = concat (map enc cs1) @ rest"
    "rest @ concat pieces = concat (map enc cs2)" "step rest = None"
    "cs2 = [] \<and> rest = [] \<or> (\<exists>c \<in> set cs2. length rest < length (enc c))"
    using cut_stream [OF Cons.prems(1)] by metis
  have "length buf + length k \<le> limit"
    using Cons.prems(2-4) by force
  then have "drain (push buf k) = (map emit cs1, rest)"
    using push drain_enc [of cs1 rest] Cons.prems(1) cut(1,2,4) by simp
  moreover have "feed_with push drain rest pieces = (map emit cs2, [])"
    using Cons.IH [of cs2 rest] Cons.prems(1,4) cut(1,3,5) by simp
  ultimately show ?case by (simp add: cut(1))
qed

end

end
