(* ===== verification/Octets.thy ===== *)
theory Octets
  imports Koku_Prelude
begin

text \<open>
  The byte cursor of \<open>engine/quiche/octets/src/lib.rs\<close> that the MASQUE framing reads and
  writes through: a buffer and an offset, fixed-width and variable-length big-endian integers,
  and runs of bytes.  Reading past the end is \<open>BufferTooShortError\<close>; the \<open>unreachable!\<close> and
  \<open>panic!\<close> arms of the source are the outcome \<open>Panic\<close>.  The last section is the interface the
  clients rely on: a field that can be read back after it was written (locale
  \<open>cursor_codec\<close>), and the loop that reads fields until the buffer is empty (locale
  \<open>cursor_loop\<close>).
\<close>

datatype buffer_too_short = BufferTooShortError

record octets =
  o_buf :: bytes
  o_off :: nat

type_synonym 'a octets_result = "(buffer_too_short, 'a) outcome"

definition octets_with_slice :: "bytes \<Rightarrow> octets" where
  "octets_with_slice buf = \<lparr>o_buf = buf, o_off = 0\<rparr>"

definition o_cap :: "octets \<Rightarrow> nat" where
  "o_cap b = length (o_buf b) - o_off b"

definition o_rest :: "octets \<Rightarrow> bytes" where
  "o_rest b = drop (o_off b) (o_buf b)"

definition octets_wf :: "octets \<Rightarrow> bool" where
  "octets_wf b \<longleftrightarrow> o_off b \<le> length (o_buf b)"

subsection \<open>Reading\<close>

definition peek_u :: "nat \<Rightarrow> octets \<Rightarrow> ('a::len word) octets_result" where
  "peek_u len b =
     (let src = o_rest b
      in if length src < len then Inl (Error BufferTooShortError)
         else Inr (of_nat (be_val (take len src))))"

definition get_u :: "nat \<Rightarrow> octets \<Rightarrow> (('a::len word) \<times> octets) octets_result" where
  "get_u len b = outcome_bind (peek_u len b) (\<lambda>v. Inr (v, b\<lparr>o_off := o_off b + len\<rparr>))"

definition get_u8 :: "octets \<Rightarrow> (u8 \<times> octets) octets_result" where
  "get_u8 = get_u 1"

definition varint_parse_len :: "u8 \<Rightarrow> nat option" where
  "varint_parse_len first =
     (let tag = drop_bit 6 first
      in if tag = 0 then Some 1 else if tag = 1 then Some 2
         else if tag = 2 then Some 4 else if tag = 3 then Some 8 else None)"

definition get_varint :: "octets \<Rightarrow> (u64 \<times> octets) octets_result" where
  "get_varint b =
     outcome_bind (peek_u 1 b :: u8 octets_result) (\<lambda>first.
       case varint_parse_len first of
         None \<Rightarrow> Inl Panic
       | Some len \<Rightarrow>
           if len > o_cap b then Inl (Error BufferTooShortError)
           else if len = 1 then outcome_bind (get_u8 b) (\<lambda>(v, b'). Inr (ucast v, b'))
           else if len = 2 then
             outcome_bind (get_u 2 b :: (u16 \<times> octets) octets_result)
               (\<lambda>(v, b'). Inr (ucast (v AND 0x3fff), b'))
           else if len = 4 then
             outcome_bind (get_u 4 b :: (u32 \<times> octets) octets_result)
               (\<lambda>(v, b'). Inr (ucast (v AND 0x3fffffff), b'))
           else if len = 8 then
             outcome_bind (get_u 8 b :: (u64 \<times> octets) octets_result)
               (\<lambda>(v, b'). Inr (v AND 0x3fffffffffffffff, b'))
           else Inl Panic)"

definition get_bytes :: "nat \<Rightarrow> octets \<Rightarrow> (bytes \<times> octets) octets_result" where
  "get_bytes len b =
     (if o_cap b < len then Inl (Error BufferTooShortError)
      else Inr (take len (o_rest b), b\<lparr>o_off := o_off b + len\<rparr>))"

subsection \<open>Writing\<close>

definition MAX_VAR_INT :: u64 where
  "MAX_VAR_INT = 4611686018427387903"

definition octets_varint_len :: "u64 \<Rightarrow> nat option" where
  "octets_varint_len v =
     (if v \<le> 63 then Some 1 else if v \<le> 16383 then Some 2
      else if v \<le> 1073741823 then Some 4 else if v \<le> MAX_VAR_INT then Some 8 else None)"

text \<open>The copy of a run of bytes to the current offset, which it then passes.\<close>

definition octets_write :: "bytes \<Rightarrow> octets \<Rightarrow> octets" where
  "octets_write v b =
     b\<lparr>o_buf := take (o_off b) (o_buf b) @ v @ drop (o_off b + length v) (o_buf b),
       o_off := o_off b + length v\<rparr>"

definition put_u :: "nat \<Rightarrow> 'a::len word \<Rightarrow> octets \<Rightarrow> octets octets_result" where
  "put_u len v b =
     (if length (o_buf b) < o_off b + len then Inl (Error BufferTooShortError)
      else Inr (octets_write (be_bytes len (unat v)) b))"

definition put_u8 :: "u8 \<Rightarrow> octets \<Rightarrow> octets octets_result" where
  "put_u8 = put_u 1"

text \<open>\<open>buf[0] |= m\<close> on the slice a write returned, that is, at the offset before the write.\<close>

definition or_at :: "nat \<Rightarrow> u8 \<Rightarrow> octets \<Rightarrow> octets" where
  "or_at i m b = b\<lparr>o_buf := (o_buf b)[i := o_buf b ! i OR m]\<rparr>"

definition put_varint_with_len :: "u64 \<Rightarrow> nat \<Rightarrow> octets \<Rightarrow> octets octets_result" where
  "put_varint_with_len v len b =
     (if o_cap b < len then Inl (Error BufferTooShortError)
      else if len = 1 then put_u8 (ucast v) b
      else if len = 2 then
        outcome_bind (put_u 2 (ucast v :: u16) b) (\<lambda>b'. Inr (or_at (o_off b) 0x40 b'))
      else if len = 4 then
        outcome_bind (put_u 4 (ucast v :: u32) b) (\<lambda>b'. Inr (or_at (o_off b) 0x80 b'))
      else if len = 8 then
        outcome_bind (put_u 8 v b) (\<lambda>b'. Inr (or_at (o_off b) 0xc0 b'))
      else Inl Panic)"

definition put_varint :: "u64 \<Rightarrow> octets \<Rightarrow> octets octets_result" where
  "put_varint v b =
     (case octets_varint_len v of None \<Rightarrow> Inl Panic | Some len \<Rightarrow> put_varint_with_len v len b)"

definition put_bytes :: "bytes \<Rightarrow> octets \<Rightarrow> octets octets_result" where
  "put_bytes v b =
     (let len = length v
      in if o_cap b < len then Inl (Error BufferTooShortError)
         else if len = 0 then Inr b
         else Inr (octets_write v b))"

subsection \<open>The cursor laws\<close>

lemma o_cap_rest: "o_cap b = length (o_rest b)"
  by (simp add: o_cap_def o_rest_def)

definition octets_skip :: "nat \<Rightarrow> octets \<Rightarrow> octets" where
  "octets_skip n b = b\<lparr>o_off := o_off b + n\<rparr>"

lemma octets_skip_simps [simp]:
  "o_rest (octets_skip n b) = drop n (o_rest b)"
  "octets_skip m (octets_skip n b) = octets_skip (n + m) b"
  "o_off (octets_skip n b) = o_off b + n"
  "o_buf (octets_skip n b) = o_buf b"
  "octets_skip 0 b = b"
  by (simp_all add: o_rest_def octets_skip_def add.commute add.assoc)

lemma o_rest_with_slice [simp]: "o_rest (octets_with_slice bs) = bs"
  by (simp add: o_rest_def octets_with_slice_def)

lemma o_cap_with_slice [simp]: "o_cap (octets_with_slice bs) = length bs"
  by (simp add: o_cap_rest)

lemma octets_with_slice_simps [simp]:
  "o_buf (octets_with_slice bs) = bs" "o_off (octets_with_slice bs) = 0"
  by (simp_all add: octets_with_slice_def)

lemma get_u_Inr_iff:
  "get_u n b = Inr (v, b') \<longleftrightarrow>
     n \<le> o_cap b \<and> v = of_nat (be_val (take n (o_rest b))) \<and> b' = octets_skip n b"
  by (auto simp: get_u_def peek_u_def o_cap_rest Let_def octets_skip_def)

lemma get_bytes_Inr_iff:
  "get_bytes n b = Inr (v, b') \<longleftrightarrow>
     n \<le> o_cap b \<and> v = take n (o_rest b) \<and> b' = octets_skip n b"
  by (auto simp: get_bytes_def octets_skip_def)

text \<open>One cursor is reached from another by moving forward inside the same buffer.\<close>

definition advances :: "octets \<Rightarrow> octets \<Rightarrow> bool" where
  "advances b b' \<longleftrightarrow> (\<exists>n \<le> o_cap b. b' = octets_skip n b)"

lemma advances_refl [simp]: "advances b b"
  by (auto simp: advances_def octets_skip_def intro!: exI [of _ 0])

lemma advances_trans [trans]: "advances a b \<Longrightarrow> advances b c \<Longrightarrow> advances a c"
  unfolding advances_def o_cap_def octets_skip_def
  by (elim exE conjE, rule_tac x = "n + na" in exI) auto

lemma advances_cap: "advances b b' \<Longrightarrow> o_cap b' \<le> o_cap b"
  by (auto simp: advances_def o_cap_def octets_skip_def)

lemma advances_wf: "advances b b' \<Longrightarrow> octets_wf b \<Longrightarrow> octets_wf b' \<and> o_buf b' = o_buf b"
  by (auto simp: advances_def octets_wf_def o_cap_def)

lemma get_u_advances: "get_u n b = Inr (v, b') \<Longrightarrow> advances b b' \<and> o_cap b' = o_cap b - n"
  by (auto simp: get_u_Inr_iff advances_def o_cap_def octets_skip_def)

lemma get_bytes_advances:
  "get_bytes n b = Inr (v, b') \<Longrightarrow> advances b b' \<and> o_cap b' = o_cap b - n \<and> length v = n"
  by (auto simp: get_bytes_Inr_iff advances_def o_cap_def octets_skip_def o_rest_def)

lemma varint_parse_len_eq:
  "varint_parse_len first =
     Some (if unat first < 64 then 1 else if unat first < 128 then 2
           else if unat first < 192 then 4 else 8)"
proof -
  have tag: "unat (drop_bit 6 first) = unat first div 64"
    by (simp add: unat_drop_bit_eq [symmetric] drop_bit_eq_div unat_div)
  have tag_eq: "drop_bit 6 first = of_nat n \<longleftrightarrow> unat first div 64 = n" if "n < 256" for n
    using that by (simp add: word_unat_eq_iff tag)
  have "unat first div 64 < 4"
    using unat_byte_less [of first] by (simp add: less_mult_imp_div_less)
  with tag_eq [of 0] tag_eq [of 1] tag_eq [of 2] tag_eq [of 3] unat_byte_less [of first]
  show ?thesis
    by (auto simp: varint_parse_len_def Let_def)
qed

subsection \<open>Variable-length integers\<close>

text \<open>
  The reference encoding (RFC 9000, section 16): the two top bits of the first byte give the
  length and the remaining bits the value, in network order.
\<close>

definition varint_encoding :: "u64 \<Rightarrow> bytes" where
  "varint_encoding v =
     (let n = unat v
      in if n < 2 ^ 6 then be_bytes 1 n
         else if n < 2 ^ 14 then be_bytes 2 (n + 2 ^ 14)
         else if n < 2 ^ 30 then be_bytes 4 (n + 2 * 2 ^ 30)
         else be_bytes 8 (n + 3 * 2 ^ 62))"

definition varint_ok :: "u64 \<Rightarrow> bool" where
  "varint_ok v \<longleftrightarrow> v \<le> MAX_VAR_INT"

lemma varint_ok_iff: "varint_ok v \<longleftrightarrow> unat v < 2 ^ 62"
  by (simp add: varint_ok_def MAX_VAR_INT_def word_le_nat_alt)
    arith

lemma varint_ok_length: "n < 2 ^ 62 \<Longrightarrow> varint_ok (of_nat n)"
  by (simp add: varint_ok_iff unat_of_nat)

lemma length_varint_encoding:
  "length (varint_encoding v) =
     (if unat v < 2 ^ 6 then 1 else if unat v < 2 ^ 14 then 2
      else if unat v < 2 ^ 30 then 4 else 8)"
  by (simp add: varint_encoding_def Let_def)

lemma octets_varint_len_eq:
  "octets_varint_len v = (if varint_ok v then Some (length (varint_encoding v)) else None)"
  by (simp add: octets_varint_len_def varint_ok_def length_varint_encoding MAX_VAR_INT_def
      word_le_nat_alt less_eq_Suc_le [symmetric])

lemma byte_or_tag:
  fixes b :: u8
  assumes "n < 64" and "t < 4"
  shows "of_nat n OR of_nat (64 * t) = (of_nat (n + 64 * t) :: u8)"
proof -
  have "(of_nat n :: u8) AND of_nat (64 * t) = 0"
  proof (rule bit_word_eqI)
    fix i :: nat
    assume "i < LENGTH(8)"
    have "\<not> bit (64 * t) i" if "i < 6"
    proof -
      have "64 * t = push_bit 6 t"
        by (simp add: push_bit_eq_mult)
      with that show ?thesis by (simp add: bit_push_bit_iff)
    qed
    moreover have "\<not> bit n i" if "6 \<le> i"
    proof -
      from \<open>n < 64\<close> have "take_bit 6 n = n"
        by (simp add: take_bit_nat_eq_self_iff)
      with that show ?thesis
        by (metis bit_take_bit_iff not_less)
    qed
    ultimately show "bit ((of_nat n :: u8) AND of_nat (64 * t)) i = bit (0 :: u8) i"
      by (cases "i < 6") (auto simp: bit_simps simp del: of_nat_mult)
  qed
  then have "(of_nat n :: u8) OR of_nat (64 * t) = of_nat n + of_nat (64 * t)"
    by (rule disjunctive_add_eq_or [symmetric])
  then show ?thesis by simp
qed

lemma be_bytes_shift: "be_bytes k (n + c * 256 ^ k) = be_bytes k n"
  using be_bytes_mod [of k k "n + c * 256 ^ k"] be_bytes_mod [of k k n] by simp

lemma be_bytes_tag:
  assumes "n < 64 * 256 ^ k" and "t < 4"
  shows "(be_bytes (Suc k) n)[0 := be_bytes (Suc k) n ! 0 OR of_nat (64 * t)] =
    be_bytes (Suc k) (n + 64 * t * 256 ^ k)"
proof -
  from assms(1) have "n div 256 ^ k < 64"
    by (simp add: less_mult_imp_div_less)
  then have "of_nat (n div 256 ^ k) OR of_nat (64 * t) = (of_nat (n div 256 ^ k + 64 * t) :: u8)"
    using assms(2) by (rule byte_or_tag)
  then show ?thesis
    by (simp add: be_bytes_shift add.commute del: of_nat_mult of_nat_add)
qed

lemma or_at_octets_write:
  assumes "octets_wf b" and "v \<noteq> []"
  shows "or_at (o_off b) m (octets_write v b) = octets_write (v[0 := v ! 0 OR m]) b"
  using assms
  by (auto simp: or_at_def octets_write_def octets_wf_def list_update_append nth_append
      neq_Nil_conv split: nat.splits)

lemma ucast_be_bytes:
  fixes v :: u64
  assumes "8 * k \<le> LENGTH('a::len)" and "8 * k \<le> 64"
  shows "be_bytes k (unat (ucast v :: 'a word)) = be_bytes k (unat v)"
proof -
  have "unat (ucast v :: 'a word) mod 256 ^ k = unat v mod 256 ^ k"
  proof -
    have "(256 :: nat) ^ k = 2 ^ (8 * k)"
      by (simp add: power_mult)
    then show ?thesis
      using assms by (simp add: unsigned_ucast_eq take_bit_eq_mod [symmetric] min_def)
  qed
  then show ?thesis
    using be_bytes_mod [OF le_refl, of k "unat v"]
      be_bytes_mod [OF le_refl, of k "unat (ucast v :: 'a word)"]
    by simp
qed

lemma be_bytes_tags:
  "n < 2 ^ 14 \<Longrightarrow> (be_bytes 2 n)[0 := be_bytes 2 n ! 0 OR 0x40] = be_bytes 2 (n + 2 ^ 14)"
  "n < 2 ^ 30 \<Longrightarrow> (be_bytes 4 n)[0 := be_bytes 4 n ! 0 OR 0x80] = be_bytes 4 (n + 2 * 2 ^ 30)"
  "n < 2 ^ 62 \<Longrightarrow> (be_bytes 8 n)[0 := be_bytes 8 n ! 0 OR 0xc0] = be_bytes 8 (n + 3 * 2 ^ 62)"
  using be_bytes_tag [of n 1 1] be_bytes_tag [of n 3 2] be_bytes_tag [of n 7 3]
  by (simp_all del: be_bytes.simps add: numeral_2_eq_2 [symmetric])

lemma be_bytes_nonempty: "0 < k \<Longrightarrow> be_bytes k n \<noteq> []"
  by (metis length_be_bytes length_greater_0_conv)

lemma put_varint_eq:
  assumes wf: "octets_wf b" and ok: "varint_ok v" and cap: "length (varint_encoding v) \<le> o_cap b"
  shows "put_varint v b = Inr (octets_write (varint_encoding v) b)"
proof -
  have room: "\<not> length (o_buf b) < o_off b + length (varint_encoding v)"
    using cap wf by (simp add: o_cap_def octets_wf_def)
  consider "unat v < 2 ^ 6" | "2 ^ 6 \<le> unat v" "unat v < 2 ^ 14"
    | "2 ^ 14 \<le> unat v" "unat v < 2 ^ 30" | "2 ^ 30 \<le> unat v" "unat v < 2 ^ 62"
    using ok [unfolded varint_ok_iff] by linarith
  then show ?thesis
  proof cases
    case 1
    with cap room ok show ?thesis
      by (simp add: put_varint_def octets_varint_len_eq length_varint_encoding
          put_varint_with_len_def put_u8_def put_u_def ucast_be_bytes varint_encoding_def
          del: be_bytes.simps)
  next
    case 2
    with cap room ok wf show ?thesis
      by (simp add: put_varint_def octets_varint_len_eq length_varint_encoding
          put_varint_with_len_def put_u_def ucast_be_bytes or_at_octets_write varint_encoding_def
          be_bytes_nonempty be_bytes_tags [simplified] del: be_bytes.simps)
  next
    case 3
    with cap room ok wf show ?thesis
      by (simp add: put_varint_def octets_varint_len_eq length_varint_encoding
          put_varint_with_len_def put_u_def ucast_be_bytes or_at_octets_write varint_encoding_def
          be_bytes_nonempty be_bytes_tags [simplified] del: be_bytes.simps)
  next
    case 4
    with cap room ok wf show ?thesis
      by (simp add: put_varint_def octets_varint_len_eq length_varint_encoding
          put_varint_with_len_def put_u_def or_at_octets_write varint_encoding_def
          be_bytes_nonempty be_bytes_tags [simplified] del: be_bytes.simps)
  qed
qed

text \<open>
  Writing into a buffer of zeros from its start, as every encoder does: \<open>fresh d n\<close> is the
  cursor after the bytes \<open>d\<close> with \<open>n\<close> bytes of room left.
\<close>

definition fresh :: "bytes \<Rightarrow> nat \<Rightarrow> octets" where
  "fresh d n = \<lparr>o_buf = d @ replicate n 0, o_off = length d\<rparr>"

lemma with_slice_fresh: "octets_with_slice (replicate n 0) = fresh [] n"
  by (simp add: octets_with_slice_def fresh_def)

lemma fresh_simps [simp]:
  "octets_wf (fresh d n)" "o_cap (fresh d n) = n" "o_buf (fresh d 0) = d" "o_off (fresh d n) = length d"
  by (simp_all add: fresh_def octets_wf_def o_cap_def)

lemma octets_write_fresh:
  "length v \<le> n \<Longrightarrow> octets_write v (fresh d n) = fresh (d @ v) (n - length v)"
  by (simp add: octets_write_def fresh_def)

lemma put_varint_fresh:
  "varint_ok v \<Longrightarrow> length (varint_encoding v) \<le> n \<Longrightarrow>
   put_varint v (fresh d n) = Inr (fresh (d @ varint_encoding v) (n - length (varint_encoding v)))"
  by (simp add: put_varint_eq octets_write_fresh)

lemma put_varint_panics: "\<not> varint_ok v \<Longrightarrow> put_varint v b = Inl Panic"
  by (simp add: put_varint_def octets_varint_len_eq)

lemma put_bytes_fresh:
  "length v \<le> n \<Longrightarrow> put_bytes v (fresh d n) = Inr (fresh (d @ v) (n - length v))"
  by (auto simp: put_bytes_def octets_write_fresh)

lemma put_u8_fresh: "0 < n \<Longrightarrow> put_u8 v (fresh d n) = Inr (fresh (d @ [v]) (n - 1))"
  by (simp add: put_u8_def put_u_def octets_write_fresh) (simp add: fresh_def)

lemma unat_of_nat_and_mask:
  fixes w :: "'a::len word"
  assumes "m \<le> LENGTH('a)"
  shows "unat (of_nat n AND (mask m :: 'a word)) = n mod 2 ^ m"
  using assms
  by (simp add: take_bit_eq_mask [symmetric] unsigned_take_bit_eq unsigned_of_nat take_bit_eq_mod
      [symmetric] min_def)

lemma ucast_u64_eq_of_nat:
  fixes w :: "'a::len word"
  shows "(ucast w :: u64) = of_nat (unat w)"
  by simp

lemma get_u_eq:
  "get_u len b =
     (if o_cap b < len then Inl (Error BufferTooShortError)
      else Inr (of_nat (be_val (take len (o_rest b))), octets_skip len b))"
  by (simp add: get_u_def peek_u_def o_cap_rest Let_def octets_skip_def)

lemma get_varint_Nil: "o_rest b = [] \<Longrightarrow> get_varint b = Inl (Error BufferTooShortError)"
  by (simp add: get_varint_def peek_u_def)

lemma get_varint_Cons:
  assumes first: "o_rest b = first # bs" and len: "varint_parse_len first = Some len"
  shows "get_varint b =
     (if o_cap b < len then Inl (Error BufferTooShortError)
      else Inr (of_nat (be_val (take len (o_rest b)) mod 2 ^ (8 * len - 2)),
                octets_skip len b))"
proof -
  have pk: "peek_u 1 b = Inr first"
    using first by (simp add: peek_u_def)
  have masks: "(0x3fff :: u16) = mask 14" "(0x3fffffff :: u32) = mask 30"
    "(0x3fffffffffffffff :: u64) = mask 62"
    by (simp_all add: mask_eq_exp_minus_1)
  have narrow: "(ucast (of_nat n AND mask m :: 'a::len word) :: u64) = of_nat (n mod 2 ^ m)"
    if "m \<le> LENGTH('a)" for n m
    using that by (simp only: ucast_u64_eq_of_nat unat_of_nat_and_mask)
  have wide: "(of_nat n AND mask 62 :: u64) = of_nat (n mod 2 ^ 62)" for n
    by (rule word_unat_eq_iff [THEN iffD2]) (simp add: unat_of_nat_and_mask unat_of_nat)
  have one: "(ucast (of_nat (be_val (take 1 (o_rest b))) :: u8) :: u64) =
      of_nat (be_val (take 1 (o_rest b)) mod 2 ^ 6)" if "unat first < 64"
    using first that by simp
  have cases: "unat first < 64 \<and> len = 1 \<or> len = 2 \<or> len = 4 \<or> len = 8"
    using len by (auto simp: varint_parse_len_eq split: if_splits)
  then show ?thesis
    unfolding get_varint_def pk outcome_bind.simps len option.case get_u8_def get_u_eq masks
    using one by (elim disjE conjE) (simp_all add: narrow wide del: unsigned_and_eq)
qed

lemma get_varint_tagged:
  assumes rest: "o_rest b = be_bytes (Suc k) (n + 64 * t * 256 ^ k) @ r"
    and n: "n < 64 * 256 ^ k" and t: "t < 4"
    and len: "t = 0 \<and> k = 0 \<or> t = 1 \<and> k = 1 \<or> t = 2 \<and> k = 3 \<or> t = 3 \<and> k = 7"
  shows "get_varint b = Inr (of_nat n, octets_skip (Suc k) b)"
proof -
  let ?first = "of_nat ((n + 64 * t * 256 ^ k) div 256 ^ k) :: u8"
  have small: "n div 256 ^ k < 64"
    using n by (simp add: less_mult_imp_div_less)
  have "(n + 64 * t * 256 ^ k) div 256 ^ k = n div 256 ^ k + 64 * t"
    by simp
  then have first: "unat ?first = n div 256 ^ k + 64 * t"
    using small t by (simp only: unat_of_nat_byte) simp
  have plen: "varint_parse_len ?first = Some (Suc k)"
    unfolding varint_parse_len_eq first using small len by auto
  have total: "n + 64 * t * 256 ^ k < 256 ^ Suc k"
  proof -
    have "n + 64 * t * 256 ^ k < (64 * t + 64) * 256 ^ k"
      using n by (simp add: algebra_simps)
    also have "\<dots> \<le> 256 * 256 ^ k"
      using t by (intro mult_right_mono) simp_all
    finally show ?thesis by simp
  qed
  have "take (Suc k) (o_rest b) = be_bytes (Suc k) (n + 64 * t * 256 ^ k)"
    using rest by (simp del: be_bytes.simps)
  then have val: "be_val (take (Suc k) (o_rest b)) = n + 64 * t * 256 ^ k"
    using total by (simp del: be_bytes.simps be_val_Cons)
  have pow: "(2 :: nat) ^ (8 * Suc k - 2) = 64 * 256 ^ k"
    using len by auto
  have modn: "(n + 64 * t * 256 ^ k) mod (64 * 256 ^ k) = n"
    using n mod_mult_self1 [of n t "64 * 256 ^ k"] by (simp add: mult.assoc mult.left_commute)
  have cons: "o_rest b = ?first # be_bytes k (n + 64 * t * 256 ^ k) @ r"
    using rest by simp
  have cap: "(o_cap b < Suc k) = False"
    using rest by (simp add: o_cap_rest)
  show ?thesis
    using get_varint_Cons [OF cons plen] by (simp only: val pow modn cap if_False)
qed

lemma get_varint_encoding:
  assumes ok: "varint_ok v" and rest: "o_rest b = varint_encoding v @ r"
  shows "get_varint b = Inr (v, octets_skip (length (varint_encoding v)) b)"
proof -
  consider "unat v < 64" | "64 \<le> unat v" "unat v < 16384"
    | "16384 \<le> unat v" "unat v < 1073741824"
    | "1073741824 \<le> unat v" "unat v < 4611686018427387904"
    using ok [unfolded varint_ok_iff] by fastforce
  then show ?thesis
  proof cases
    case 1
    then show ?thesis
      using rest get_varint_tagged [of b 0 "unat v" 0 r]
      by (simp add: varint_encoding_def del: be_bytes.simps)
  next
    case 2
    then show ?thesis
      using rest get_varint_tagged [of b 1 "unat v" 1 r]
      by (simp add: varint_encoding_def Let_def numeral_2_eq_2 [symmetric] del: be_bytes.simps)
  next
    case 3
    then show ?thesis
      using rest get_varint_tagged [of b 3 "unat v" 2 r]
      by (simp add: varint_encoding_def del: be_bytes.simps)
  next
    case 4
    then show ?thesis
      using rest get_varint_tagged [of b 7 "unat v" 3 r]
      by (simp add: varint_encoding_def del: be_bytes.simps)
  qed
qed

lemma get_varint_advances:
  assumes "get_varint b = Inr (v, b')"
  shows "advances b b' \<and> o_cap b' < o_cap b"
proof (cases "o_rest b")
  case Nil
  with assms show ?thesis by (simp add: get_varint_Nil)
next
  case (Cons first bs)
  obtain len where len: "varint_parse_len first = Some len" and "0 < len"
    by (simp add: varint_parse_len_eq)
  with assms get_varint_Cons [OF Cons len] show ?thesis
    by (auto simp: advances_def o_cap_def octets_skip_def not_less split: if_splits intro!: exI [of _ len])
qed

lemma get_varint_ok:
  assumes "get_varint b = Inr (v, b')"
  shows "varint_ok v"
proof (cases "o_rest b")
  case Nil
  with assms show ?thesis by (simp add: get_varint_Nil)
next
  case (Cons first bs)
  obtain len where len: "varint_parse_len first = Some len" and "len \<le> 8" and "0 < len"
    by (simp add: varint_parse_len_eq)
  with assms get_varint_Cons [OF Cons len]
  have v: "v = of_nat (be_val (take len (o_rest b)) mod 2 ^ (8 * len - 2))"
    by (auto split: if_splits)
  have "(2 :: nat) ^ (8 * len - 2) \<le> 2 ^ 62"
    using \<open>len \<le> 8\<close> by (intro power_increasing) auto
  then have "be_val (take len (o_rest b)) mod 2 ^ (8 * len - 2) < 2 ^ 62"
    by (meson less_le_trans mod_less_divisor zero_less_numeral zero_less_power)
  then show ?thesis
    unfolding varint_ok_iff v by (simp add: unat_of_nat)
qed

text \<open>More bytes behind the buffer do not change a successful read.\<close>

definition octets_extend :: "bytes \<Rightarrow> octets \<Rightarrow> octets" where
  "octets_extend d b = b\<lparr>o_buf := o_buf b @ d\<rparr>"

lemma extend_simps [simp]:
  "o_off (octets_extend d b) = o_off b"
  "octets_extend d (octets_with_slice bs) = octets_with_slice (bs @ d)"
  "octets_extend d (octets_skip n b) = octets_skip n (octets_extend d b)"
  by (simp_all add: octets_extend_def octets_with_slice_def octets_skip_def)

lemma o_rest_extend: "octets_wf b \<Longrightarrow> o_rest (octets_extend d b) = o_rest b @ d"
  by (simp add: o_rest_def octets_extend_def octets_wf_def)

lemma get_varint_extend:
  assumes wf: "octets_wf b" and get: "get_varint b = Inr (v, b')"
  shows "get_varint (octets_extend d b) = Inr (v, octets_extend d b')"
proof (cases "o_rest b")
  case Nil
  with get show ?thesis by (simp add: get_varint_Nil)
next
  case (Cons first bs)
  obtain len where len: "varint_parse_len first = Some len"
    by (simp add: varint_parse_len_eq)
  have rest: "o_rest (octets_extend d b) = first # bs @ d"
    using wf Cons by (simp add: o_rest_extend)
  from get get_varint_Cons [OF Cons len]
  have enough: "len \<le> o_cap b" and b': "b' = octets_skip len b"
    and v: "v = of_nat (be_val (take len (o_rest b)) mod 2 ^ (8 * len - 2))"
    by (auto split: if_splits)
  have "take len (o_rest (octets_extend d b)) = take len (o_rest b)"
    using enough wf by (simp add: o_rest_extend o_cap_rest)
  moreover have "\<not> o_cap (octets_extend d b) < len"
    using enough wf by (simp add: o_rest_extend o_cap_rest)
  ultimately show ?thesis
    using get_varint_Cons [OF rest len] by (simp add: v b')
qed

lemma get_varint_never_panics: "get_varint b \<noteq> Inl Panic"
proof (cases "o_rest b")
  case Nil
  then show ?thesis by (simp add: get_varint_Nil)
next
  case (Cons first bs)
  obtain len where "varint_parse_len first = Some len"
    by (simp add: varint_parse_len_eq)
  from get_varint_Cons [OF Cons this] show ?thesis by simp
qed

subsection \<open>Fields read through a cursor\<close>

text \<open>
  What a client of the cursor relies on for one kind of field: an encoded valid value at the
  cursor is read back and the cursor passes exactly its bytes, and every successful read moves the
  cursor forward inside the buffer.
\<close>

locale cursor_codec =
  fixes enc :: "'a \<Rightarrow> bytes"
    and get :: "octets \<Rightarrow> 'e + ('a \<times> octets)"
    and valid :: "'a \<Rightarrow> bool"
  assumes get_enc: "valid x \<Longrightarrow> o_rest b = enc x @ r \<Longrightarrow>
      get b = Inr (x, octets_skip (length (enc x)) b)"
    and get_advances: "get b = Inr (x, b') \<Longrightarrow> advances b b' \<and> o_cap b' < o_cap b"
begin

lemma enc_nonempty: "valid x \<Longrightarrow> enc x \<noteq> []"
  using get_enc [of x "octets_with_slice (enc x)" "[]"]
    get_advances [of "octets_with_slice (enc x)" x]
  by fastforce

lemma enc_prefix_free:
  assumes "valid x" and "valid y" and eq: "enc x @ r = enc y @ s"
  shows "x = y \<and> r = s"
proof -
  let ?b = "octets_with_slice (enc x @ r)"
  have "get ?b = Inr (x, octets_skip (length (enc x)) ?b)"
    using get_enc [OF \<open>valid x\<close>, of ?b r] by simp
  moreover have "get ?b = Inr (y, octets_skip (length (enc y)) ?b)"
    using get_enc [OF \<open>valid y\<close>, of ?b s] eq by simp
  ultimately have "x = y" by simp
  with eq show ?thesis by simp
qed

lemma get_cap: "get b = Inr (x, b') \<Longrightarrow> o_cap b' < o_cap b"
  using get_advances by blast

lemma get_wf: "octets_wf b \<Longrightarrow> get b = Inr (x, b') \<Longrightarrow> octets_wf b' \<and> o_buf b' = o_buf b"
  using get_advances advances_wf by blast

end

text \<open>The loop \<open>while b.cap() > 0\<close> that collects such fields.\<close>

locale cursor_loop = cursor_codec +
  fixes loop :: "octets \<Rightarrow> 'a list \<Rightarrow> 'e + 'a list"
  assumes loop_eq: "loop b acc =
      (if 0 < o_cap b then outcome_bind (get b) (\<lambda>(x, b'). loop b' (acc @ [x])) else Inr acc)"
begin

lemma loop_concat:
  assumes "\<forall>x \<in> set xs. valid x" and "o_rest b = concat (map enc xs)"
  shows "loop b acc = Inr (acc @ xs)"
  using assms
proof (induction xs arbitrary: b acc)
  case Nil
  then show ?case by (simp add: loop_eq o_cap_rest)
next
  case (Cons x xs)
  let ?b' = "octets_skip (length (enc x)) b"
  from Cons.prems have rest: "o_rest b = enc x @ concat (map enc xs)" and "valid x"
    by simp_all
  then have "get b = Inr (x, ?b')"
    by (intro get_enc)
  moreover have "0 < o_cap b"
    using rest enc_nonempty [OF \<open>valid x\<close>] by (simp add: o_cap_rest)
  ultimately have "loop b acc = loop ?b' (acc @ [x])"
    by (simp add: loop_eq [of b acc])
  also have "\<dots> = Inr ((acc @ [x]) @ xs)"
    using Cons.prems rest by (intro Cons.IH) simp_all
  finally show ?case by simp
qed

lemma loop_collects:
  assumes "loop b acc = Inr out"
  shows "\<exists>xs. out = acc @ xs"
  using assms
proof (induction "o_cap b" arbitrary: b acc rule: less_induct)
  case less
  show ?case
  proof (cases "0 < o_cap b")
    case True
    with less.prems obtain x b' where "get b = Inr (x, b')" and "loop b' (acc @ [x]) = Inr out"
      by (auto simp: loop_eq [of b acc])
    with less.hyps [OF get_cap] obtain xs where "out = (acc @ [x]) @ xs" by blast
    then show ?thesis by simp
  next
    case False
    with less.prems show ?thesis by (simp add: loop_eq [of b acc])
  qed
qed

end

lemma get_bytes_append:
  "o_rest b = v @ r \<Longrightarrow> n = length v \<Longrightarrow> get_bytes n b = Inr (v, octets_skip n b)"
  by (simp add: get_bytes_def o_cap_rest octets_skip_def)

interpretation varint: cursor_codec varint_encoding get_varint varint_ok
  by unfold_locales (simp_all add: get_varint_encoding get_varint_advances)

lemma get_u8_advances: "get_u8 b = Inr (v, b') \<Longrightarrow> advances b b' \<and> o_cap b' < o_cap b"
  using get_u_advances [of 1 b v b'] by (auto simp: get_u8_def get_u_Inr_iff)

lemma get_u8_Cons: "o_rest b = v # r \<Longrightarrow> get_u8 b = Inr (v, octets_skip 1 b)"
  by (simp add: get_u8_def get_u_eq o_cap_rest)

interpretation byte: cursor_codec "\<lambda>v. [v]" get_u8 "\<lambda>_. True"
  by unfold_locales (simp add: get_u8_Cons, rule get_u8_advances)

subsection \<open>Writers\<close>

text \<open>
  A writer puts a fixed run of bytes at the cursor, or reports one error when they do not fit.
\<close>

definition puts :: "'e \<Rightarrow> (octets \<Rightarrow> ('e, octets) outcome) \<Rightarrow> bytes \<Rightarrow> bool" where
  "puts e p v \<longleftrightarrow>
     (\<forall>b. octets_wf b \<longrightarrow>
        p b = (if length v \<le> o_cap b then Inr (octets_write v b) else Inl (Error e)))"

lemma octets_write_wf:
  "octets_wf b \<Longrightarrow> length v \<le> o_cap b \<Longrightarrow>
   octets_wf (octets_write v b) \<and> o_cap (octets_write v b) = o_cap b - length v"
  by (auto simp: octets_wf_def octets_write_def o_cap_def)

lemma octets_write_append:
  "octets_wf b \<Longrightarrow> length u + length v \<le> o_cap b \<Longrightarrow>
   octets_write v (octets_write u b) = octets_write (u @ v) b"
  by (simp add: octets_write_def octets_wf_def o_cap_def min_def ac_simps)

lemma octets_write_Nil: "octets_wf b \<Longrightarrow> octets_write [] b = b"
  by (simp add: octets_write_def octets_wf_def)

lemma puts_Nil: "puts e Inr []"
  by (auto simp: puts_def octets_write_Nil)

lemma puts_bind:
  assumes "puts e p u" and "puts e q v"
  shows "puts e (\<lambda>b. outcome_bind (p b) q) (u @ v)"
  unfolding puts_def
proof (intro allI impI)
  fix b
  assume wf: "octets_wf b"
  show "outcome_bind (p b) q
      = (if length (u @ v) \<le> o_cap b then Inr (octets_write (u @ v) b) else Inl (Error e))"
  proof (cases "length u \<le> o_cap b")
    case True
    then show ?thesis
      using assms wf octets_write_wf [OF wf True] octets_write_append [OF wf, of u v]
      by (auto simp: puts_def)
  next
    case False
    then show ?thesis using assms wf by (simp add: puts_def)
  qed
qed

lemma puts_u: "puts BufferTooShortError (put_u k v) (be_bytes k (unat v))"
  by (auto simp: puts_def put_u_def o_cap_def octets_wf_def)

lemma puts_u8: "puts BufferTooShortError (put_u8 v) [v]"
  using puts_u [of 1 v] by (simp add: put_u8_def)

lemma puts_bytes: "puts BufferTooShortError (put_bytes v) v"
  by (auto simp: puts_def put_bytes_def octets_write_Nil)

end
