(* ===== verification/Rust_Text.thy ===== *)
theory Rust_Text
  imports Koku_Prelude
begin

text \<open>
  The string operations of the Rust standard library the engine uses.  A \<open>str\<close> is the list of
  its UTF-8 bytes as characters, so \<open>len\<close> is \<open>length\<close>; decoding bytes and trimming follow the
  library's rules for UTF-8 and Unicode white space.  Case mapping is that of ASCII: host names,
  addresses, option values and HTTP heads are ASCII in every format the engine parses.
\<close>

text \<open>The environment of the process.\<close>

type_synonym env = "string \<Rightarrow> string option"

definition text_of_bytes :: "bytes \<Rightarrow> string" where
  "text_of_bytes bs = map (\<lambda>b. char_of (unat b)) bs"

definition bytes_of_text :: "string \<Rightarrow> bytes" where
  "bytes_of_text s = map (\<lambda>c. of_nat (of_char c)) s"

subsection \<open>UTF-8\<close>

text \<open>
  The first unit of a byte string: its length, and whether it is a scalar value or an ill-formed
  sequence.
\<close>

definition in_range :: "string \<Rightarrow> nat \<Rightarrow> nat \<Rightarrow> nat \<Rightarrow> bool" where
  "in_range s i lo hi \<longleftrightarrow> i < length s \<and> lo \<le> of_char (s ! i) \<and> of_char (s ! i) \<le> hi"

definition utf8_unit :: "string \<Rightarrow> nat \<times> bool" where
  "utf8_unit s =
     (let b = of_char (hd s) :: nat
      in if b < 0x80 then (1, True)
         else if 0xC2 \<le> b \<and> b \<le> 0xDF then
           (if in_range s 1 0x80 0xBF then (2, True) else (1, False))
         else if 0xE0 \<le> b \<and> b \<le> 0xEF then
           (if in_range s 1 (if b = 0xE0 then 0xA0 else 0x80) (if b = 0xED then 0x9F else 0xBF) then
              (if in_range s 2 0x80 0xBF then (3, True) else (2, False))
            else (1, False))
         else if 0xF0 \<le> b \<and> b \<le> 0xF4 then
           (if in_range s 1 (if b = 0xF0 then 0x90 else 0x80) (if b = 0xF4 then 0x8F else 0xBF) then
              (if in_range s 2 0x80 0xBF then
                 (if in_range s 3 0x80 0xBF then (4, True) else (3, False))
               else (2, False))
            else (1, False))
         else (1, False))"

lemma utf8_unit_pos: "0 < fst (utf8_unit s)"
  by (simp add: utf8_unit_def Let_def)

lemma utf8_drop_less:
  "s \<noteq> [] \<Longrightarrow> (n, ok) = utf8_unit s \<Longrightarrow> length s - n < length s"
  using utf8_unit_pos [of s] by (metis diff_less fst_conv length_greater_0_conv)

function from_utf8_lossy :: "string \<Rightarrow> string" where
  "from_utf8_lossy s =
     (if s = [] then []
      else (let (n, ok) = utf8_unit s
            in (if ok then take n s else [CHR 0xEF, CHR 0xBF, CHR 0xBD])
               @ from_utf8_lossy (drop n s)))"
  by pat_completeness auto
termination
  by (relation "measure length") (simp_all add: utf8_drop_less)

declare from_utf8_lossy.simps [simp del]

function utf8_valid :: "string \<Rightarrow> bool" where
  "utf8_valid s =
     (if s = [] then True else (let (n, ok) = utf8_unit s in ok \<and> utf8_valid (drop n s)))"
  by pat_completeness auto
termination
  by (relation "measure length") (simp_all add: utf8_drop_less)

declare utf8_valid.simps [simp del]

definition from_utf8 :: "bytes \<Rightarrow> string option" where
  "from_utf8 bs = (let s = text_of_bytes bs in if utf8_valid s then Some s else None)"

subsection \<open>White space\<close>

definition ascii_space :: "char \<Rightarrow> bool" where
  "ascii_space c \<longleftrightarrow> (let n = of_char c :: nat in n = 32 \<or> 9 \<le> n \<and> n \<le> 13)"

text \<open>The white space beyond ASCII, as UTF-8.\<close>

definition wide_spaces :: "string list" where
  "wide_spaces =
     [[CHR 0xC2, CHR 0x85], [CHR 0xC2, CHR 0xA0], [CHR 0xE1, CHR 0x9A, CHR 0x80]]
     @ map (\<lambda>n. [CHR 0xE2, CHR 0x80, char_of n]) [0x80..<0x8B]
     @ [[CHR 0xE2, CHR 0x80, CHR 0xA8], [CHR 0xE2, CHR 0x80, CHR 0xA9],
        [CHR 0xE2, CHR 0x80, CHR 0xAF], [CHR 0xE2, CHR 0x81, CHR 0x9F],
        [CHR 0xE3, CHR 0x80, CHR 0x80]]"

text \<open>The length of the white space character a string starts with, 0 if it starts with none.\<close>

definition space_len :: "string list \<Rightarrow> string \<Rightarrow> nat" where
  "space_len wide s =
     (if s \<noteq> [] \<and> ascii_space (hd s) then 1
      else (case filter (\<lambda>w. prefix w s) wide of [] \<Rightarrow> 0 | w # _ \<Rightarrow> length w))"

function trim_front :: "string list \<Rightarrow> string \<Rightarrow> string" where
  "trim_front wide s =
     (let n = space_len wide s
      in if 0 < n \<and> s \<noteq> [] then trim_front wide (drop n s) else s)"
  by pat_completeness auto
termination
  by (relation "measure (length \<circ> snd)") auto

declare trim_front.simps [simp del]

definition str_trim_start :: "string \<Rightarrow> string" where
  "str_trim_start s = trim_front wide_spaces s"

definition str_trim_end :: "string \<Rightarrow> string" where
  "str_trim_end s = rev (trim_front (map rev wide_spaces) (rev s))"

definition str_trim :: "string \<Rightarrow> string" where
  "str_trim s = str_trim_end (str_trim_start s)"

definition trim_end_matches :: "(char \<Rightarrow> bool) \<Rightarrow> string \<Rightarrow> string" where
  "trim_end_matches P s = rev (dropWhile P (rev s))"

subsection \<open>Character classes\<close>

definition ascii_lower :: "char \<Rightarrow> char" where
  "ascii_lower c = (let n = of_char c :: nat in if 65 \<le> n \<and> n \<le> 90 then char_of (n + 32) else c)"

definition to_lowercase :: "string \<Rightarrow> string" where
  "to_lowercase s = map ascii_lower s"

definition eq_ignore_ascii_case :: "string \<Rightarrow> string \<Rightarrow> bool" where
  "eq_ignore_ascii_case a b \<longleftrightarrow> map ascii_lower a = map ascii_lower b"

definition is_ascii_digit :: "char \<Rightarrow> bool" where
  "is_ascii_digit c \<longleftrightarrow> (let n = of_char c :: nat in 48 \<le> n \<and> n \<le> 57)"

definition is_ascii_alphabetic :: "char \<Rightarrow> bool" where
  "is_ascii_alphabetic c \<longleftrightarrow>
     (let n = of_char c :: nat in 65 \<le> n \<and> n \<le> 90 \<or> 97 \<le> n \<and> n \<le> 122)"

definition is_ascii_alphanumeric :: "char \<Rightarrow> bool" where
  "is_ascii_alphanumeric c \<longleftrightarrow> is_ascii_alphabetic c \<or> is_ascii_digit c"

text \<open>\<open>split_once\<close>, \<open>rsplit_once\<close> and \<open>split\<close> on a character (class).\<close>

fun split_once :: "char \<Rightarrow> string \<Rightarrow> (string \<times> string) option" where
  "split_once c [] = None"
| "split_once c (x # xs) =
     (if x = c then Some ([], xs)
      else map_option (\<lambda>(a, b). (x # a, b)) (split_once c xs))"

definition rsplit_once :: "char \<Rightarrow> string \<Rightarrow> (string \<times> string) option" where
  "rsplit_once c s = map_option (\<lambda>(a, b). (rev b, rev a)) (split_once c (rev s))"

fun split_on :: "(char \<Rightarrow> bool) \<Rightarrow> string \<Rightarrow> string list" where
  "split_on P [] = [[]]"
| "split_on P (x # xs) =
     (if P x then [] # split_on P xs
      else (case split_on P xs of [] \<Rightarrow> [[x]] | y # ys \<Rightarrow> (x # y) # ys))"

text \<open>Searching for and splitting at a substring.\<close>

fun split_once_str :: "string \<Rightarrow> string \<Rightarrow> (string \<times> string) option" where
  "split_once_str pat [] = (if pat = [] then Some ([], []) else None)"
| "split_once_str pat (c # cs) =
     (if prefix pat (c # cs) then Some ([], drop (length pat) (c # cs))
      else map_option (\<lambda>(a, b). (c # a, b)) (split_once_str pat cs))"

definition str_contains :: "string \<Rightarrow> string \<Rightarrow> bool" where
  "str_contains pat s \<longleftrightarrow> split_once_str pat s \<noteq> None"

lemma split_once_str_Some: "split_once_str pat s = Some (a, b) \<Longrightarrow> s = a @ pat @ b"
  by (induction s arbitrary: a) (auto simp: prefix_def split: if_splits)

lemma str_contains_iff: "str_contains pat s \<longleftrightarrow> sublist pat s"
proof (induction s)
  case Nil
  then show ?case by (simp add: str_contains_def)
next
  case (Cons c s)
  then show ?case
    by (auto simp: str_contains_def sublist_Cons_right)
qed

function split_str :: "string \<Rightarrow> string \<Rightarrow> string list" where
  "split_str pat s =
     (if pat = [] then [s]
      else (case split_once_str pat s of None \<Rightarrow> [s] | Some (a, b) \<Rightarrow> a # split_str pat b))"
  by pat_completeness auto
termination
  by (relation "measure (length \<circ> snd)") (auto dest!: split_once_str_Some)

declare split_str.simps [simp del]

text \<open>\<open>str::lines\<close>: split at line feeds, drop one carriage return before each.\<close>

definition str_lines :: "string \<Rightarrow> string list" where
  "str_lines s =
     (let ls = split_on (\<lambda>c. c = CHR ''\<newline>'') s;
          chomp = (\<lambda>l. if l \<noteq> [] \<and> last l = CHR 0x0D then butlast l else l)
      in map chomp (butlast ls) @ (if last ls = [] then [] else [last ls]))"

subsection \<open>Decimal numbers\<close>

fun show_nat :: "nat \<Rightarrow> string" where
  "show_nat n =
     (if n < 10 then [char_of (48 + n)] else show_nat (n div 10) @ [char_of (48 + n mod 10)])"

declare show_nat.simps [simp del]

fun digits_val :: "nat \<Rightarrow> string \<Rightarrow> nat option" where
  "digits_val acc [] = Some acc"
| "digits_val acc (c # cs) =
     (if is_ascii_digit c then digits_val (acc * 10 + (of_char c - 48)) cs else None)"

text \<open>
  \<open>str::parse\<close> at an unsigned type whose largest value is \<open>limit\<close>: an optional plus sign,
  at least one digit, no overflow.
\<close>

definition parse_unsigned :: "nat \<Rightarrow> string \<Rightarrow> nat option" where
  "parse_unsigned limit s =
     (let ds = (case s of [] \<Rightarrow> [] | c # cs \<Rightarrow> if c = CHR ''+'' then cs else s)
      in if ds = [] then None
         else (case digits_val 0 ds of
                 None \<Rightarrow> None | Some n \<Rightarrow> if n \<le> limit then Some n else None))"

lemma is_ascii_digit_char_of [simp]: "d < 10 \<Longrightarrow> is_ascii_digit (char_of (48 + d :: nat))"
  by (simp add: is_ascii_digit_def Let_def)

lemma show_nat_nonempty [simp]: "show_nat n \<noteq> []"
  by (subst show_nat.simps) simp

lemma show_nat_digits: "c \<in> set (show_nat n) \<Longrightarrow> is_ascii_digit c"
proof (induction n rule: show_nat.induct)
  case (1 n)
  then show ?case
    by (cases "n < 10") (auto simp: show_nat.simps [of n])
qed

lemma digits_val_append:
  "digits_val acc (xs @ ys) = Option.bind (digits_val acc xs) (\<lambda>v. digits_val v ys)"
  by (induction xs arbitrary: acc) auto

lemma digits_val_show_nat: "digits_val 0 (show_nat n) = Some n"
proof (induction n rule: show_nat.induct)
  case (1 n)
  then show ?case
    by (cases "n < 10") (auto simp: show_nat.simps [of n] digits_val_append)
qed

lemma parse_unsigned_show_nat: "n \<le> limit \<Longrightarrow> parse_unsigned limit (show_nat n) = Some n"
proof -
  assume "n \<le> limit"
  obtain c cs where s: "show_nat n = c # cs"
    by (cases "show_nat n") auto
  then have "is_ascii_digit c"
    using show_nat_digits [of c n] by simp
  then have "c \<noteq> CHR ''+''"
    by (auto simp: is_ascii_digit_def)
  with s \<open>n \<le> limit\<close> digits_val_show_nat [of n] show ?thesis
    by (simp add: parse_unsigned_def)
qed

lemma parse_unsigned_le: "parse_unsigned limit s = Some n \<Longrightarrow> n \<le> limit"
  by (auto simp: parse_unsigned_def Let_def split: if_splits option.splits list.splits)

subsection \<open>Laws of the string operations\<close>

lemma ascii_lower_idem [simp]: "ascii_lower (ascii_lower c) = ascii_lower c"
  by (simp add: ascii_lower_def Let_def)

lemma to_lowercase_idem [simp]: "to_lowercase (to_lowercase s) = to_lowercase s"
  by (simp add: to_lowercase_def)

lemma to_lowercase_append [simp]: "to_lowercase (a @ b) = to_lowercase a @ to_lowercase b"
  by (simp add: to_lowercase_def)

lemma length_to_lowercase [simp]: "length (to_lowercase s) = length s"
  by (simp add: to_lowercase_def)

lemma eq_ignore_ascii_case_iff: "eq_ignore_ascii_case a b \<longleftrightarrow> to_lowercase a = to_lowercase b"
  by (simp add: eq_ignore_ascii_case_def to_lowercase_def)

lemma split_once_Some: "split_once c s = Some (a, b) \<longleftrightarrow> s = a @ c # b \<and> c \<notin> set a"
proof (induction s arbitrary: a)
  case Nil
  then show ?case by simp
next
  case (Cons x s)
  then show ?case by (cases a) auto
qed

lemma split_once_None: "split_once c s = None \<longleftrightarrow> c \<notin> set s"
  by (induction s) auto

lemma rsplit_once_Some: "rsplit_once c s = Some (a, b) \<longleftrightarrow> s = a @ c # b \<and> c \<notin> set b"
proof -
  have "rsplit_once c s = Some (a, b) \<longleftrightarrow> split_once c (rev s) = Some (rev b, rev a)"
    by (auto simp: rsplit_once_def)
  also have "\<dots> \<longleftrightarrow> rev s = rev b @ c # rev a \<and> c \<notin> set b"
    by (simp add: split_once_Some)
  also have "\<dots> \<longleftrightarrow> s = a @ c # b \<and> c \<notin> set b"
    by (simp add: rev_swap)
  finally show ?thesis .
qed

lemma trim_end_matches_prefix: "prefix (trim_end_matches P s) s"
  unfolding trim_end_matches_def prefix_def
  by (metis rev_append rev_rev_ident takeWhile_dropWhile_id)

lemma suffix_trim_front: "suffix (trim_front wide s) s"
proof (induction wide s rule: trim_front.induct)
  case (1 wide s)
  then show ?case
    by (subst trim_front.simps) (auto simp: Let_def intro: suffix_order.trans suffix_drop)
qed

lemma length_str_trim: "length (str_trim s) \<le> length s"
proof -
  have "length (trim_front wide t) \<le> length t" for wide t
    by (rule suffix_length_le) (rule suffix_trim_front)
  then show ?thesis
    unfolding str_trim_def str_trim_start_def str_trim_end_def
    by (metis length_rev order_trans)
qed

lemma set_str_trim: "set (str_trim s) \<subseteq> set s"
proof -
  have "set (trim_front wide t) \<subseteq> set t" for wide t
    by (rule set_mono_suffix) (rule suffix_trim_front)
  then show ?thesis
    unfolding str_trim_def str_trim_start_def str_trim_end_def
    by (metis set_rev order_trans)
qed

text \<open>A string of printable ASCII characters is not changed by trimming.\<close>

definition graphic :: "char \<Rightarrow> bool" where
  "graphic c \<longleftrightarrow> (let n = of_char c :: nat in 32 < n \<and> n < 128)"

lemma space_len_graphic:
  assumes "list_all graphic s" and "\<forall>w \<in> set wide. w \<noteq> [] \<and> 128 \<le> (of_char (hd w) :: nat)"
  shows "space_len wide s = 0"
proof -
  have "\<not> prefix w s" if "w \<in> set wide" for w
    using assms that by (cases s; cases w) (auto simp: graphic_def Let_def)
  then have "filter (\<lambda>w. prefix w s) wide = []"
    by (simp add: filter_empty_conv)
  moreover have "\<not> (s \<noteq> [] \<and> ascii_space (hd s))"
    using assms(1) by (cases s) (auto simp: graphic_def ascii_space_def Let_def)
  ultimately show ?thesis by (auto simp: space_len_def)
qed

lemma str_trim_graphic: "list_all graphic s \<Longrightarrow> str_trim s = s"
proof -
  assume g: "list_all graphic s"
  have wide: "\<forall>w \<in> set wide_spaces. w \<noteq> [] \<and> 128 \<le> (of_char (hd w) :: nat)"
    "\<forall>w \<in> set (map rev wide_spaces). w \<noteq> [] \<and> 128 \<le> (of_char (hd w) :: nat)"
    by (simp_all add: wide_spaces_def upt_rec)
  have "trim_front wide t = t" if "list_all graphic t"
    "\<forall>w \<in> set wide. w \<noteq> [] \<and> 128 \<le> (of_char (hd w) :: nat)" for wide t
    by (subst trim_front.simps) (simp add: space_len_graphic [OF that])
  with g wide show ?thesis
    by (simp add: str_trim_def str_trim_start_def str_trim_end_def)
qed

lemma utf8_valid_ascii: "list_all (\<lambda>c. (of_char c :: nat) < 128) s \<Longrightarrow> utf8_valid s"
proof (induction s)
  case Nil
  then show ?case by (simp add: utf8_valid.simps)
next
  case (Cons c s)
  then show ?case
    by (subst utf8_valid.simps) (simp add: utf8_unit_def)
qed

lemma text_of_bytes_of_text [simp]: "text_of_bytes (bytes_of_text s) = s"
  by (induction s) (simp_all add: text_of_bytes_def bytes_of_text_def)

lemma bytes_of_text_of_bytes [simp]: "bytes_of_text (text_of_bytes bs) = bs"
  by (induction bs) (simp_all add: text_of_bytes_def bytes_of_text_def)

lemma length_text_of_bytes [simp]: "length (text_of_bytes bs) = length bs"
  by (simp add: text_of_bytes_def)

text \<open>A string of white space only, and trimming it away.\<close>

inductive blank :: "string list \<Rightarrow> string \<Rightarrow> bool" for wide where
  blank_Nil: "blank wide []"
| blank_ascii: "ascii_space c \<Longrightarrow> blank wide s \<Longrightarrow> blank wide (c # s)"
| blank_wide: "w \<in> set wide \<Longrightarrow> blank wide s \<Longrightarrow> blank wide (w @ s)"

lemma wide_spaces_high:
  "\<forall>w \<in> set wide_spaces. w \<noteq> [] \<and> (\<forall>c \<in> set w. 128 \<le> (of_char c :: nat))"
  by (simp add: wide_spaces_def upt_rec)

lemma space_len_cases:
  assumes "0 < space_len wide s"
  obtains c t where "s = c # t" "ascii_space c" "space_len wide s = 1"
  | w where "w \<in> set wide" "prefix w s" "space_len wide s = length w"
proof (cases "s \<noteq> [] \<and> ascii_space (hd s)")
  case True
  then show thesis
    using that(1) [of "hd s" "List.tl s"] by (simp add: space_len_def)
next
  case False
  then obtain w ws where ws: "filter (\<lambda>w. prefix w s) wide = w # ws"
    and len: "space_len wide s = length w"
    using assms by (auto simp: space_len_def split: if_splits list.splits)
  have "w \<in> set (filter (\<lambda>w. prefix w s) wide)" by (simp add: ws)
  then show thesis using that(2) [OF _ _ len] by simp
qed

lemma trim_front_step:
  "0 < space_len wide s \<Longrightarrow> s \<noteq> [] \<Longrightarrow> trim_front wide s = trim_front wide (drop (space_len wide s) s)"
  "\<not> (0 < space_len wide s \<and> s \<noteq> []) \<Longrightarrow> trim_front wide s = s"
  by (subst trim_front.simps, auto simp: Let_def)+

lemma space_len_trim_front:
  "trim_front wide s \<noteq> [] \<Longrightarrow> space_len wide (trim_front wide s) = 0"
proof (induction wide s rule: trim_front.induct)
  case (1 wide s)
  then show ?case
    by (cases "0 < space_len wide s \<and> s \<noteq> []") (auto simp: trim_front_step)
qed

lemma blank_append: "blank wide a \<Longrightarrow> blank wide b \<Longrightarrow> blank wide (a @ b)"
  by (induction rule: blank.induct) (simp_all add: blank.intros)

lemma blank_rev: "blank (map rev wide) s \<Longrightarrow> blank wide (rev s)"
proof (induction rule: blank.induct)
  case (blank_wide w s)
  then show ?case
    using blank.blank_wide [OF _ blank_Nil, of "rev w" wide] by (auto intro: blank_append)
qed (auto intro: blank_append blank.intros)

lemma blank_space_len:
  assumes "blank wide s" and "s \<noteq> []" and "\<forall>w \<in> set wide. w \<noteq> []"
  shows "0 < space_len wide s"
  using assms
proof (cases rule: blank.cases)
  case (blank_wide w t)
  then obtain v vs where v: "filter (\<lambda>w. prefix w s) wide = v # vs"
    by (cases "filter (\<lambda>w. prefix w s) wide") (auto simp: filter_empty_conv)
  then have "v \<in> set wide"
    using filter_is_subset [of _ wide] by (metis list.set_intros(1) subsetD)
  with v assms(3) show ?thesis by (auto simp: space_len_def)
qed (simp_all add: space_len_def)

lemma trim_front_Nil_blank: "trim_front wide s = [] \<Longrightarrow> blank wide s"
proof (induction wide s rule: trim_front.induct)
  case (1 wide s)
  let ?n = "space_len wide s"
  show ?case
  proof (cases "0 < ?n \<and> s \<noteq> []")
    case False
    then show ?thesis using 1(2) by (simp add: trim_front_step blank_Nil)
  next
    case True
    then have "blank wide (drop ?n s)"
      using 1 by (simp add: trim_front_step)
    moreover from True have "blank wide (take ?n s)"
    proof (elim conjE space_len_cases)
      fix w assume "w \<in> set wide" "prefix w s" "?n = length w"
      then show ?thesis
        using blank_wide [OF _ blank_Nil, of w wide] by (auto simp: prefix_def)
    qed (simp add: blank.intros)
    ultimately show ?thesis
      using blank_append by (metis append_take_drop_id)
  qed
qed

lemma wide_spaces_prefix_free:
  "\<forall>v \<in> set wide_spaces. \<forall>w \<in> set wide_spaces. prefix v w \<longrightarrow> v = w"
  by code_simp

lemma trim_front_blank:
  "blank wide_spaces b \<Longrightarrow> trim_front wide_spaces (b @ t) = trim_front wide_spaces t"
proof (induction rule: blank.induct)
  case blank_Nil
  then show ?case by simp
next
  case (blank_ascii c s)
  then show ?case
    using trim_front_step(1) [of wide_spaces "c # s @ t"] by (simp add: space_len_def)
next
  case (blank_wide w s)
  have "w \<noteq> []" "128 \<le> (of_char (hd w) :: nat)"
    using bspec [OF wide_spaces_high blank_wide(1)] by simp_all
  then have w: "w \<noteq> []" "\<not> ascii_space (hd w)"
    by (simp_all add: ascii_space_def Let_def)
  have only: "v = w" if "v \<in> set wide_spaces" "prefix v (w @ s @ t)" for v
  proof -
    have "prefix v w \<or> prefix w v"
      using prefix_same_cases [OF that(2), of w] by simp
    then show ?thesis
      using wide_spaces_prefix_free that(1) blank_wide(1) by blast
  qed
  let ?f = "filter (\<lambda>v. prefix v (w @ s @ t)) wide_spaces"
  have "w \<in> set ?f" using blank_wide(1) by simp
  then obtain v vs where v: "?f = v # vs" by (cases ?f) simp_all
  then have "v \<in> set ?f" by simp
  then have "v = w" using only by simp
  then have "space_len wide_spaces (w @ s @ t) = length w"
    using w v by (simp add: space_len_def)
  with w(1) blank_wide(3) show ?case
    using trim_front_step(1) [of wide_spaces "w @ s @ t"] by simp
qed

lemma str_trim_blank_append: "blank wide_spaces b \<Longrightarrow> str_trim (b @ t) = str_trim t"
  by (simp add: str_trim_def str_trim_start_def trim_front_blank)

lemma str_trim_Nil_iff: "str_trim s = [] \<longleftrightarrow> blank wide_spaces s"
proof
  assume "blank wide_spaces s"
  then show "str_trim s = []"
    using str_trim_blank_append [of s "[]"]
    by (simp add: str_trim_def str_trim_start_def str_trim_end_def trim_front_step)
next
  assume trimmed: "str_trim s = []"
  let ?t = "trim_front wide_spaces s"
  have "blank (map rev wide_spaces) (rev ?t)"
    using trimmed by (auto intro: trim_front_Nil_blank
        simp: str_trim_def str_trim_start_def str_trim_end_def)
  from blank_rev [OF this] have "blank wide_spaces ?t" by simp
  then have "?t = []"
    using blank_space_len [of wide_spaces ?t] space_len_trim_front [of wide_spaces s]
      wide_spaces_high by auto
  then show "blank wide_spaces s" by (rule trim_front_Nil_blank)
qed

lemma blank_split:
  "blank wide_spaces (a @ c # b) \<Longrightarrow> (of_char c :: nat) < 128 \<Longrightarrow>
   blank wide_spaces a \<and> blank wide_spaces b"
proof (induction "a @ c # b" arbitrary: a rule: blank.induct)
  case blank_Nil
  then show ?case by simp
next
  case (blank_ascii d s)
  then show ?case by (cases a) (auto intro: blank.intros)
next
  case (blank_wide w s)
  have c: "c \<notin> set w"
    using wide_spaces_high blank_wide(1,5) by fastforce
  from blank_wide(4) obtain us where
    "w = a @ us \<and> us @ s = c # b \<or> w @ us = a \<and> s = us @ c # b"
    by (auto simp: append_eq_append_conv2)
  with c show ?case
  proof (elim disjE conjE)
    assume "w = a @ us" "us @ s = c # b"
    with c have "us = []" by (cases us) auto
    with \<open>us @ s = c # b\<close> \<open>w = a @ us\<close> blank_wide(3) [of "[]"] blank_wide(5) show ?thesis
      using blank.blank_wide [OF blank_wide(1) blank_Nil] by simp
  next
    assume "w @ us = a" "s = us @ c # b"
    with blank_wide(1) blank_wide(3) [of us] blank_wide(5) show ?thesis
      by (auto intro: blank.blank_wide)
  qed
qed

end
