(* ===== verification/Masque.thy ===== *)
theory Masque
  imports Octets Rust_Text
begin

text \<open>
  The CONNECT-IP framing of \<open>engine/aether/src/masque.rs\<close>: IP packets as HTTP datagrams of
  a request stream, and as capsules on the request stream itself.  The group order is that of
  the source: datagrams, the capsule writer, the context stripping, the incremental capsule
  parser with its bounded buffer, the two list-valued capsules.
\<close>

text \<open>\<open>engine/aether/src/error.rs\<close>; foreign errors are kept as their printed text.\<close>

datatype aether_error =
    Io string
  | Quic string
  | H3 string
  | Tls string
  | Ech string
  | Masque_error string
  | NoCleanEndpoint
  | Capsule_error string
  | Api string
  | IdentityRefused string
  | Cancelled
  | Other string

definition oct :: "buffer_too_short failure \<Rightarrow> aether_error failure" where
  "oct e = (case e of Error BufferTooShortError \<Rightarrow> Error (Capsule_error ''BufferTooShortError'')
                    | Panic \<Rightarrow> Panic)"

abbreviation map_err_oct :: "'a octets_result \<Rightarrow> (aether_error, 'a) outcome" where
  "map_err_oct \<equiv> map_sum oct id"

definition CONNECT_IP_CONTEXT_ID :: u64 where
  "CONNECT_IP_CONTEXT_ID = 0"

definition CAPSULE_DATAGRAM :: u64 where "CAPSULE_DATAGRAM = 0"
definition CAPSULE_ADDRESS_ASSIGN :: u64 where "CAPSULE_ADDRESS_ASSIGN = 1"
definition CAPSULE_ADDRESS_REQUEST :: u64 where "CAPSULE_ADDRESS_REQUEST = 2"
definition CAPSULE_ROUTE_ADVERTISEMENT :: u64 where "CAPSULE_ROUTE_ADVERTISEMENT = 3"

lemmas capsule_kind_defs = CAPSULE_DATAGRAM_def CAPSULE_ADDRESS_ASSIGN_def
  CAPSULE_ADDRESS_REQUEST_def CAPSULE_ROUTE_ADVERTISEMENT_def

record assigned_address =
  aa_request_id :: u64
  aa_ip_version :: u8
  aa_address :: bytes
  aa_prefix_len :: u8

record route_advertisement =
  ra_ip_version :: u8
  ra_start :: bytes
  ra_end :: bytes
  ra_protocol :: u8

datatype capsule =
    AddressAssign "assigned_address list"
  | AddressRequest
  | Datagram bytes
  | RouteAdvertisement "route_advertisement list"
  | UnknownCapsule u64 bytes

definition masque_varint_len :: "u64 \<Rightarrow> nat" where
  "masque_varint_len v =
     (if v < 64 then 1 else if v < 16384 then 2 else if v < 1073741824 then 4 else 8)"

subsection \<open>Datagrams\<close>

definition quarter_stream_id :: "u64 \<Rightarrow> u64" where
  "quarter_stream_id stream_id = stream_id div 4"

definition encode_ip_datagram :: "u64 \<Rightarrow> bytes \<Rightarrow> (aether_error, bytes) outcome" where
  "encode_ip_datagram stream_id ip_packet =
     (let qsid = quarter_stream_id stream_id;
          ctx = CONNECT_IP_CONTEXT_ID;
          cap = masque_varint_len qsid + masque_varint_len ctx + length ip_packet;
          b = octets_with_slice (replicate cap 0)
      in outcome_bind (map_err_oct (put_varint qsid b)) (\<lambda>b.
         outcome_bind (map_err_oct (put_varint ctx b)) (\<lambda>b.
         outcome_bind (map_err_oct (put_bytes ip_packet b)) (\<lambda>b. Inr (o_buf b)))))"

definition decode_ip_datagram :: "bytes \<Rightarrow> u64 \<Rightarrow> (aether_error, bytes option) outcome" where
  "decode_ip_datagram datagram expect_stream_id =
     (let b = octets_with_slice datagram
      in outcome_bind (map_err_oct (get_varint b)) (\<lambda>(qsid, b).
           if qsid \<noteq> quarter_stream_id expect_stream_id then Inr None
           else outcome_bind (map_err_oct (get_varint b)) (\<lambda>(ctx, b).
             if ctx \<noteq> CONNECT_IP_CONTEXT_ID then Inr None
             else outcome_bind (map_err_oct (get_bytes (o_cap b) b)) (\<lambda>(payload, b).
               Inr (Some payload)))))"

subsection \<open>Writing capsules\<close>

text \<open>
  \<open>let _ = b.put_...\<close>: an error leaves the cursor where it was and is dropped; a panic is
  \<open>None\<close>.
\<close>

definition ignoring_error :: "octets octets_result \<Rightarrow> octets \<Rightarrow> octets option" where
  "ignoring_error r b =
     (case r of Inr b' \<Rightarrow> Some b' | Inl (Error _) \<Rightarrow> Some b | Inl Panic \<Rightarrow> None)"

definition capsule_len :: "u64 \<Rightarrow> bytes \<Rightarrow> nat" where
  "capsule_len kind value =
     masque_varint_len kind + masque_varint_len (of_nat (length value)) + length value"

definition append_capsule :: "bytes \<Rightarrow> u64 \<Rightarrow> bytes \<Rightarrow> bytes option" where
  "append_capsule out kind value =
     (let b = octets_with_slice (replicate (capsule_len kind value) 0)
      in do {
        b \<leftarrow> ignoring_error (put_varint kind b) b;
        b \<leftarrow> ignoring_error (put_varint (of_nat (length value)) b) b;
        b \<leftarrow> ignoring_error (put_bytes value b) b;
        Some (out @ o_buf b)
      })"

definition encode_capsule :: "u64 \<Rightarrow> bytes \<Rightarrow> bytes option" where
  "encode_capsule kind value = append_capsule [] kind value"

definition encode_address_request :: "u64 \<Rightarrow> u8 \<Rightarrow> u8 \<Rightarrow> bytes option" where
  "encode_address_request request_id ip_version prefix_len =
     (let b = octets_with_slice (replicate (masque_varint_len request_id + 1 + 1) 0)
      in do {
        b \<leftarrow> ignoring_error (put_varint request_id b) b;
        b \<leftarrow> ignoring_error (put_u8 ip_version b) b;
        b \<leftarrow> ignoring_error (put_u8 prefix_len b) b;
        encode_capsule CAPSULE_ADDRESS_REQUEST (o_buf b)
      })"

definition encode_datagram_capsule :: "bytes \<Rightarrow> bytes option" where
  "encode_datagram_capsule ip_packet = encode_capsule CAPSULE_DATAGRAM ip_packet"

definition append_datagram_capsule :: "bytes \<Rightarrow> bytes \<Rightarrow> bytes option" where
  "append_datagram_capsule out ip_packet = append_capsule out CAPSULE_DATAGRAM ip_packet"

subsection \<open>Context identifiers in datagram capsules\<close>

definition looks_like_ip_packet :: "bytes \<Rightarrow> bool" where
  "looks_like_ip_packet data =
     (case data of
        first # _ \<Rightarrow> (drop_bit 4 first = 4 \<or> drop_bit 4 first = 6) \<and> 20 \<le> length data
      | [] \<Rightarrow> False)"

definition strip_datagram_context :: "bytes \<Rightarrow> bytes option" where
  "strip_datagram_context payload =
     (if payload = [] then None
      else
        let whole = (if looks_like_ip_packet payload then Some payload else None)
        in case get_varint (octets_with_slice payload) of
             Inr (ctx, b) \<Rightarrow>
               if ctx = CONNECT_IP_CONTEXT_ID then
                 (let inner = drop (length payload - o_cap b) payload
                  in if looks_like_ip_packet inner then Some inner else whole)
               else whole
           | Inl _ \<Rightarrow> whole)"

subsection \<open>Address lists\<close>

definition get_assigned_address ::
    "octets \<Rightarrow> (aether_error, assigned_address \<times> octets) outcome" where
  "get_assigned_address b =
     outcome_bind (map_err_oct (get_varint b)) (\<lambda>(request_id, b).
     outcome_bind (map_err_oct (get_u8 b)) (\<lambda>(ip_version, b).
     outcome_bind
       (if ip_version = 4 then Inr 4 else if ip_version = 6 then Inr 16
        else Inl (Error (Capsule_error (''bad ip version '' @ show_nat (unat ip_version)))))
       (\<lambda>addr_len.
     outcome_bind (map_err_oct (get_bytes addr_len b)) (\<lambda>(address, b).
     outcome_bind (map_err_oct (get_u8 b)) (\<lambda>(prefix_len, b).
       Inr (\<lparr>aa_request_id = request_id, aa_ip_version = ip_version,
             aa_address = address, aa_prefix_len = prefix_len\<rparr>, b))))))"

definition get_route_advertisement ::
    "octets \<Rightarrow> (aether_error, route_advertisement \<times> octets) outcome" where
  "get_route_advertisement b =
     outcome_bind (map_err_oct (get_u8 b)) (\<lambda>(ip_version, b).
     outcome_bind
       (if ip_version = 4 then Inr 4 else if ip_version = 6 then Inr 16
        else Inl (Error (Capsule_error (''bad ip version '' @ show_nat (unat ip_version)))))
       (\<lambda>addr_len.
     outcome_bind (map_err_oct (get_bytes addr_len b)) (\<lambda>(start, b).
     outcome_bind (map_err_oct (get_bytes addr_len b)) (\<lambda>(end_addr, b).
     outcome_bind (map_err_oct (get_u8 b)) (\<lambda>(protocol, b).
       Inr (\<lparr>ra_ip_version = ip_version, ra_start = start, ra_end = end_addr,
             ra_protocol = protocol\<rparr>, b))))))"

lemma map_sum_Inr_iff [simp]: "map_sum f g r = Inr y \<longleftrightarrow> (\<exists>x. r = Inr x \<and> y = g x)"
  by (cases r) auto

lemma get_assigned_address_advances:
  assumes "get_assigned_address b = Inr (a, b')"
  shows "advances b b' \<and> o_cap b' < o_cap b"
proof -
  from assms obtain r b1 v b2 addr b3 p n where
    "get_varint b = Inr (r, b1)" "get_u8 b1 = Inr (v, b2)"
    "get_bytes n b2 = Inr (addr, b3)" "get_u8 b3 = Inr (p, b')"
    by (auto simp: get_assigned_address_def split: prod.splits)
  then have "advances b b1 \<and> o_cap b1 < o_cap b" "advances b1 b2" "advances b2 b3" "advances b3 b'"
    using get_varint_advances get_u8_advances get_bytes_advances by blast+
  then show ?thesis
    by (meson advances_cap advances_trans le_less_trans)
qed

lemma get_route_advertisement_advances:
  assumes "get_route_advertisement b = Inr (a, b')"
  shows "advances b b' \<and> o_cap b' < o_cap b"
proof -
  from assms obtain v b1 x b2 y b3 p n where
    "get_u8 b = Inr (v, b1)" "get_bytes n b1 = Inr (x, b2)"
    "get_bytes n b2 = Inr (y, b3)" "get_u8 b3 = Inr (p, b')"
    by (auto simp: get_route_advertisement_def split: prod.splits)
  then have "advances b b1 \<and> o_cap b1 < o_cap b" "advances b1 b2" "advances b2 b3" "advances b3 b'"
    using get_u8_advances get_bytes_advances by blast+
  then show ?thesis
    by (meson advances_cap advances_trans le_less_trans)
qed

function parse_address_assign_loop ::
    "octets \<Rightarrow> assigned_address list \<Rightarrow> (aether_error, assigned_address list) outcome" where
  "parse_address_assign_loop b out =
     (if 0 < o_cap b
      then outcome_bind (get_assigned_address b)
             (\<lambda>(a, b'). parse_address_assign_loop b' (out @ [a]))
      else Inr out)"
  by pat_completeness auto
termination
  by (relation "measure (o_cap \<circ> fst)") (auto dest: get_assigned_address_advances)

declare parse_address_assign_loop.simps [simp del]

definition parse_address_assign :: "bytes \<Rightarrow> (aether_error, assigned_address list) outcome" where
  "parse_address_assign value = parse_address_assign_loop (octets_with_slice value) []"

function parse_route_advertisement_loop ::
    "octets \<Rightarrow> route_advertisement list \<Rightarrow> (aether_error, route_advertisement list) outcome" where
  "parse_route_advertisement_loop b out =
     (if 0 < o_cap b
      then outcome_bind (get_route_advertisement b)
             (\<lambda>(a, b'). parse_route_advertisement_loop b' (out @ [a]))
      else Inr out)"
  by pat_completeness auto
termination
  by (relation "measure (o_cap \<circ> fst)") (auto dest: get_route_advertisement_advances)

declare parse_route_advertisement_loop.simps [simp del]

definition parse_route_advertisement ::
    "bytes \<Rightarrow> (aether_error, route_advertisement list) outcome" where
  "parse_route_advertisement value = parse_route_advertisement_loop (octets_with_slice value) []"

subsection \<open>The capsule parser\<close>

record capsule_parser =
  cp_buf :: bytes

definition MAX_CAPSULE_BUF :: nat where
  "MAX_CAPSULE_BUF = 256 * 1024"

definition capsule_parser_new :: capsule_parser where
  "capsule_parser_new = \<lparr>cp_buf = []\<rparr>"

definition capsule_push :: "capsule_parser \<Rightarrow> bytes \<Rightarrow> capsule_parser" where
  "capsule_push p data =
     (if length (cp_buf p) + length data > MAX_CAPSULE_BUF then p\<lparr>cp_buf := []\<rparr>
      else p\<lparr>cp_buf := cp_buf p @ data\<rparr>)"

definition capsule_of :: "u64 \<Rightarrow> bytes \<Rightarrow> (aether_error, capsule) outcome" where
  "capsule_of kind value =
     (if kind = CAPSULE_ADDRESS_ASSIGN then
        outcome_bind (parse_address_assign value) (\<lambda>l. Inr (AddressAssign l))
      else if kind = CAPSULE_ADDRESS_REQUEST then Inr AddressRequest
      else if kind = CAPSULE_ROUTE_ADVERTISEMENT then
        outcome_bind (parse_route_advertisement value) (\<lambda>l. Inr (RouteAdvertisement l))
      else if kind = CAPSULE_DATAGRAM then Inr (Datagram value)
      else Inr (UnknownCapsule kind value))"

text \<open>\<open>next\<close>: the result and the parser after it (bytes of a complete capsule are drained).\<close>

definition capsule_next ::
    "capsule_parser \<Rightarrow> (aether_error, capsule option) outcome \<times> capsule_parser" where
  "capsule_next p =
     (let b = octets_with_slice (cp_buf p)
      in case get_varint b of
           Inl Panic \<Rightarrow> (Inl Panic, p)
         | Inl (Error _) \<Rightarrow> (Inr None, p)
         | Inr (kind, b) \<Rightarrow>
             (case get_varint b of
                Inl Panic \<Rightarrow> (Inl Panic, p)
              | Inl (Error _) \<Rightarrow> (Inr None, p)
              | Inr (len, b) \<Rightarrow>
                  if o_cap b < unat len then (Inr None, p)
                  else (case get_bytes (unat len) b of
                          Inl e \<Rightarrow> (Inl (oct e), p)
                        | Inr (value, b) \<Rightarrow>
                            (outcome_bind (capsule_of kind value) (\<lambda>c. Inr (Some c)),
                             p\<lparr>cp_buf := drop (o_off b) (cp_buf p)\<rparr>))))"

subsection \<open>The encoders write the wire format\<close>

text \<open>A capsule on the wire: type, length and value.\<close>

definition capsule_wire :: "u64 \<Rightarrow> bytes \<Rightarrow> bytes" where
  "capsule_wire kind value =
     varint_encoding kind @ varint_encoding (of_nat (length value)) @ value"

lemma masque_varint_len_eq: "masque_varint_len v = length (varint_encoding v)"
  by (simp add: masque_varint_len_def length_varint_encoding word_less_nat_alt)

lemma varint_ok_quarter: "varint_ok (quarter_stream_id s)"
proof -
  have "unat s < 2 ^ 64"
    using unat_less_exp [of s] by simp
  then show ?thesis
    by (simp add: varint_ok_iff quarter_stream_id_def unat_div less_mult_imp_div_less)
qed

lemma encode_ip_datagram_eq:
  "encode_ip_datagram s p = Inr (varint_encoding (quarter_stream_id s) @ varint_encoding 0 @ p)"
proof -
  have "varint_ok 0" by (simp add: varint_ok_def)
  then show ?thesis
    by (simp add: encode_ip_datagram_def Let_def with_slice_fresh masque_varint_len_eq
        put_varint_fresh put_bytes_fresh varint_ok_quarter CONNECT_IP_CONTEXT_ID_def)
qed

lemma append_capsule_eq:
  assumes "length value < 2 ^ 62"
  shows "append_capsule out kind value =
    (if varint_ok kind then Some (out @ capsule_wire kind value) else None)"
  using varint_ok_length [OF assms]
  by (simp add: append_capsule_def Let_def with_slice_fresh capsule_len_def masque_varint_len_eq
      put_varint_fresh put_bytes_fresh put_varint_panics ignoring_error_def capsule_wire_def)

lemma encode_address_request_eq:
  assumes "varint_ok request_id"
  shows "encode_address_request request_id v l =
    Some (capsule_wire CAPSULE_ADDRESS_REQUEST (varint_encoding request_id @ [v, l]))"
proof -
  have "length (varint_encoding request_id @ [v, l]) < 2 ^ 62"
    by (simp add: length_varint_encoding)
  moreover have "varint_ok CAPSULE_ADDRESS_REQUEST"
    by (simp add: varint_ok_def MAX_VAR_INT_def capsule_kind_defs)
  ultimately show ?thesis
    unfolding encode_address_request_def Let_def with_slice_fresh using assms
    by (simp add: masque_varint_len_eq put_varint_fresh put_u8_fresh ignoring_error_def
        encode_capsule_def append_capsule_eq)
qed

lemma decode_after_varints:
  assumes "varint_ok q"
  shows "decode_ip_datagram (varint_encoding q @ varint_encoding 0 @ p) s =
    (if q = quarter_stream_id s then Inr (Some p) else Inr None)"
proof -
  let ?b0 = "octets_with_slice (varint_encoding q @ varint_encoding 0 @ p)"
  let ?b1 = "octets_skip (length (varint_encoding q)) ?b0"
  let ?b2 = "octets_skip (length (varint_encoding 0)) ?b1"
  have "get_varint ?b0 = Inr (q, ?b1)"
    using varint.get_enc [OF assms, of ?b0] by simp
  moreover have "get_varint ?b1 = Inr (0, ?b2)"
    using varint.get_enc [of 0 ?b1 p] by (simp add: varint_ok_def o_rest_def)
  moreover have "o_rest ?b2 = p"
    by (simp add: o_rest_def octets_with_slice_def)
  ultimately show ?thesis
    by (auto simp: decode_ip_datagram_def CONNECT_IP_CONTEXT_ID_def get_bytes_def o_cap_rest)
qed

subsection \<open>The parser as an incremental parser\<close>

lemma capsule_next_complete:
  assumes "get_varint (octets_with_slice (cp_buf p)) = Inr (kind, b1)"
    and "get_varint b1 = Inr (len, b2)" and "unat len \<le> o_cap b2"
  shows "capsule_next p =
    (outcome_bind (capsule_of kind (take (unat len) (o_rest b2))) (\<lambda>c. Inr (Some c)),
     p\<lparr>cp_buf := drop (o_off b2 + unat len) (cp_buf p)\<rparr>)"
  using assms by (simp add: capsule_next_def get_bytes_def Let_def)

lemma capsule_next_cases:
  obtains (more) "capsule_next p = (Inr None, p)"
  | (complete) kind b1 len b2 where
      "get_varint (octets_with_slice (cp_buf p)) = Inr (kind, b1)"
      "get_varint b1 = Inr (len, b2)" "unat len \<le> o_cap b2"
proof (cases "get_varint (octets_with_slice (cp_buf p))")
  case (Inl e)
  then show ?thesis
    using get_varint_never_panics [of "octets_with_slice (cp_buf p)"] more
    by (cases e) (auto simp: capsule_next_def Let_def)
next
  case (Inr r)
  obtain kind b1 where r: "r = (kind, b1)" by (cases r)
  show ?thesis
  proof (cases "get_varint b1")
    case (Inl e)
    then show ?thesis
      using get_varint_never_panics [of b1] more Inr r
      by (cases e) (auto simp: capsule_next_def Let_def)
  next
    case (Inr r2)
    obtain len b2 where "r2 = (len, b2)" by (cases r2)
    then show ?thesis
      using Inr \<open>get_varint _ = Inr r\<close> r more complete
      by (cases "unat len \<le> o_cap b2") (auto simp: capsule_next_def Let_def)
  qed
qed

text \<open>One turn of the parser on its buffer: \<open>None\<close> asks for more bytes.\<close>

definition capsule_step :: "bytes \<Rightarrow> ((aether_error, capsule) outcome \<times> bytes) option" where
  "capsule_step buf =
     (case capsule_next \<lparr>cp_buf = buf\<rparr> of
        (Inr None, _) \<Rightarrow> None
      | (Inr (Some c), p) \<Rightarrow> Some (Inr c, cp_buf p)
      | (Inl e, p) \<Rightarrow> Some (Inl e, cp_buf p))"

lemma capsule_step_complete:
  assumes "get_varint (octets_with_slice buf) = Inr (kind, b1)"
    and "get_varint b1 = Inr (len, b2)" and "unat len \<le> o_cap b2"
  shows "capsule_step buf =
    Some (capsule_of kind (take (unat len) (o_rest b2)), drop (o_off b2 + unat len) buf)"
  using assms
  by (cases "capsule_of kind (take (unat len) (o_rest b2))")
    (simp_all add: capsule_step_def capsule_next_complete)

lemma capsule_step_SomeE:
  assumes "capsule_step buf = Some (r, rest)"
  obtains kind b1 len b2 where
    "get_varint (octets_with_slice buf) = Inr (kind, b1)"
    "get_varint b1 = Inr (len, b2)" "unat len \<le> o_cap b2"
    "r = capsule_of kind (take (unat len) (o_rest b2))" "rest = drop (o_off b2 + unat len) buf"
proof (cases rule: capsule_next_cases [of "\<lparr>cp_buf = buf\<rparr>"])
  case more
  with assms show ?thesis by (simp add: capsule_step_def)
next
  case (complete kind b1 len b2)
  then show ?thesis
    using assms that capsule_step_complete [of buf kind b1 len b2] by simp
qed

lemma two_varints_advance:
  assumes "get_varint (octets_with_slice buf) = Inr (kind, b1)" and "get_varint b1 = Inr (len, b2)"
  shows "octets_wf b1 \<and> octets_wf b2 \<and> o_buf b2 = buf \<and> 0 < o_off b2 \<and> o_off b2 \<le> length buf"
proof -
  have wf: "octets_wf (octets_with_slice buf)"
    by (simp add: octets_wf_def)
  from varint.get_wf [OF this assms(1)] have 1: "octets_wf b1" "o_buf b1 = buf" by simp_all
  from varint.get_wf [OF 1(1) assms(2)] 1(2) have 2: "octets_wf b2" "o_buf b2 = buf" by simp_all
  have "o_cap b2 < length buf"
    using varint.get_cap [OF assms(1)] varint.get_cap [OF assms(2)] by simp
  with 1 2 show ?thesis
    by (simp add: o_cap_def octets_wf_def)
qed

lemma capsule_step_shrinks: "capsule_step buf = Some (r, rest) \<Longrightarrow> length rest < length buf"
  by (elim capsule_step_SomeE) (auto dest: two_varints_advance simp: o_cap_def)

lemma capsule_step_extend:
  assumes "capsule_step buf = Some (r, rest)"
  shows "capsule_step (buf @ d) = Some (r, rest @ d)"
  using assms
proof (cases rule: capsule_step_SomeE)
  case (1 kind b1 len b2)
  have wf: "octets_wf (octets_with_slice buf)"
    by (simp add: octets_wf_def)
  note adv = two_varints_advance [OF 1(1,2)]
  have "get_varint (octets_with_slice (buf @ d)) = Inr (kind, octets_extend d b1)"
    using get_varint_extend [OF wf 1(1), of d] by simp
  moreover have "get_varint (octets_extend d b1) = Inr (len, octets_extend d b2)"
    using get_varint_extend [OF _ 1(2), of d] adv by simp
  moreover have "unat len \<le> o_cap (octets_extend d b2)"
    using 1(3) adv by (simp add: o_cap_rest o_rest_extend)
  moreover have "o_off b2 + unat len \<le> length buf"
    using 1(3) adv by (auto simp: o_cap_def)
  ultimately show ?thesis
    using 1 adv by (simp add: capsule_step_complete o_rest_extend o_cap_rest)
qed

function capsule_drain :: "bytes \<Rightarrow> (aether_error, capsule) outcome list \<times> bytes" where
  "capsule_drain buf =
     (case capsule_step buf of
        None \<Rightarrow> ([], buf)
      | Some (r, rest) \<Rightarrow> map_prod ((#) r) id (capsule_drain rest))"
  by pat_completeness auto
termination
  by (relation "measure length") (auto dest: capsule_step_shrinks)

declare capsule_drain.simps [simp del]

interpretation capsules: incremental_parser capsule_step capsule_drain
  by unfold_locales
    (auto simp: capsule_step_shrinks capsule_step_extend simp: capsule_drain.simps)

subsection \<open>Lists of addresses and routes read back\<close>

definition address_width :: "u8 \<Rightarrow> nat option" where
  "address_width v = (if v = 4 then Some 4 else if v = 6 then Some 16 else None)"

definition assigned_address_ok :: "assigned_address \<Rightarrow> bool" where
  "assigned_address_ok a \<longleftrightarrow>
     varint_ok (aa_request_id a) \<and> address_width (aa_ip_version a) = Some (length (aa_address a))"

definition assigned_address_wire :: "assigned_address \<Rightarrow> bytes" where
  "assigned_address_wire a =
     varint_encoding (aa_request_id a) @ aa_ip_version a # aa_address a @ [aa_prefix_len a]"

definition route_advertisement_ok :: "route_advertisement \<Rightarrow> bool" where
  "route_advertisement_ok r \<longleftrightarrow>
     address_width (ra_ip_version r) = Some (length (ra_start r)) \<and>
     length (ra_end r) = length (ra_start r)"

definition route_advertisement_wire :: "route_advertisement \<Rightarrow> bytes" where
  "route_advertisement_wire r = ra_ip_version r # ra_start r @ ra_end r @ [ra_protocol r]"

lemma get_assigned_address_wire:
  assumes ok: "assigned_address_ok a" and rest: "o_rest b = assigned_address_wire a @ r"
  shows "get_assigned_address b = Inr (a, octets_skip (length (assigned_address_wire a)) b)"
proof -
  have "get_varint b =
      Inr (aa_request_id a, octets_skip (length (varint_encoding (aa_request_id a))) b)"
    using ok rest varint.get_enc [of "aa_request_id a" b]
    by (simp add: assigned_address_ok_def assigned_address_wire_def)
  then show ?thesis
    using ok rest
    by (auto simp: get_assigned_address_def assigned_address_ok_def address_width_def
        assigned_address_wire_def get_u8_Cons get_bytes_append add.assoc split: if_splits)
qed

lemma get_route_advertisement_wire:
  assumes ok: "route_advertisement_ok a" and rest: "o_rest b = route_advertisement_wire a @ r"
  shows "get_route_advertisement b = Inr (a, octets_skip (length (route_advertisement_wire a)) b)"
  using ok rest
  by (auto simp: get_route_advertisement_def route_advertisement_ok_def address_width_def
      route_advertisement_wire_def get_u8_Cons get_bytes_append add.assoc split: if_splits)

interpretation addresses: cursor_loop assigned_address_wire get_assigned_address
    assigned_address_ok parse_address_assign_loop
  by unfold_locales
    (simp_all add: get_assigned_address_wire get_assigned_address_advances
      parse_address_assign_loop.simps)

interpretation routes: cursor_loop route_advertisement_wire get_route_advertisement
    route_advertisement_ok parse_route_advertisement_loop
  by unfold_locales
    (simp_all add: get_route_advertisement_wire get_route_advertisement_advances
      parse_route_advertisement_loop.simps)

subsection \<open>Capsules read back\<close>

fun capsule_repr :: "capsule \<Rightarrow> u64 \<times> bytes" where
  "capsule_repr (AddressAssign l) = (CAPSULE_ADDRESS_ASSIGN, concat (map assigned_address_wire l))"
| "capsule_repr AddressRequest = (CAPSULE_ADDRESS_REQUEST, [])"
| "capsule_repr (Datagram p) = (CAPSULE_DATAGRAM, p)"
| "capsule_repr (RouteAdvertisement l) =
     (CAPSULE_ROUTE_ADVERTISEMENT, concat (map route_advertisement_wire l))"
| "capsule_repr (UnknownCapsule kind p) = (kind, p)"

definition capsule_ok :: "capsule \<Rightarrow> bool" where
  "capsule_ok c \<longleftrightarrow>
     length (snd (capsule_repr c)) < 2 ^ 62 \<and>
     (case c of
        AddressAssign l \<Rightarrow> list_all assigned_address_ok l
      | RouteAdvertisement l \<Rightarrow> list_all route_advertisement_ok l
      | UnknownCapsule kind _ \<Rightarrow> varint_ok kind \<and> kind \<notin> {0, 1, 2, 3}
      | _ \<Rightarrow> True)"

definition capsule_bytes :: "capsule \<Rightarrow> bytes" where
  "capsule_bytes c = case_prod capsule_wire (capsule_repr c)"

lemma varint_ok_kinds [simp]:
  "varint_ok CAPSULE_DATAGRAM" "varint_ok CAPSULE_ADDRESS_ASSIGN"
  "varint_ok CAPSULE_ADDRESS_REQUEST" "varint_ok CAPSULE_ROUTE_ADVERTISEMENT"
  by (simp_all add: varint_ok_def MAX_VAR_INT_def capsule_kind_defs)

lemma capsule_of_repr: "capsule_ok c \<Longrightarrow> case_prod capsule_of (capsule_repr c) = Inr c"
  by (cases c)
    (auto simp: capsule_ok_def capsule_of_def parse_address_assign_def parse_route_advertisement_def
      list_all_iff addresses.loop_concat routes.loop_concat capsule_kind_defs)

lemma capsule_step_wire:
  assumes kind: "varint_ok kind" and len: "length value < 2 ^ 62"
  shows "capsule_step (capsule_wire kind value @ rest) = Some (capsule_of kind value, rest)"
proof -
  let ?L = "of_nat (length value) :: u64"
  let ?b0 = "octets_with_slice (capsule_wire kind value @ rest)"
  let ?b1 = "octets_skip (length (varint_encoding kind)) ?b0"
  let ?b2 = "octets_skip (length (varint_encoding ?L)) ?b1"
  have L: "unat ?L = length value"
    using len by (simp add: unat_of_nat)
  have 1: "get_varint ?b0 = Inr (kind, ?b1)"
    using varint.get_enc [OF kind, of ?b0] by (simp add: capsule_wire_def)
  have 2: "get_varint ?b1 = Inr (?L, ?b2)"
    using varint.get_enc [OF varint_ok_length [OF len], of ?b1] by (simp add: capsule_wire_def)
  have rest: "o_rest ?b2 = value @ rest"
    by (simp add: capsule_wire_def)
  have "capsule_step (capsule_wire kind value @ rest) =
      Some (capsule_of kind (take (unat ?L) (o_rest ?b2)),
            drop (o_off ?b2 + unat ?L) (capsule_wire kind value @ rest))"
    by (rule capsule_step_complete [OF 1 2]) (simp only: L rest o_cap_rest, simp)
  then show ?thesis
    by (simp only: L rest) (simp add: capsule_wire_def)
qed

lemma capsule_step_bytes:
  assumes "capsule_ok c"
  shows "capsule_step (capsule_bytes c @ rest) = Some (Inr c, rest)"
proof -
  obtain kind v where r: "capsule_repr c = (kind, v)" by (cases "capsule_repr c")
  have "varint_ok kind"
    using assms r by (cases c) (auto simp: capsule_ok_def)
  moreover have "length v < 2 ^ 62"
    using assms r by (simp add: capsule_ok_def)
  moreover have "capsule_of kind v = Inr c"
    using capsule_of_repr [OF assms] r by simp
  ultimately show ?thesis
    using capsule_step_wire [of kind v rest] r by (simp add: capsule_bytes_def)
qed

interpretation capsule_frames: framed_stream capsule_step capsule_drain capsule_bytes Inr capsule_ok
  by unfold_locales (rule capsule_step_bytes)

lemmas capsule_step_Nil = capsules.step_Nil

lemmas capsule_drain_bytes = capsule_frames.drain_enc

lemma capsule_bytes_nonempty: "capsule_ok c \<Longrightarrow> capsule_bytes c \<noteq> []"
  using capsule_step_bytes [of c "[]"] capsule_step_Nil by (cases "capsule_bytes c") auto

lemma length_capsule_next: "length (cp_buf (snd (capsule_next p))) \<le> length (cp_buf p)"
  by (cases rule: capsule_next_cases [of p]) (simp_all add: capsule_next_complete)

subsection \<open>Properties\<close>

text \<open>C8: encoding an IP packet as a datagram of a request stream never fails, and decoding the
  result returns the packet exactly when the datagram is expected on a stream with the same
  quarter stream identifier; on any other stream it is ignored.\<close>

theorem ip_datagram_roundtrip:
  "\<exists>d. encode_ip_datagram stream_id pkt = Inr d \<and>
     (\<forall>s. decode_ip_datagram d s =
        (if quarter_stream_id s = quarter_stream_id stream_id then Inr (Some pkt) else Inr None))"
  by (auto simp: encode_ip_datagram_eq decode_after_varints varint_ok_quarter)

text \<open>
  C14: The capsule parser is insensitive to how its input is cut: a stream of well-formed capsules
  (any mix of the five kinds) pushed in arbitrary pieces and taken out after each push yields
  exactly those capsules, in order, without a parse error, and leaves nothing behind, as long as
  no piece together with one capsule exceeds the limit at which a push clears the buffer.
\<close>

theorem capsule_stream_roundtrip:
  assumes "\<forall>c \<in> set cs. capsule_ok c"
    and "concat pieces = concat (map capsule_bytes cs)"
    and "\<forall>k \<in> set pieces. \<forall>c \<in> set cs. length k + length (capsule_bytes c) \<le> MAX_CAPSULE_BUF"
  shows "feed_with (\<lambda>buf data. cp_buf (capsule_push \<lparr>cp_buf = buf\<rparr> data)) capsule_drain [] pieces
    = (map Inr cs, [])"
  by (rule capsule_frames.feed_framed [OF _ assms(1) _ _ assms(3)])
    (use assms(1,2) capsule_bytes_nonempty in \<open>auto simp: capsule_push_def neq_Nil_conv\<close>)

theorem capsule_stream_roundtrip_witness:
  "feed_with (\<lambda>buf data. cp_buf (capsule_push \<lparr>cp_buf = buf\<rparr> data)) capsule_drain []
     (map (\<lambda>b. [b]) (concat (map capsule_bytes
       [AddressRequest,
        AddressAssign [\<lparr>aa_request_id = 0, aa_ip_version = 4, aa_address = [172, 16, 0, 2],
                        aa_prefix_len = 32\<rparr>],
        Datagram [69, 0, 0, 20]]))) =
   ([Inr AddressRequest,
     Inr (AddressAssign [\<lparr>aa_request_id = 0, aa_ip_version = 4, aa_address = [172, 16, 0, 2],
                          aa_prefix_len = 32\<rparr>]),
     Inr (Datagram [69, 0, 0, 20])], [])"
proof -
  let ?cs = "[AddressRequest,
      AddressAssign [\<lparr>aa_request_id = 0, aa_ip_version = 4, aa_address = [172, 16, 0, 2],
                      aa_prefix_len = 32\<rparr>],
      Datagram [69, 0, 0, 20]]"
  have cut: "concat (map (\<lambda>b. [b]) xs) = xs" for xs :: bytes
    by (induction xs) auto
  have ok: "\<forall>c \<in> set ?cs. capsule_ok c"
    by (simp add: capsule_ok_def assigned_address_ok_def assigned_address_wire_def
        address_width_def varint_ok_def MAX_VAR_INT_def length_varint_encoding)
  have "list_all (\<lambda>c. length (capsule_bytes c) < 100) ?cs" by code_simp
  then have "\<forall>k \<in> set (map (\<lambda>b. [b]) xs). \<forall>c \<in> set ?cs. length k + length (capsule_bytes c) \<le> MAX_CAPSULE_BUF"
    for xs :: bytes
    by (auto simp: list_all_iff MAX_CAPSULE_BUF_def)
  from capsule_stream_roundtrip [OF ok cut this] show ?thesis by simp
qed

text \<open>The parser's buffer never exceeds its limit, whatever is pushed and however often
  capsules are taken out.\<close>

lemma capsule_buffer_bounded:
  assumes "length (cp_buf p) \<le> MAX_CAPSULE_BUF"
  shows "length (cp_buf (capsule_push p data)) \<le> MAX_CAPSULE_BUF \<and>
    length (cp_buf (snd (capsule_next p))) \<le> MAX_CAPSULE_BUF"
  using assms length_capsule_next [of p] by (auto simp: capsule_push_def)

end
