(* ===== verification/Std_Net.thy ===== *)
theory Std_Net
  imports Rust_Text
begin

text \<open>
  The address types of \<open>std::net\<close>: an IPv4 address is a 32-bit word and an IPv6 address a
  128-bit word, most significant octet first.
\<close>

datatype ip_addr = V4 "32 word" | V6 "128 word"

record socket_addr =
  sa_ip :: ip_addr
  sa_port :: u16

definition ipv4_octets :: "32 word \<Rightarrow> bytes" where
  "ipv4_octets a = be_bytes 4 (unat a)"

definition ipv4_of_octets :: "bytes \<Rightarrow> 32 word" where
  "ipv4_of_octets bs = of_nat (be_val bs)"

definition ipv6_octets :: "128 word \<Rightarrow> bytes" where
  "ipv6_octets a = be_bytes 16 (unat a)"

definition ipv6_of_octets :: "bytes \<Rightarrow> 128 word" where
  "ipv6_of_octets bs = of_nat (be_val bs)"

lemma length_ip_octets [simp]:
  "length (ipv4_octets a) = 4" "length (ipv6_octets b) = 16"
  by (simp_all add: ipv4_octets_def ipv6_octets_def)

lemma ipv4_of_octets_octets [simp]: "ipv4_of_octets (ipv4_octets a) = a"
  using unat_less_exp [of a]
  by (simp add: ipv4_of_octets_def ipv4_octets_def del: be_bytes.simps)

lemma ipv6_of_octets_octets [simp]: "ipv6_of_octets (ipv6_octets a) = a"
  using unat_less_exp [of a]
  by (simp add: ipv6_of_octets_def ipv6_octets_def del: be_bytes.simps)

lemma ipv4_octets_of_octets [simp]: "length bs = 4 \<Longrightarrow> ipv4_octets (ipv4_of_octets bs) = bs"
  using be_val_less [of bs] be_bytes_be_val [of bs]
  by (simp add: ipv4_of_octets_def ipv4_octets_def unat_of_nat del: be_bytes.simps)

lemma ipv6_octets_of_octets [simp]: "length bs = 16 \<Longrightarrow> ipv6_octets (ipv6_of_octets bs) = bs"
  using be_val_less [of bs] be_bytes_be_val [of bs]
  by (simp add: ipv6_of_octets_def ipv6_octets_def unat_of_nat del: be_bytes.simps)

subsection \<open>Parsing addresses\<close>

text \<open>
  The parser of \<open>std::net\<close>: a reader maps the remaining text to a value and the text after it;
  failing leaves the text where it was.
\<close>

type_synonym 'a reader = "string \<Rightarrow> ('a \<times> string) option"

definition char_digit :: "nat \<Rightarrow> char \<Rightarrow> nat option" where
  "char_digit radix c =
     (let n = of_char c :: nat;
          d = (if 48 \<le> n \<and> n \<le> 57 then Some (n - 48)
               else if 97 \<le> n \<and> n \<le> 122 then Some (n - 87)
               else if 65 \<le> n \<and> n \<le> 90 then Some (n - 55)
               else None)
      in case d of None \<Rightarrow> None | Some v \<Rightarrow> if v < radix then Some v else None)"

text \<open>The digits a text starts with: their value, how many they are, and the rest.\<close>

fun read_digits :: "nat \<Rightarrow> nat \<Rightarrow> nat \<Rightarrow> string \<Rightarrow> nat \<times> nat \<times> string" where
  "read_digits radix acc n [] = (acc, n, [])"
| "read_digits radix acc n (c # cs) =
     (case char_digit radix c of
        None \<Rightarrow> (acc, n, c # cs)
      | Some d \<Rightarrow> read_digits radix (acc * radix + d) (Suc n) cs)"

definition read_number :: "nat \<Rightarrow> nat option \<Rightarrow> bool \<Rightarrow> nat \<Rightarrow> nat reader" where
  "read_number radix max_digits allow_zero_prefix limit s =
     (case read_digits radix 0 0 s of (v, n, rest) \<Rightarrow>
        if (case max_digits of None \<Rightarrow> False | Some m \<Rightarrow> m < n) then None
        else if n = 0 then None
        else if \<not> allow_zero_prefix \<and> hd s = CHR ''0'' \<and> 1 < n then None
        else if limit < v then None
        else Some (v, rest))"

definition read_given_char :: "char \<Rightarrow> unit reader" where
  "read_given_char c s =
     (case s of [] \<Rightarrow> None | x # xs \<Rightarrow> if x = c then Some ((), xs) else None)"

definition read_separator :: "char \<Rightarrow> nat \<Rightarrow> 'a reader \<Rightarrow> 'a reader" where
  "read_separator sep index inner s =
     (if 0 < index
      then Option.bind (read_given_char sep s) (\<lambda>(_, rest). inner rest)
      else inner s)"

fun read_ipv4_parts :: "nat \<Rightarrow> nat \<Rightarrow> bytes reader" where
  "read_ipv4_parts 0 i s = Some ([], s)"
| "read_ipv4_parts (Suc k) i s =
     Option.bind (read_separator (CHR ''.'') i (read_number 10 (Some 3) False 255) s)
       (\<lambda>(v, rest). map_option (\<lambda>(bs, r). (of_nat v # bs, r)) (read_ipv4_parts k (Suc i) rest))"

definition read_ipv4_addr :: "32 word reader" where
  "read_ipv4_addr s =
     map_option (\<lambda>(bs, rest). (ipv4_of_octets bs, rest)) (read_ipv4_parts 4 0 s)"

text \<open>
  \<open>read_groups limit i s\<close> reads the groups from index \<open>i\<close> on: the groups, whether they
  end in an embedded IPv4 address, and the rest.
\<close>

function read_groups :: "nat \<Rightarrow> nat \<Rightarrow> string \<Rightarrow> nat list \<times> bool \<times> string" where
  "read_groups limit i s =
     (if limit \<le> i then ([], False, s)
      else (case (if i < limit - 1 then read_separator (CHR '':'') i read_ipv4_addr s else None) of
              Some (v4, rest) \<Rightarrow> ([unat v4 div 65536, unat v4 mod 65536], True, rest)
            | None \<Rightarrow>
                (case read_separator (CHR '':'') i (read_number 16 (Some 4) True 65535) s of
                   None \<Rightarrow> ([], False, s)
                 | Some (g, rest) \<Rightarrow>
                     (case read_groups limit (Suc i) rest of
                        (gs, v4, r) \<Rightarrow> (g # gs, v4, r)))))"
  by pat_completeness auto
termination
  by (relation "measure (\<lambda>(limit, i, s). limit - i)") auto

declare read_groups.simps [simp del]

definition ipv6_of_groups :: "nat list \<Rightarrow> 128 word" where
  "ipv6_of_groups gs = of_nat (foldl (\<lambda>acc g. acc * 65536 + g) 0 gs)"

definition read_ipv6_addr :: "128 word reader" where
  "read_ipv6_addr s =
     (case read_groups 8 0 s of (head, head_ipv4, rest) \<Rightarrow>
        if length head = 8 then Some (ipv6_of_groups head, rest)
        else if head_ipv4 then None
        else do {
          (_, rest) \<leftarrow> read_given_char (CHR '':'') rest;
          (_, rest) \<leftarrow> read_given_char (CHR '':'') rest;
          (case read_groups (8 - (length head + 1)) 0 rest of (tail, _, rest) \<Rightarrow>
             Some (ipv6_of_groups
                     (head @ replicate (8 - length head - length tail) 0 @ tail), rest))
        })"

definition read_ip_addr :: "ip_addr reader" where
  "read_ip_addr s =
     (case read_ipv4_addr s of
        Some (a, rest) \<Rightarrow> Some (V4 a, rest)
      | None \<Rightarrow> map_option (\<lambda>(a, rest). (V6 a, rest)) (read_ipv6_addr s))"

definition read_port :: "u16 reader" where
  "read_port s = do {
     (_, rest) \<leftarrow> read_given_char (CHR '':'') s;
     (v, rest) \<leftarrow> read_number 10 None True 65535 rest;
     Some (of_nat v, rest)
   }"

text \<open>The scope identifier of an IPv6 socket address is read and not kept.\<close>

definition read_scope :: "string \<Rightarrow> string" where
  "read_scope s =
     (case Option.bind (read_given_char (CHR ''%'') s)
             (\<lambda>(_, rest). read_number 10 None True (2 ^ 32 - 1) rest) of
        None \<Rightarrow> s | Some (_, rest) \<Rightarrow> rest)"

definition read_socket_addr :: "socket_addr reader" where
  "read_socket_addr s =
     (case do {
             (a, rest) \<leftarrow> read_ipv4_addr s;
             (p, rest) \<leftarrow> read_port rest;
             Some (\<lparr>sa_ip = V4 a, sa_port = p\<rparr>, rest)
           } of
        Some r \<Rightarrow> Some r
      | None \<Rightarrow> do {
          (_, rest) \<leftarrow> read_given_char (CHR ''['') s;
          (a, rest) \<leftarrow> read_ipv6_addr rest;
          (_, rest) \<leftarrow> read_given_char (CHR '']'') (read_scope rest);
          (p, rest) \<leftarrow> read_port rest;
          Some (\<lparr>sa_ip = V6 a, sa_port = p\<rparr>, rest)
        })"

definition parse_with :: "'a reader \<Rightarrow> string \<Rightarrow> 'a option" where
  "parse_with p s = (case p s of Some (v, []) \<Rightarrow> Some v | _ \<Rightarrow> None)"

definition parse_ipv4_addr :: "string \<Rightarrow> 32 word option" where
  "parse_ipv4_addr s = (if 15 < length s then None else parse_with read_ipv4_addr s)"

definition parse_ipv6_addr :: "string \<Rightarrow> 128 word option" where
  "parse_ipv6_addr s = parse_with read_ipv6_addr s"

definition parse_ip_addr :: "string \<Rightarrow> ip_addr option" where
  "parse_ip_addr s = parse_with read_ip_addr s"

definition parse_socket_addr :: "string \<Rightarrow> socket_addr option" where
  "parse_socket_addr s = parse_with read_socket_addr s"

subsection \<open>Printing IPv4 addresses\<close>

definition show_ipv4 :: "32 word \<Rightarrow> string" where
  "show_ipv4 a =
     (case map (\<lambda>b. show_nat (unat b)) (ipv4_octets a) of
        [p, q, r, s] \<Rightarrow> p @ ''.'' @ q @ ''.'' @ r @ ''.'' @ s
      | _ \<Rightarrow> [])"

lemma char_digit_decimal:
  "d < 10 \<Longrightarrow> char_digit 10 (char_of (48 + d :: nat)) = Some d"
  by (simp add: char_digit_def Let_def)

definition no_digit_first :: "string \<Rightarrow> bool" where
  "no_digit_first s \<longleftrightarrow> (case s of [] \<Rightarrow> True | c # _ \<Rightarrow> char_digit 10 c = None)"

lemma read_digits_stop: "no_digit_first s \<Longrightarrow> read_digits 10 acc n s = (acc, n, s)"
  by (cases s) (auto simp: no_digit_first_def)

lemma read_digits_show_nat:
  "no_digit_first rest \<Longrightarrow>
   read_digits 10 acc n (show_nat v @ rest)
     = (acc * 10 ^ length (show_nat v) + v, n + length (show_nat v), rest)"
proof (induction v arbitrary: rest acc n rule: show_nat.induct)
  case (1 v)
  show ?case
  proof (cases "v < 10")
    case True
    then show ?thesis
      using 1(2) by (simp add: show_nat.simps [of v] char_digit_decimal read_digits_stop)
  next
    case False
    have split: "read_digits 10 acc n (show_nat (v div 10) @ char_of (48 + v mod 10) # rest)
        = (case read_digits 10 acc n (show_nat (v div 10)) of
             (a, m, _) \<Rightarrow> read_digits 10 a m (char_of (48 + v mod 10) # rest))"
    proof -
      have *: "read_digits 10 a m (xs @ ys)
          = (case read_digits 10 a m xs of (b, k, _) \<Rightarrow> read_digits 10 b k ys)"
        if "list_all is_ascii_digit xs" for a m xs ys
        using that
      proof (induction xs arbitrary: a m)
        case Nil
        then show ?case by simp
      next
        case (Cons c xs)
        then have "\<exists>d. char_digit 10 c = Some d"
          by (auto simp: char_digit_def is_ascii_digit_def Let_def)
        with Cons show ?case by auto
      qed
      have "list_all is_ascii_digit (show_nat (v div 10))"
        using show_nat_digits by (auto simp: list_all_iff)
      then show ?thesis by (rule *)
    qed
    have "no_digit_first []" by (simp add: no_digit_first_def)
    from 1(1) [OF False this, of acc n] split show ?thesis
      using False 1(2)
      by (simp add: show_nat.simps [of v] char_digit_decimal read_digits_stop algebra_simps)
  qed
qed

lemma show_nat_byte_length: "v < 1000 \<Longrightarrow> length (show_nat v) \<le> 3"
  by (simp add: show_nat.simps [of v] show_nat.simps [of "v div 10"]
      show_nat.simps [of "v div 10 div 10"])

lemma show_nat_no_leading_zero:
  "1 < length (show_nat v) \<Longrightarrow> hd (show_nat v) \<noteq> CHR ''0''"
proof (induction v rule: show_nat.induct)
  case (1 v)
  show ?case
  proof (cases "v < 10")
    case True
    with 1(2) show ?thesis by (simp add: show_nat.simps [of v])
  next
    case False
    show ?thesis
    proof (cases "v div 10 < 10")
      case True
      have "char_of (48 + v div 10) \<noteq> CHR ''0''"
      proof
        assume "char_of (48 + v div 10) = CHR ''0''"
        then have "(of_char (char_of (48 + v div 10) :: char) :: nat) = of_char (CHR ''0'')"
          by simp
        with True False show False by simp
      qed
      with True False show ?thesis
        by (simp add: show_nat.simps [of v] show_nat.simps [of "v div 10"])
    next
      case False2: False
      then have "1 < length (show_nat (v div 10))"
        by (subst show_nat.simps) simp
      from 1(1) [OF False this] show ?thesis
        using False by (simp add: show_nat.simps [of v])
    qed
  qed
qed

lemma read_number_byte:
  "no_digit_first rest \<Longrightarrow>
   read_number 10 (Some 3) False 255 (show_nat (unat (b :: u8)) @ rest) = Some (unat b, rest)"
proof -
  assume "no_digit_first rest"
  moreover have "unat b \<le> 255"
    using unat_byte_less [of b] by linarith
  ultimately show ?thesis
    using show_nat_byte_length [of "unat b"] show_nat_no_leading_zero [of "unat b"]
    by (cases "Suc 0 < length (show_nat (unat b))")
       (auto simp: read_number_def read_digits_show_nat)
qed

lemma no_digit_first_dot: "no_digit_first (CHR ''.'' # s)"
  by (simp add: no_digit_first_def char_digit_def)

lemma read_ipv4_addr_show:
  "no_digit_first rest \<Longrightarrow> read_ipv4_addr (show_ipv4 a @ rest) = Some (a, rest)"
proof -
  assume rest: "no_digit_first rest"
  obtain p q r s where o: "ipv4_octets a = [p, q, r, s]"
  proof -
    have "length (ipv4_octets a) = Suc (Suc (Suc (Suc 0)))" by simp
    then show thesis using that by (auto simp only: length_Suc_conv length_0_conv)
  qed
  have "read_ipv4_parts (Suc (Suc (Suc (Suc 0)))) 0 (show_ipv4 a @ rest) = Some ([p, q, r, s], rest)"
    using rest
    by (simp add: show_ipv4_def o read_separator_def read_given_char_def
        read_number_byte no_digit_first_dot)
  then have "read_ipv4_parts 4 0 (show_ipv4 a @ rest) = Some ([p, q, r, s], rest)"
    by (simp add: numeral_eq_Suc)
  then show ?thesis
    by (simp add: read_ipv4_addr_def flip: o)
qed

lemma parse_ip_addr_show_ipv4: "parse_ip_addr (show_ipv4 a) = Some (V4 a)"
  using read_ipv4_addr_show [of "[]" a]
  by (simp add: parse_ip_addr_def parse_with_def read_ip_addr_def no_digit_first_def)

end
