(* ===== verification/Masque_H2.thy ===== *)
theory Masque_H2
  imports Masque Std_Net
begin

text \<open>
  The HTTP/2 carrier of \<open>engine/aether/src/masque_h2.rs\<close>: packets leave as datagram capsules
  gathered into batches, arrive as capsules cut anywhere by the DATA frames, and the tunnel loop
  validates the data plane before it announces readiness and watches the edge with pings.  The
  Tokio channels are parameters: \<open>try_send\<close> reports whether a packet was queued, dropped or the
  receiver is gone.
\<close>

datatype send_result = SendOk | SendFull | SendClosed

definition bytes_to_ip :: "u8 \<Rightarrow> bytes \<Rightarrow> ip_addr option" where
  "bytes_to_ip version bs =
     (if version = 4 \<and> length bs = 4 then Some (V4 (ipv4_of_octets bs))
      else if version = 6 \<and> length bs = 16 then Some (V6 (ipv6_of_octets bs))
      else None)"

text \<open>The addresses of an assignment offered to the address channel, if there is one.\<close>

fun offer_addresses ::
    "('d \<Rightarrow> ip_addr \<times> u8 \<Rightarrow> 'd) \<Rightarrow> assigned_address list \<Rightarrow> 'd option \<Rightarrow> 'd option" where
  "offer_addresses addr_send [] tx = tx"
| "offer_addresses addr_send (a # as) tx =
     offer_addresses addr_send as
       (case bytes_to_ip (aa_ip_version a) (aa_address a) of
          None \<Rightarrow> tx
        | Some ip \<Rightarrow> map_option (\<lambda>t. addr_send t (ip, aa_prefix_len a)) tx)"

lemma capsule_next_iff_step:
  "capsule_next p = (Inr (Some c), p') \<Longrightarrow> capsule_step (cp_buf p) = Some (Inr c, cp_buf p')"
  by (cases p) (simp add: capsule_step_def)

lemma capsule_next_of_step:
  assumes "capsule_step (cp_buf p) = Some (Inr c, rest)"
  shows "capsule_next p = (Inr (Some c), \<lparr>cp_buf = rest\<rparr>)"
proof -
  from assms obtain p' where "capsule_next p = (Inr (Some c), p')" "cp_buf p' = rest"
    by (cases p) (auto simp: capsule_step_def split: prod.splits sum.splits option.splits)
  then show ?thesis by (cases p') simp
qed

lemma capsule_next_None:
  assumes "capsule_step (cp_buf p) = None"
  shows "capsule_next p = (Inr None, p)"
  using assms
  by (cases rule: capsule_next_cases [of p]) (auto simp: capsule_step_complete)

text \<open>
  The loop over complete capsules.  It stops when more bytes are needed, on a parse error, and
  when the receiver of packets is gone; the result says whether a packet was delivered.
\<close>

function h2_drain_capsules ::
    "('c \<Rightarrow> bytes \<Rightarrow> send_result \<times> 'c) \<Rightarrow> ('d \<Rightarrow> ip_addr \<times> u8 \<Rightarrow> 'd) \<Rightarrow>
     bool \<Rightarrow> capsule_parser \<Rightarrow> 'c \<Rightarrow> 'd option \<Rightarrow> bool \<times> capsule_parser \<times> 'c \<times> 'd option" where
  "h2_drain_capsules try_send addr_send delivered p inbound addr_tx =
     (case capsule_next p of
        (Inr (Some (Datagram payload)), p') \<Rightarrow>
          (case strip_datagram_context payload of
             None \<Rightarrow> h2_drain_capsules try_send addr_send delivered p' inbound addr_tx
           | Some pkt \<Rightarrow>
               (case try_send inbound pkt of
                  (SendClosed, inbound') \<Rightarrow> (True, p', inbound', addr_tx)
                | (_, inbound') \<Rightarrow> h2_drain_capsules try_send addr_send True p' inbound' addr_tx))
      | (Inr (Some (AddressAssign addrs)), p') \<Rightarrow>
          h2_drain_capsules try_send addr_send delivered p' inbound
            (offer_addresses addr_send addrs addr_tx)
      | (Inr (Some _), p') \<Rightarrow> h2_drain_capsules try_send addr_send delivered p' inbound addr_tx
      | (Inr None, p') \<Rightarrow> (delivered, p', inbound, addr_tx)
      | (Inl _, p') \<Rightarrow> (delivered, p', inbound, addr_tx))"
  by pat_completeness auto
termination
  by (relation "measure (\<lambda>(ts, as, d, p, i, a). length (cp_buf p))")
    (auto dest!: capsule_next_iff_step [OF sym] capsule_step_shrinks)

declare h2_drain_capsules.simps [simp del]

text \<open>One DATA frame: \<open>capsules.push(&chunk); drain_capsules(...)\<close>.\<close>

definition h2_receive_chunk ::
    "('c \<Rightarrow> bytes \<Rightarrow> send_result \<times> 'c) \<Rightarrow> ('d \<Rightarrow> ip_addr \<times> u8 \<Rightarrow> 'd) \<Rightarrow>
     bytes \<Rightarrow> capsule_parser \<Rightarrow> 'c \<Rightarrow> 'd option \<Rightarrow> bool \<times> capsule_parser \<times> 'c \<times> 'd option" where
  "h2_receive_chunk try_send addr_send chunk p inbound addr_tx =
     h2_drain_capsules try_send addr_send False (capsule_push p chunk) inbound addr_tx"

subsection \<open>Sending\<close>

definition H2_SEND_BATCH_BYTES :: nat where
  "H2_SEND_BATCH_BYTES = 32 * 1024"

text \<open>
  The batch of \<open>pump_outbound\<close>: the packet received and those already queued behind it, as long
  as the batch is below the limit; what stays queued is returned.
\<close>

fun gather_queued :: "bytes \<Rightarrow> bytes list \<Rightarrow> (bytes \<times> bytes list) option" where
  "gather_queued batch queue =
     (if length batch < H2_SEND_BATCH_BYTES
      then (case queue of
              [] \<Rightarrow> Some (batch, [])
            | pkt # rest \<Rightarrow>
                Option.bind (append_datagram_capsule batch pkt) (\<lambda>b. gather_queued b rest))
      else Some (batch, queue))"

declare gather_queued.simps [simp del]

definition pump_batch :: "bytes \<Rightarrow> bytes list \<Rightarrow> (bytes \<times> bytes list) option" where
  "pump_batch packet queue =
     Option.bind (append_datagram_capsule [] packet) (\<lambda>b. gather_queued b queue)"

lemma gather_queued_length: "gather_queued b q = Some (b', rest) \<Longrightarrow> length rest \<le> length q"
proof (induction q arbitrary: b)
  case Nil
  then show ?case by (auto simp: gather_queued.simps [of b] split: if_splits)
next
  case (Cons p q)
  then show ?case by (fastforce simp: gather_queued.simps [of b] split: if_splits)
qed

text \<open>The frames \<open>pump_outbound\<close> writes for a queue of packets, batch after batch.\<close>

function pump_outbound_queue :: "bytes list \<Rightarrow> bytes list option" where
  "pump_outbound_queue [] = Some []"
| "pump_outbound_queue (packet # queue) =
     Option.bind (pump_batch packet queue)
       (\<lambda>(framed, rest). map_option ((#) framed) (pump_outbound_queue rest))"
  by pat_completeness auto
termination
  by (relation "measure length") (auto simp: pump_batch_def dest!: gather_queued_length)

definition H2_MAX_FRAME_SIZE :: nat where
  "H2_MAX_FRAME_SIZE = 64 * 1024"

subsection \<open>What a complete capsule does\<close>

fun deliver ::
    "('c \<Rightarrow> bytes \<Rightarrow> send_result \<times> 'c) \<Rightarrow> ('d \<Rightarrow> ip_addr \<times> u8 \<Rightarrow> 'd) \<Rightarrow> capsule \<Rightarrow>
     bool \<times> 'c \<times> 'd option \<Rightarrow> bool \<times> 'c \<times> 'd option" where
  "deliver ts as (Datagram payload) (d, ch, a) =
     (case strip_datagram_context payload of
        None \<Rightarrow> (d, ch, a) | Some pkt \<Rightarrow> (True, snd (ts ch pkt), a))"
| "deliver ts as (AddressAssign l) (d, ch, a) = (d, ch, offer_addresses as l a)"
| "deliver ts as _ s = s"

lemma h2_drain_step:
  assumes open_rx: "\<And>ch x. fst (ts ch x) \<noteq> SendClosed"
    and step: "capsule_step (cp_buf p) = Some (Inr c, rest)"
  shows "h2_drain_capsules ts as d p ch a =
    (case deliver ts as c (d, ch, a) of (d', ch', a') \<Rightarrow>
       h2_drain_capsules ts as d' \<lparr>cp_buf = rest\<rparr> ch' a')"
proof -
  note next_eq = capsule_next_of_step [OF step]
  show ?thesis
  proof (cases c)
    case (Datagram payload)
    then show ?thesis
    proof (cases "strip_datagram_context payload")
      case None
      with Datagram show ?thesis
        by (subst h2_drain_capsules.simps) (simp add: next_eq)
    next
      case (Some pkt)
      with Datagram open_rx [of ch pkt] show ?thesis
        by (subst h2_drain_capsules.simps)
          (auto simp: next_eq split: prod.splits send_result.splits)
    qed
  qed (subst h2_drain_capsules.simps, simp add: next_eq)+
qed

lemma h2_drain_all:
  assumes open_rx: "\<And>ch x. fst (ts ch x) \<noteq> SendClosed"
    and ok: "\<forall>c \<in> set cs. capsule_ok c" and rest: "capsule_step rest = None"
  shows "h2_drain_capsules ts as d \<lparr>cp_buf = concat (map capsule_bytes cs) @ rest\<rparr> ch a =
    (case fold (deliver ts as) cs (d, ch, a) of (d', ch', a') \<Rightarrow> (d', \<lparr>cp_buf = rest\<rparr>, ch', a'))"
  using ok
proof (induction cs arbitrary: d ch a)
  case Nil
  have "capsule_next \<lparr>cp_buf = rest\<rparr> = (Inr None, \<lparr>cp_buf = rest\<rparr>)"
    using rest by (intro capsule_next_None) simp
  then show ?case
    by (simp add: h2_drain_capsules.simps)
next
  case (Cons c cs)
  have step: "capsule_step (cp_buf \<lparr>cp_buf = concat (map capsule_bytes (c # cs)) @ rest\<rparr>) =
      Some (Inr c, concat (map capsule_bytes cs) @ rest)"
    using Cons.prems by (simp add: capsule_step_bytes)
  show ?case
    unfolding h2_drain_step [OF open_rx step]
    using Cons by (auto split: prod.splits)
qed

text \<open>A run over the DATA frames of the stream.\<close>

fun h2_receive_all ::
    "('c \<Rightarrow> bytes \<Rightarrow> send_result \<times> 'c) \<Rightarrow> ('d \<Rightarrow> ip_addr \<times> u8 \<Rightarrow> 'd) \<Rightarrow>
     bytes list \<Rightarrow> capsule_parser \<Rightarrow> 'c \<Rightarrow> 'd option \<Rightarrow> capsule_parser \<times> 'c \<times> 'd option" where
  "h2_receive_all ts as [] p ch a = (p, ch, a)"
| "h2_receive_all ts as (k # ks) p ch a =
     (case h2_receive_chunk ts as k p ch a of
        (_, p', ch', a') \<Rightarrow> h2_receive_all ts as ks p' ch' a')"

lemma deliver_flag: "snd (deliver ts as c (d, s)) = snd (deliver ts as c (d', s))"
  by (cases c; cases s) (auto split: option.splits)

lemma fold_deliver_flag:
  "snd (fold (deliver ts as) cs (d, s)) = snd (fold (deliver ts as) cs (d', s))"
proof (induction cs arbitrary: d d' s)
  case Nil
  then show ?case by simp
next
  case (Cons c cs)
  then show ?case
    using deliver_flag [of ts as c d s d'] by (metis fold_simps(2) prod.collapse)
qed

lemma h2_receive_all_from:
  assumes open_rx: "\<And>ch x. fst (ts ch x) \<noteq> SendClosed"
    and "\<forall>c \<in> set cs. capsule_ok c"
    and "\<forall>k \<in> set ks. \<forall>c \<in> set cs. length k + length (capsule_bytes c) \<le> MAX_CAPSULE_BUF"
    and "buf @ concat ks = concat (map capsule_bytes cs)"
    and "cs = [] \<and> buf = [] \<or> (\<exists>c \<in> set cs. length buf < length (capsule_bytes c))"
    and "capsule_step buf = None"
  shows "h2_receive_all ts as ks \<lparr>cp_buf = buf\<rparr> ch a =
    (capsule_parser_new, snd (fold (deliver ts as) cs (d, ch, a)))"
  using assms(2-)
proof (induction ks arbitrary: buf cs ch a d)
  case Nil
  then have "cs = []"
    using capsule_drain_bytes [of cs "[]"] capsule_step_Nil
    by (auto simp: capsule_drain.simps)
  with Nil show ?case by (simp add: capsule_parser_new_def)
next
  case (Cons k ks)
  have eq: "(buf @ k) @ concat ks = concat (map capsule_bytes cs)"
    using Cons.prems by simp
  obtain cs1 cs2 rest where cut: "cs = cs1 @ cs2" "buf @ k = concat (map capsule_bytes cs1) @ rest"
    "rest @ concat ks = concat (map capsule_bytes cs2)" "capsule_step rest = None"
    "cs2 = [] \<and> rest = [] \<or> (\<exists>c \<in> set cs2. length rest < length (capsule_bytes c))"
    using capsule_frames.cut_stream [OF Cons.prems(1) eq] .
  have "length buf + length k \<le> MAX_CAPSULE_BUF"
    using Cons.prems(2,3,4) by fastforce
  then have push: "capsule_push \<lparr>cp_buf = buf\<rparr> k = \<lparr>cp_buf = concat (map capsule_bytes cs1) @ rest\<rparr>"
    by (simp add: capsule_push_def cut(2))
  obtain d1 ch1 a1 where d1: "fold (deliver ts as) cs1 (False, ch, a) = (d1, ch1, a1)"
    by (metis prod_cases3)
  have "h2_receive_chunk ts as k \<lparr>cp_buf = buf\<rparr> ch a = (d1, \<lparr>cp_buf = rest\<rparr>, ch1, a1)"
    using h2_drain_all [OF open_rx _ cut(4), where cs = cs1 and as = as and d = False and ch = ch
        and a = a] Cons.prems(1) cut(1)
    by (simp add: h2_receive_chunk_def push d1)
  moreover have "h2_receive_all ts as ks \<lparr>cp_buf = rest\<rparr> ch1 a1 =
      (capsule_parser_new, snd (fold (deliver ts as) cs2 (d1, ch1, a1)))"
    by (rule Cons.IH) (use Cons.prems cut in auto)
  moreover have "snd (fold (deliver ts as) cs (d, ch, a)) =
      snd (fold (deliver ts as) cs2 (d1, ch1, a1))"
    using fold_deliver_flag [of ts as cs d "(ch, a)" False] by (simp add: cut(1) d1)
  ultimately show ?case by simp
qed

subsection \<open>Raw IP packets survive the context stripping\<close>

text \<open>
  A packet whose first byte is not \<open>0x40\<close> (an IPv4 header of length zero) is never mistaken for
  one behind a context identifier.
\<close>

definition tunnel_packet :: "bytes \<Rightarrow> bool" where
  "tunnel_packet p \<longleftrightarrow> looks_like_ip_packet p \<and> hd p \<noteq> 0x40"

lemma top_nibble: "unat (drop_bit 4 (b :: u8)) = unat b div 16"
  by (simp add: drop_bit_eq_div unat_div)

lemma strip_tunnel_packet:
  assumes "tunnel_packet p"
  shows "strip_datagram_context p = Some p"
proof -
  obtain first bs where p: "p = first # bs"
    using assms by (cases p) (auto simp: tunnel_packet_def looks_like_ip_packet_def)
  have nibble: "unat first div 16 = 4 \<or> unat first div 16 = 6" and len: "19 \<le> length bs"
    and ne: "unat first \<noteq> 64"
    using assms top_nibble [of first]
    by (auto simp: tunnel_packet_def looks_like_ip_packet_def p word_unat_eq_iff)
  let ?b = "octets_with_slice p"
  have plen: "varint_parse_len first = Some 2"
    using nibble by (auto simp: varint_parse_len_eq)
  have val: "be_val (take 2 (o_rest ?b)) = unat first * 256 + unat (hd bs)"
    using len by (cases bs) (simp_all add: p numeral_2_eq_2)
  have rest: "o_rest ?b = first # bs"
    by (simp add: p)
  have "get_varint ?b =
      Inr (of_nat ((unat first * 256 + unat (hd bs)) mod 2 ^ 14), octets_skip 2 ?b)"
    using get_varint_Cons [OF rest plen] len val by (cases bs) (simp_all add: p)
  moreover have "(of_nat ((unat first * 256 + unat (hd bs)) mod 2 ^ 14) :: u64) \<noteq> 0"
  proof -
    have "64 < unat first \<and> unat first < 128"
      using nibble ne by linarith
    then obtain g where g: "unat first = g + 64" "0 < g" "g < 64"
      by (intro that [of "unat first - 64"]) auto
    have "g * 256 + unat (hd bs) < 16384"
      using g(3) unat_byte_less [of "hd bs"] by linarith
    then have "(unat first * 256 + unat (hd bs)) mod 2 ^ 14 = g * 256 + unat (hd bs)"
      using mod_add_self2 [of "g * 256 + unat (hd bs)" "2 ^ 14"] by (simp add: g(1) add_ac)
    then have "(unat first * 256 + unat (hd bs)) mod 2 ^ 14 \<noteq> 0"
      using g(2) by simp
    moreover have "(unat first * 256 + unat (hd bs)) mod 2 ^ 14 < 2 ^ 64"
      by (rule less_trans [of _ "2 ^ 14"]) simp_all
    ultimately show ?thesis
      by (simp add: word_unat_eq_iff unat_of_nat)
  qed
  ultimately show ?thesis
    using assms
    by (simp add: strip_datagram_context_def tunnel_packet_def CONNECT_IP_CONTEXT_ID_def Let_def p)
qed

lemma strip_context_zero:
  assumes "looks_like_ip_packet p"
  shows "strip_datagram_context (0 # p) = Some p"
proof -
  have "get_varint (octets_with_slice (0 # p)) = Inr (0, octets_skip 1 (octets_with_slice (0 # p)))"
    using varint.get_enc [of 0 "octets_with_slice (0 # p)" p]
    by (simp add: varint_ok_def varint_encoding_def)
  then show ?thesis
    using assms
    by (simp add: strip_datagram_context_def CONNECT_IP_CONTEXT_ID_def o_cap_rest)
qed

lemma strip_is_ip: "strip_datagram_context d = Some p \<Longrightarrow> looks_like_ip_packet p"
  by (auto simp: strip_datagram_context_def Let_def split: if_splits sum.splits prod.splits)

subsection \<open>Batches\<close>

lemma append_datagram_capsule_eq:
  "length p < 2 ^ 62 \<Longrightarrow> append_datagram_capsule out p = Some (out @ capsule_bytes (Datagram p))"
  by (simp add: append_datagram_capsule_def append_capsule_eq capsule_bytes_def)

lemma gather_queued_split:
  assumes "\<forall>p \<in> set queue. length p < 2 ^ 62"
  shows "\<exists>sent rest. queue = sent @ rest \<and>
    gather_queued batch queue = Some (batch @ concat (map (\<lambda>p. capsule_bytes (Datagram p)) sent), rest)"
  using assms
proof (induction queue arbitrary: batch)
  case Nil
  then show ?case by (simp add: gather_queued.simps [of batch])
next
  case (Cons p queue)
  let ?b = "batch @ capsule_bytes (Datagram p)"
  show ?case
  proof (cases "length batch < H2_SEND_BATCH_BYTES")
    case True
    then have "gather_queued batch (p # queue) = gather_queued ?b queue"
      using Cons.prems by (simp add: gather_queued.simps [of batch] append_datagram_capsule_eq)
    moreover obtain sent rest where "queue = sent @ rest"
      "gather_queued ?b queue = Some (?b @ concat (map (\<lambda>p. capsule_bytes (Datagram p)) sent), rest)"
      using Cons.IH [of ?b] Cons.prems by auto
    ultimately show ?thesis
      by (intro exI [of _ "p # sent"] exI [of _ rest]) simp
  next
    case False
    then show ?thesis
      by (intro exI [of _ "[]"] exI [of _ "p # queue"]) (simp add: gather_queued.simps [of batch])
  qed
qed

lemma pump_batch_split:
  assumes "\<forall>p \<in> set (pkt # queue). length p < 2 ^ 62"
  obtains sent rest where "queue = sent @ rest"
    "pump_batch pkt queue = Some (concat (map (\<lambda>p. capsule_bytes (Datagram p)) (pkt # sent)), rest)"
  using gather_queued_split [of queue "capsule_bytes (Datagram pkt)"] assms
  by (auto simp: pump_batch_def append_datagram_capsule_eq)

lemma pump_outbound_queue_eq:
  assumes "\<forall>p \<in> set ps. length p < 2 ^ 62"
  shows "\<exists>frames. pump_outbound_queue ps = Some frames \<and>
    concat frames = concat (map (\<lambda>p. capsule_bytes (Datagram p)) ps)"
  using assms
proof (induction "length ps" arbitrary: ps rule: less_induct)
  case less
  show ?case
  proof (cases ps)
    case Nil
    then show ?thesis by simp
  next
    case (Cons p q)
    then have "\<forall>p \<in> set (p # q). length p < 2 ^ 62"
      using less.prems by simp
    then obtain sent rest where split: "q = sent @ rest"
      "pump_batch p q = Some (concat (map (\<lambda>p. capsule_bytes (Datagram p)) (p # sent)), rest)"
      by (rule pump_batch_split)
    moreover have "\<exists>frames. pump_outbound_queue rest = Some frames \<and>
        concat frames = concat (map (\<lambda>p. capsule_bytes (Datagram p)) rest)"
      by (rule less.hyps) (use less.prems Cons split(1) in auto)
    ultimately show ?thesis
      using Cons by auto
  qed
qed

lemma length_datagram_bytes:
  "length (capsule_bytes (Datagram p)) \<le> 16 + length p"
  by (simp add: capsule_bytes_def capsule_wire_def length_varint_encoding)

lemma fold_deliver_packets:
  assumes "\<forall>p \<in> set ps. strip_datagram_context p = Some p"
  shows "snd (fold (deliver ts as) (map Datagram ps) (d, ch, a)) =
    (fold (\<lambda>p ch. snd (ts ch p)) ps ch, a)"
  using assms by (induction ps arbitrary: d ch) auto

subsection \<open>Properties\<close>

text \<open>C3: packets sent through the HTTP/2 carrier arrive complete and in order.  The send task
  frames any queue of IP packets (each at most 65535 bytes) without failing, and however the
  framed bytes are cut into DATA frames of at most the negotiated size, feeding them to the capsule
  parser and draining it after each frame offers exactly those packets, in order, to the inbound
  queue, leaves the address channel alone and leaves the parser empty.\<close>

theorem h2_tunnel_in_order:
  fixes try_send :: "'c \<Rightarrow> bytes \<Rightarrow> send_result \<times> 'c"
  assumes open_rx: "\<And>ch x. fst (try_send ch x) \<noteq> SendClosed"
    and packets: "\<forall>p \<in> set ps. tunnel_packet p \<and> length p \<le> 65535"
  shows "\<exists>frames. pump_outbound_queue ps = Some frames \<and>
    (\<forall>chunks. concat chunks = concat frames \<longrightarrow>
       (\<forall>k \<in> set chunks. length k \<le> H2_MAX_FRAME_SIZE) \<longrightarrow>
       h2_receive_all try_send addr_send chunks capsule_parser_new ch a =
         (capsule_parser_new, fold (\<lambda>p ch. snd (try_send ch p)) ps ch, a))"
proof -
  have short: "\<forall>p \<in> set ps. length p < 2 ^ 62"
    using packets by fastforce
  obtain frames where frames: "pump_outbound_queue ps = Some frames"
    "concat frames = concat (map capsule_bytes (map Datagram ps))"
    using pump_outbound_queue_eq [OF short] by (auto simp: comp_def)
  have "h2_receive_all try_send addr_send chunks capsule_parser_new ch a =
      (capsule_parser_new, fold (\<lambda>p ch. snd (try_send ch p)) ps ch, a)"
    if cut: "concat chunks = concat frames" and size: "\<forall>k \<in> set chunks. length k \<le> H2_MAX_FRAME_SIZE"
    for chunks
  proof -
    have ok: "\<forall>c \<in> set (map Datagram ps). capsule_ok c"
      using short by (simp add: capsule_ok_def)
    have room: "\<forall>k \<in> set chunks. \<forall>c \<in> set (map Datagram ps).
        length k + length (capsule_bytes c) \<le> MAX_CAPSULE_BUF"
    proof (intro ballI)
      fix k c
      assume "k \<in> set chunks" and "c \<in> set (map Datagram ps)"
      then obtain p where "c = Datagram p" "length p \<le> 65535" "length k \<le> 65536"
        using size packets by (auto simp: H2_MAX_FRAME_SIZE_def)
      then show "length k + length (capsule_bytes c) \<le> MAX_CAPSULE_BUF"
        using length_datagram_bytes [of p] by (simp add: MAX_CAPSULE_BUF_def)
    qed
    have fresh: "map Datagram ps = [] \<and> ([] :: bytes) = [] \<or>
        (\<exists>c \<in> set (map Datagram ps). length ([] :: bytes) < length (capsule_bytes c))"
      using ok by (cases ps) (simp_all add: capsule_bytes_nonempty)
    have "[] @ concat chunks = concat (map capsule_bytes (map Datagram ps))"
      using cut frames(2) by simp
    from h2_receive_all_from [where ts = try_send and as = addr_send and ch = ch and a = a
        and d = False, OF open_rx ok room this fresh capsule_step_Nil]
    show ?thesis
      using fold_deliver_packets [of ps] packets
      by (simp add: capsule_parser_new_def strip_tunnel_packet)
  qed
  with frames(1) show ?thesis by blast
qed

theorem h2_tunnel_in_order_witness:
  "\<exists>frames. pump_outbound_queue [0x45 # replicate 19 0, 0x60 # replicate 39 1] = Some frames \<and>
     h2_receive_all (\<lambda>ch x. (SendOk, ch @ [x])) (\<lambda>d _. d) (map (\<lambda>b. [b]) (concat frames))
       capsule_parser_new [] (None :: unit option) =
     (capsule_parser_new, [0x45 # replicate 19 0, 0x60 # replicate 39 1], None)"
proof -
  have cut: "concat (map (\<lambda>b. [b]) xs) = xs" for xs :: bytes
    by (induction xs) auto
  let ?ts = "\<lambda>(ch :: bytes list) x. (SendOk, ch @ [x])"
  have "\<forall>p \<in> set [0x45 # replicate 19 0, 0x60 # replicate 39 1 :: bytes].
      tunnel_packet p \<and> length p \<le> 65535"
    by (simp add: tunnel_packet_def looks_like_ip_packet_def)
  from h2_tunnel_in_order [where try_send = ?ts and addr_send = "\<lambda>d _. d" and ch = "[]"
      and a = "None :: unit option", OF _ this]
  obtain frames where "pump_outbound_queue [0x45 # replicate 19 0, 0x60 # replicate 39 1] = Some frames"
    "\<forall>chunks. concat chunks = concat frames \<longrightarrow>
       (\<forall>k \<in> set chunks. length k \<le> H2_MAX_FRAME_SIZE) \<longrightarrow>
       h2_receive_all ?ts (\<lambda>d _. d) chunks capsule_parser_new [] (None :: unit option) =
         (capsule_parser_new, [0x45 # replicate 19 0, 0x60 # replicate 39 1], None)"
    by auto
  then show ?thesis
    by (intro exI [of _ frames]) (auto simp: cut H2_MAX_FRAME_SIZE_def)
qed

end
