(* ===== verification/H2_Tunnel.thy ===== *)
theory H2_Tunnel
  imports Masque_H2
begin

text \<open>
  The tunnel loop of \<open>engine/aether/src/masque_h2.rs\<close> (\<open>run\<close>, from the response of the edge on)
  as a state machine: one step is one turn of the loop, that is, the two deadline checks and the
  branch of the \<open>select!\<close> that became ready.  What the loop does to the outside is kept as
  counters: readiness signals sent and probes handed to the send task.  Times are milliseconds.
\<close>

subsection \<open>Settings\<close>

text \<open>
  The shape all the numeric settings share: a positive number of seconds, at most a day, or the
  default.
\<close>

definition env_seconds :: "env \<Rightarrow> string \<Rightarrow> nat \<Rightarrow> nat" where
  "env_seconds env key dflt =
     (case Option.bind (env key) (parse_unsigned (2 ^ 64 - 1)) of
        Some v \<Rightarrow> if 0 < v then min v 86400 else dflt
      | None \<Rightarrow> dflt)"

definition data_check_enabled :: "env \<Rightarrow> bool" where
  "data_check_enabled env \<longleftrightarrow> env ''AETHER_MASQUE_NO_DATA_CHECK'' = None"

definition h2_validation_timeout :: "env \<Rightarrow> nat" where
  "h2_validation_timeout env = 1000 * env_seconds env ''AETHER_MASQUE_VALIDATE_SECS'' 10"

definition h2_keepalive_interval :: "env \<Rightarrow> nat" where
  "h2_keepalive_interval env = 1000 * env_seconds env ''AETHER_MASQUE_H2_KEEPALIVE_SECS'' 15"

definition h2_keepalive_timeout :: "env \<Rightarrow> nat" where
  "h2_keepalive_timeout env = 1000 * env_seconds env ''AETHER_MASQUE_H2_KEEPALIVE_TIMEOUT_SECS'' 20"

definition DATA_PROBE_REQUIRED_SUCCESSES :: nat where
  "DATA_PROBE_REQUIRED_SUCCESSES = 2"

subsection \<open>State and events\<close>

datatype control = Migrate | Close

record ('c, 'd) h2_loop =
  hl_ready_fired :: bool
  hl_ready_tx :: bool
  hl_ready_signals :: nat
  hl_successes :: nat
  hl_validate_deadline :: "nat option"
  hl_awaiting_pong :: bool
  hl_pong_deadline :: "nat option"
  hl_probes :: nat
  hl_capsules :: capsule_parser
  hl_inbound :: 'c
  hl_addr :: "'d option"

datatype h2_event =
    KeepaliveTick bool \<comment> \<open>whether \<open>send_ping\<close> succeeded\<close>
  | PongResult "string option" \<comment> \<open>the error, if any\<close>
  | ProbeTick
  | DeadlineWake
  | CtrlMsg "control option"
  | SenderOutcome "(aether_error + unit) option" \<comment> \<open>\<open>None\<close>: the send task is gone\<close>
  | BodyData bytes
  | BodyError string
  | BodyEnd

datatype 's turn = Continue 's | Return "aether_error + unit"

text \<open>\<open>if let Some(tx) = ready_tx.take() { let _ = tx.send(()); }\<close>\<close>

definition fire_ready :: "('c, 'd) h2_loop \<Rightarrow> ('c, 'd) h2_loop" where
  "fire_ready s =
     (if hl_ready_tx s
      then s\<lparr>hl_ready_tx := False, hl_ready_signals := hl_ready_signals s + 1\<rparr> else s)"

definition h2_loop_init :: "env \<Rightarrow> nat \<Rightarrow> bool \<Rightarrow> 'c \<Rightarrow> 'd option \<Rightarrow> ('c, 'd) h2_loop" where
  "h2_loop_init env now ready_tx inbound addr =
     (let s = \<lparr>hl_ready_fired = False, hl_ready_tx = ready_tx, hl_ready_signals = 0,
               hl_successes = 0, hl_validate_deadline = None, hl_awaiting_pong = False,
               hl_pong_deadline = None, hl_probes = 0, hl_capsules = capsule_parser_new,
               hl_inbound = inbound, hl_addr = addr\<rparr>
      in if data_check_enabled env
         then s\<lparr>hl_probes := 1, hl_validate_deadline := Some (now + h2_validation_timeout env)\<rparr>
         else fire_ready (s\<lparr>hl_ready_fired := True\<rparr>))"

definition passed :: "nat option \<Rightarrow> nat \<Rightarrow> bool" where
  "passed deadline now = (case deadline of Some dl \<Rightarrow> dl \<le> now | None \<Rightarrow> False)"

text \<open>The checks at the top of the loop; each reads the clock.\<close>

definition h2_deadlines :: "env \<Rightarrow> nat \<Rightarrow> nat \<Rightarrow> ('c, 'd) h2_loop \<Rightarrow> aether_error option" where
  "h2_deadlines env t0 t1 s =
     (if data_check_enabled env \<and> \<not> hl_ready_fired s \<and> passed (hl_validate_deadline s) t0
      then Some (Masque_error ''h2 data-plane validation timeout (handshake ok, no traffic)'')
      else if passed (hl_pong_deadline s) t1 then Some (Masque_error ''h2 keepalive timeout'')
      else None)"

text \<open>The guards of the \<open>select!\<close> branches.\<close>

definition h2_enabled :: "env \<Rightarrow> ('c, 'd) h2_loop \<Rightarrow> h2_event \<Rightarrow> bool" where
  "h2_enabled env s ev =
     (case ev of
        KeepaliveTick _ \<Rightarrow> hl_ready_fired s \<and> \<not> hl_awaiting_pong s
      | PongResult _ \<Rightarrow> hl_awaiting_pong s
      | ProbeTick \<Rightarrow> data_check_enabled env \<and> \<not> hl_ready_fired s
      | DeadlineWake \<Rightarrow> hl_pong_deadline s \<noteq> None
      | _ \<Rightarrow> True)"

definition h2_on_data ::
    "('c \<Rightarrow> bytes \<Rightarrow> send_result \<times> 'c) \<Rightarrow> ('d \<Rightarrow> ip_addr \<times> u8 \<Rightarrow> 'd) \<Rightarrow>
     bytes \<Rightarrow> ('c, 'd) h2_loop \<Rightarrow> ('c, 'd) h2_loop" where
  "h2_on_data ts as chunk s =
     (case h2_receive_chunk ts as chunk (hl_capsules s) (hl_inbound s) (hl_addr s) of
        (got_data, p, ch, a) \<Rightarrow>
          let s = s\<lparr>hl_capsules := p, hl_inbound := ch, hl_addr := a\<rparr>
          in if got_data \<and> \<not> hl_ready_fired s then
               (let s = s\<lparr>hl_successes := hl_successes s + 1\<rparr>
                in if DATA_PROBE_REQUIRED_SUCCESSES \<le> hl_successes s
                   then fire_ready (s\<lparr>hl_ready_fired := True, hl_validate_deadline := None\<rparr>)
                   else s\<lparr>hl_probes := hl_probes s + 1\<rparr>)
             else s)"

definition h2_turn ::
    "('c \<Rightarrow> bytes \<Rightarrow> send_result \<times> 'c) \<Rightarrow> ('d \<Rightarrow> ip_addr \<times> u8 \<Rightarrow> 'd) \<Rightarrow> env \<Rightarrow>
     nat \<Rightarrow> nat \<Rightarrow> nat \<Rightarrow> h2_event \<Rightarrow> ('c, 'd) h2_loop \<Rightarrow> ('c, 'd) h2_loop turn" where
  "h2_turn ts as env t0 t1 now ev s =
     (case h2_deadlines env t0 t1 s of
        Some e \<Rightarrow> Return (Inl e)
      | None \<Rightarrow>
          (case ev of
             KeepaliveTick sent \<Rightarrow>
               Continue (if sent
                 then s\<lparr>hl_awaiting_pong := True,
                        hl_pong_deadline := Some (now + h2_keepalive_timeout env)\<rparr>
                 else s)
           | PongResult None \<Rightarrow>
               Continue (s\<lparr>hl_awaiting_pong := False, hl_pong_deadline := None\<rparr>)
           | PongResult (Some e) \<Rightarrow> Return (Inl (Masque_error (''h2 keepalive: '' @ e)))
           | ProbeTick \<Rightarrow> Continue (s\<lparr>hl_probes := hl_probes s + 1\<rparr>)
           | DeadlineWake \<Rightarrow> Continue s
           | CtrlMsg (Some Migrate) \<Rightarrow> Continue s
           | CtrlMsg _ \<Rightarrow> Return (Inr ())
           | SenderOutcome (Some r) \<Rightarrow> Return r
           | SenderOutcome None \<Rightarrow> Return (Inl (Masque_error ''h2 send task stopped''))
           | BodyData chunk \<Rightarrow> Continue (h2_on_data ts as chunk s)
           | BodyError e \<Rightarrow> Return (Inl (Masque_error (''h2 body: '' @ e)))
           | BodyEnd \<Rightarrow> Return (Inr ())))"

text \<open>
  The states the loop can be in, with the number of turns so far that delivered a packet from the
  edge.
\<close>

definition turn_delivers ::
    "('c \<Rightarrow> bytes \<Rightarrow> send_result \<times> 'c) \<Rightarrow> ('d \<Rightarrow> ip_addr \<times> u8 \<Rightarrow> 'd) \<Rightarrow> h2_event \<Rightarrow>
     ('c, 'd) h2_loop \<Rightarrow> bool" where
  "turn_delivers ts as ev s =
     (case ev of
        BodyData chunk \<Rightarrow>
          fst (h2_receive_chunk ts as chunk (hl_capsules s) (hl_inbound s) (hl_addr s))
      | _ \<Rightarrow> False)"

inductive h2_reachable ::
    "('c \<Rightarrow> bytes \<Rightarrow> send_result \<times> 'c) \<Rightarrow> ('d \<Rightarrow> ip_addr \<times> u8 \<Rightarrow> 'd) \<Rightarrow> env \<Rightarrow>
     bool \<Rightarrow> nat \<Rightarrow> ('c, 'd) h2_loop \<Rightarrow> bool"
  for ts as env ready_tx where
  start: "h2_reachable ts as env ready_tx 0 (h2_loop_init env now ready_tx ch a)"
| turn: "h2_reachable ts as env ready_tx n s \<Longrightarrow> h2_enabled env s ev \<Longrightarrow>
    h2_turn ts as env t0 t1 now ev s = Continue s' \<Longrightarrow>
    h2_reachable ts as env ready_tx (if turn_delivers ts as ev s then n + 1 else n) s'"

subsection \<open>The invariant of the loop\<close>

definition h2_inv :: "env \<Rightarrow> bool \<Rightarrow> nat \<Rightarrow> ('c, 'd) h2_loop \<Rightarrow> bool" where
  "h2_inv env ready_tx n s \<longleftrightarrow>
     hl_ready_signals s = (if ready_tx \<and> hl_ready_fired s then 1 else 0) \<and>
     (hl_ready_tx s \<longleftrightarrow> ready_tx \<and> \<not> hl_ready_fired s) \<and>
     (data_check_enabled env \<longrightarrow>
        hl_successes s = min n DATA_PROBE_REQUIRED_SUCCESSES \<and>
        (hl_ready_fired s \<longleftrightarrow> DATA_PROBE_REQUIRED_SUCCESSES \<le> n) \<and>
        (hl_validate_deadline s = None \<longleftrightarrow> hl_ready_fired s)) \<and>
     (\<not> data_check_enabled env \<longrightarrow> hl_ready_fired s) \<and>
     (hl_awaiting_pong s \<longleftrightarrow> hl_pong_deadline s \<noteq> None) \<and>
     (hl_awaiting_pong s \<longrightarrow> hl_ready_fired s)"

lemmas h2_state_defs = h2_inv_def fire_ready_def DATA_PROBE_REQUIRED_SUCCESSES_def Let_def

lemma h2_inv_init: "h2_inv env ready_tx 0 (h2_loop_init env now ready_tx ch a)"
  by (simp add: h2_loop_init_def h2_state_defs)

lemma h2_inv_on_data:
  "h2_inv env ready_tx n s \<Longrightarrow>
   h2_inv env ready_tx (if turn_delivers ts as (BodyData chunk) s then n + 1 else n)
     (h2_on_data ts as chunk s)"
  by (auto simp: h2_on_data_def turn_delivers_def h2_state_defs split: prod.splits)

lemma h2_inv_turn:
  assumes "h2_inv env ready_tx n s" and "h2_enabled env s ev"
    and "h2_turn ts as env t0 t1 now ev s = Continue s'"
  shows "h2_inv env ready_tx (if turn_delivers ts as ev s then n + 1 else n) s'"
proof (cases ev)
  case (BodyData chunk)
  with assms show ?thesis
    using h2_inv_on_data [OF assms(1), of ts as chunk]
    by (auto simp: h2_turn_def split: option.splits)
qed (use assms in \<open>auto simp: h2_turn_def h2_enabled_def h2_inv_def turn_delivers_def
       split: option.splits control.splits if_splits\<close>)

lemma h2_reachable_inv: "h2_reachable ts as env ready_tx n s \<Longrightarrow> h2_inv env ready_tx n s"
  by (induction rule: h2_reachable.induct) (auto intro: h2_inv_init dest: h2_inv_turn)

subsection \<open>Properties\<close>

text \<open>C16: with the data check on, the HTTP/2 tunnel signals readiness at most once, and only after
  at least the required number of DATA frames delivered an IP packet end to end; until then the
  validation deadline stands, and no keepalive ping is outstanding before readiness.\<close>

theorem h2_ready_only_after_validation:
  assumes "h2_reachable try_send addr_send env ready_tx n s" and "data_check_enabled env"
  shows "hl_ready_signals s \<le> 1 \<and>
    (0 < hl_ready_signals s \<longrightarrow> DATA_PROBE_REQUIRED_SUCCESSES \<le> n) \<and>
    (n < DATA_PROBE_REQUIRED_SUCCESSES \<longrightarrow>
      \<not> hl_ready_fired s \<and> hl_validate_deadline s \<noteq> None \<and> \<not> hl_awaiting_pong s)"
  using h2_reachable_inv [OF assms(1)] assms(2) by (auto simp: h2_inv_def split: if_splits)

theorem h2_ready_only_after_validation_witness:
  "hl_ready_signals (h2_loop_init (\<lambda>_. None) 5 True ([] :: bytes list) (None :: unit option)) \<le> 1 \<and>
   \<not> hl_ready_fired (h2_loop_init (\<lambda>_. None) 5 True ([] :: bytes list) (None :: unit option))"
proof -
  let ?s = "h2_loop_init (\<lambda>_. None) 5 True ([] :: bytes list) (None :: unit option)"
  have "h2_reachable (\<lambda>ch x. (SendOk, ch @ [x])) (\<lambda>d _. d) (\<lambda>_. None) True 0 ?s"
    by (rule h2_reachable.start)
  from h2_ready_only_after_validation [OF this] show ?thesis
    by (simp add: data_check_enabled_def DATA_PROBE_REQUIRED_SUCCESSES_def)
qed

text \<open>C34: the HTTP/2 tunnel cannot outlive its deadlines: when the validation deadline (with the
  data check on) or the deadline of an outstanding ping has passed, the next turn of the loop
  returns the corresponding error whatever event woke it.\<close>

theorem h2_deadlines_enforced:
  assumes "h2_reachable try_send addr_send env ready_tx n s"
  shows "(data_check_enabled env \<and> hl_validate_deadline s = Some dl \<and> dl \<le> t0 \<longrightarrow>
      h2_turn try_send addr_send env t0 t1 now ev s =
        Return (Inl (Masque_error ''h2 data-plane validation timeout (handshake ok, no traffic)''))) \<and>
    (hl_pong_deadline s = Some dl \<and> dl \<le> t1 \<longrightarrow>
      h2_turn try_send addr_send env t0 t1 now ev s = Return (Inl (Masque_error ''h2 keepalive timeout'')))"
  using h2_reachable_inv [OF assms]
  by (auto simp: h2_inv_def h2_turn_def h2_deadlines_def passed_def)

theorem h2_deadlines_enforced_witness:
  "h2_turn (\<lambda>ch x. (SendOk, ch @ [x])) (\<lambda>d _. d) (\<lambda>_. None) 10005 10006 10007 ProbeTick
     (h2_loop_init (\<lambda>_. None) 5 True ([] :: bytes list) (None :: unit option)) =
   Return (Inl (Masque_error ''h2 data-plane validation timeout (handshake ok, no traffic)''))"
proof -
  let ?s = "h2_loop_init (\<lambda>_. None) 5 True ([] :: bytes list) (None :: unit option)"
  have "h2_reachable (\<lambda>ch x. (SendOk, ch @ [x])) (\<lambda>d _. d) (\<lambda>_. None) True 0 ?s"
    by (rule h2_reachable.start)
  from h2_deadlines_enforced [OF this, of 10005 10005 10006 10007 ProbeTick] show ?thesis
    by (simp add: data_check_enabled_def h2_loop_init_def h2_validation_timeout_def env_seconds_def)
qed

end
