(* ===== verification/Sniff.thy ===== *)
theory Sniff
  imports Std_Net
begin

text \<open>
  Recovering the host name of a connection from its first bytes: \<open>engine/aether/src/sniff.rs\<close>.
  The record and handshake of a TLS ClientHello are walked with checked reads; every read that
  would leave the buffer ends the search with \<open>None\<close>.  The reference encoder
  \<open>hello_record\<close> writes the ClientHello of RFC 8446 with any extensions, so that what the
  walk finds can be stated for every such message.
\<close>

definition PEEK_BUDGET :: nat where "PEEK_BUDGET = 4096"

definition MAX_HOST_LEN :: nat where "MAX_HOST_LEN = 253"

definition be16 :: "bytes \<Rightarrow> nat \<Rightarrow> nat option" where
  "be16 buf at = do {
     hi \<leftarrow> slice_at buf at;
     lo \<leftarrow> slice_at buf (at + 1);
     Some (push_bit 8 (unat hi) OR unat lo)
   }"

definition be24 :: "bytes \<Rightarrow> nat \<Rightarrow> nat option" where
  "be24 buf at = do {
     a \<leftarrow> slice_at buf at;
     b \<leftarrow> slice_at buf (at + 1);
     c \<leftarrow> slice_at buf (at + 2);
     Some (push_bit 16 (unat a) OR push_bit 8 (unat b) OR unat c)
   }"

definition host_char :: "char \<Rightarrow> bool" where
  "host_char c \<longleftrightarrow>
     is_ascii_alphanumeric c \<or> c = CHR ''-'' \<or> c = CHR ''.'' \<or> c = CHR ''_''"

definition plausible_host :: "bytes \<Rightarrow> string option" where
  "plausible_host raw =
     (if raw = [] \<or> MAX_HOST_LEN < length raw then None
      else do {
        text \<leftarrow> from_utf8 raw;
        let name = trim_end_matches (\<lambda>c. c = CHR ''.'') (str_trim text);
        (if name = [] \<or> MAX_HOST_LEN < length name then None
         else if \<not> list_all host_char name \<or> CHR ''.'' \<notin> set name then None
         else if parse_ip_addr name \<noteq> None then None
         else Some (to_lowercase name))
      })"

function server_name_entries :: "bytes \<Rightarrow> nat \<Rightarrow> nat \<Rightarrow> string option" where
  "server_name_entries data list_end at =
     (if at + 3 \<le> list_end then
        (case (slice_at data at, be16 data (at + 1)) of
           (Some kind, Some len) \<Rightarrow>
             (let start = at + 3; stop = start + len
              in if list_end < stop then None
                 else if kind = 0x00
                 then Option.bind (slice_range data start stop) plausible_host
                 else server_name_entries data list_end stop)
         | _ \<Rightarrow> None)
      else None)"
  by pat_completeness auto
termination
  by (relation "measure (\<lambda>(data, list_end, at). list_end - at)") auto

declare server_name_entries.simps [simp del]

definition first_server_name :: "bytes \<Rightarrow> string option" where
  "first_server_name data = do {
     list_len \<leftarrow> be16 data 0;
     let list_end = min (2 + list_len) (length data);
     server_name_entries data list_end 2
   }"

function sni_extension :: "bytes \<Rightarrow> nat \<Rightarrow> nat \<Rightarrow> string option" where
  "sni_extension hello extensions_end at =
     (if at + 4 \<le> extensions_end then
        (case (be16 hello at, be16 hello (at + 2)) of
           (Some kind, Some len) \<Rightarrow>
             (let data_start = at + 4; data_end = data_start + len
              in if extensions_end < data_end then None
                 else if kind = 0x0000
                 then Option.bind (slice_range hello data_start data_end) first_server_name
                 else sni_extension hello extensions_end data_end)
         | _ \<Rightarrow> None)
      else None)"
  by pat_completeness auto
termination
  by (relation "measure (\<lambda>(hello, extensions_end, at). extensions_end - at)") auto

declare sni_extension.simps [simp del]

definition tls_sni :: "bytes \<Rightarrow> string option" where
  "tls_sni buf = do {
     first \<leftarrow> slice_at buf 0;
     if first \<noteq> 0x16 then None else do {
       record_len \<leftarrow> be16 buf 3;
       body \<leftarrow> slice_range buf 5 (min (5 + record_len) (length buf));
       kind \<leftarrow> slice_at body 0;
       if kind \<noteq> 0x01 then None else do {
         hello_len \<leftarrow> be24 body 1;
         hello \<leftarrow> slice_range body 4 (min (4 + hello_len) (length body));
         session_len \<leftarrow> slice_at hello (2 + 32);
         let at = (2 + 32) + (1 + unat session_len);
         cipher_len \<leftarrow> be16 hello at;
         let at = at + (2 + cipher_len);
         compression_len \<leftarrow> slice_at hello at;
         let at = at + (1 + unat compression_len);
         extensions_len \<leftarrow> be16 hello at;
         let at = at + 2;
         sni_extension hello (min (at + extensions_len) (length hello)) at
       }
     }
   }"

definition http_methods :: "string list" where
  "http_methods =
     [''GET '', ''POST '', ''PUT '', ''HEAD '', ''DELETE '', ''OPTIONS '', ''PATCH '',
      ''TRACE '', ''CONNECT '']"

definition looks_like_http :: "string \<Rightarrow> bool" where
  "looks_like_http line \<longleftrightarrow>
     list_ex (\<lambda>verb. prefix verb line) http_methods \<and> str_contains ''HTTP/'' line"

text \<open>The value of the \<open>Host\<close> line, from the lines after the request line.\<close>

fun host_line :: "string list \<Rightarrow> string option" where
  "host_line [] = None"
| "host_line (line # lines) =
     (if line = [] then None
      else (case split_once (CHR '':'') line of
              None \<Rightarrow> host_line lines
            | Some (name, value) \<Rightarrow>
                if \<not> eq_ignore_ascii_case name ''host'' then host_line lines
                else (let value = str_trim value;
                          without_port =
                            (case rsplit_once (CHR '':'') value of
                               Some (host, port) \<Rightarrow>
                                 if list_all is_ascii_digit port then host else value
                             | None \<Rightarrow> value)
                      in plausible_host (bytes_of_text without_port))))"

definition http_host :: "bytes \<Rightarrow> string option" where
  "http_host buf =
     (let text = from_utf8_lossy (text_of_bytes (take (min (length buf) PEEK_BUDGET) buf))
      in case split_str [CHR 0x0D, CHR 0x0A] text of
           [] \<Rightarrow> None
         | request_line # lines \<Rightarrow>
             if looks_like_http request_line then host_line lines else None)"

definition hostname :: "bytes \<Rightarrow> string option" where
  "hostname buf = (case tls_sni buf of Some h \<Rightarrow> Some h | None \<Rightarrow> http_host buf)"

subsection \<open>Reads and slices\<close>

lemma slice_range_drop: "0 < n \<Longrightarrow> slice_range buf at (at + n) = slice_range (drop at buf) 0 n"
  by (cases "at \<le> length buf") (auto simp: slice_range_def)

lemma slice_range_two:
  "slice_range buf at (at + 2) =
     (case (slice_at buf at, slice_at buf (at + 1)) of (Some a, Some b) \<Rightarrow> Some [a, b] | _ \<Rightarrow> None)"
proof -
  have "slice_range d 0 2 =
      (case (slice_at d 0, slice_at d 1) of (Some a, Some b) \<Rightarrow> Some [a, b] | _ \<Rightarrow> None)"
    for d :: "'a list"
    by (cases d rule: list.exhaust; cases "List.tl d") (simp_all add: slice_range_def)
  from this [of "drop at buf"] show ?thesis
    using slice_range_drop [of 2 buf at] by (simp add: slice_at_drop)
qed

lemma slice_range_three:
  "slice_range buf at (at + 3) =
     (case (slice_at buf at, slice_at buf (at + 1), slice_at buf (at + 2)) of
        (Some a, Some b, Some c) \<Rightarrow> Some [a, b, c] | _ \<Rightarrow> None)"
proof -
  have "slice_range d 0 3 =
      (case (slice_at d 0, slice_at d 1, slice_at d 2) of
         (Some a, Some b, Some c) \<Rightarrow> Some [a, b, c] | _ \<Rightarrow> None)"
    for d :: "'a list"
    by (cases d rule: list.exhaust; cases "List.tl d"; cases "List.tl (List.tl d)")
       (simp_all add: slice_range_def numeral_2_eq_2 numeral_3_eq_3)
  from this [of "drop at buf"] show ?thesis
    by (simp add: slice_range_drop slice_at_drop)
qed

lemma be16_be_at: "be16 buf at = be_at buf at 2"
  unfolding be16_def be_at_def slice_range_two
  by (cases "slice_at buf at"; cases "slice_at buf (at + 1)") (simp_all add: shift_or_byte)

lemma be24_be_at: "be24 buf at = be_at buf at 3"
proof -
  have "push_bit 16 (unat a) OR push_bit 8 (unat b) OR unat c = be_val [a, b, c]" for a b c :: u8
  proof -
    have "push_bit 16 (unat a) OR push_bit 8 (unat b) = push_bit 8 (push_bit 8 (unat a) OR unat b)"
      by (simp add: push_bit_or)
    then have "push_bit 16 (unat a) OR push_bit 8 (unat b) OR unat c
        = push_bit 8 (push_bit 8 (unat a) OR unat b) OR unat c"
      by (simp only: or.assoc [symmetric])
    then show ?thesis
      by (simp add: shift_or_byte)
  qed
  then show ?thesis
    unfolding be24_def be_at_def slice_range_three
    by (cases "slice_at buf at"; cases "slice_at buf (at + 1)"; cases "slice_at buf (at + 2)")
       (simp_all del: be_val_Cons)
qed

lemma be_at_split:
  "buf = xs @ be_bytes k n @ ys \<Longrightarrow> at = length xs \<Longrightarrow> n < 256 ^ k \<Longrightarrow> be_at buf at k = Some n"
  by (simp add: be_at_append)

lemma slice_at_split: "buf = xs @ b # ys \<Longrightarrow> at = length xs \<Longrightarrow> slice_at buf at = Some b"
  using slice_at_append_right [of xs "b # ys" 0] by simp

lemma slice_range_split:
  "buf = xs @ d @ ys \<Longrightarrow> at = length xs \<Longrightarrow> to = length xs + length d \<Longrightarrow> slice_range buf at to = Some d"
  by simp

subsection \<open>The messages the walk reads\<close>

record client_hello =
  h_version :: bytes
  h_random :: bytes
  h_session :: bytes
  h_ciphers :: bytes
  h_compression :: bytes
  h_extensions :: "(nat \<times> bytes) list"

definition hello_extension :: "nat \<times> bytes \<Rightarrow> bytes" where
  "hello_extension e = be_bytes 2 (fst e) @ be_bytes 2 (length (snd e)) @ snd e"

definition hello_extensions :: "(nat \<times> bytes) list \<Rightarrow> bytes" where
  "hello_extensions es = concat (map hello_extension es)"

definition hello_head :: "client_hello \<Rightarrow> bytes" where
  "hello_head h =
     h_version h @ h_random h @ of_nat (length (h_session h)) # h_session h
     @ be_bytes 2 (length (h_ciphers h)) @ h_ciphers h
     @ of_nat (length (h_compression h)) # h_compression h"

definition hello_body :: "client_hello \<Rightarrow> bytes" where
  "hello_body h =
     hello_head h @ be_bytes 2 (length (hello_extensions (h_extensions h)))
     @ hello_extensions (h_extensions h)"

definition hello_message :: "client_hello \<Rightarrow> bytes" where
  "hello_message h = 0x01 # be_bytes 3 (length (hello_body h)) @ hello_body h"

definition hello_record :: "client_hello \<Rightarrow> bytes" where
  "hello_record h = [0x16, 3, 1] @ be_bytes 2 (length (hello_message h)) @ hello_message h"

definition hello_ok :: "client_hello \<Rightarrow> bool" where
  "hello_ok h \<longleftrightarrow>
     length (h_version h) = 2 \<and> length (h_random h) = 32 \<and> length (h_session h) < 256
     \<and> length (h_ciphers h) < 65536 \<and> length (h_compression h) < 256
     \<and> list_all (\<lambda>e. fst e < 65536 \<and> length (snd e) < 65536) (h_extensions h)
     \<and> length (hello_message h) < 65536"

text \<open>The server_name extension of RFC 6066 with one host name.\<close>

definition sni_data :: "bytes \<Rightarrow> bytes" where
  "sni_data name = be_bytes 2 (3 + length name) @ 0x00 # be_bytes 2 (length name) @ name"

lemma first_server_name_data:
  assumes "length name < 65533"
  shows "first_server_name (sni_data name) = plausible_host name"
proof -
  let ?d = "sni_data name"
  have len: "length ?d = 5 + length name"
    by (simp add: sni_data_def)
  have list_len: "be16 ?d 0 = Some (3 + length name)"
    unfolding be16_be_at
    by (rule be_at_split [where xs = "[]"]) (use assms in \<open>simp_all add: sni_data_def\<close>)
  have name_len: "be16 ?d (2 + 1) = Some (length name)"
    unfolding be16_be_at
    by (rule be_at_split [where xs = "be_bytes 2 (3 + length name) @ [0]" and ys = name])
       (use assms in \<open>simp_all add: sni_data_def\<close>)
  have kind: "slice_at ?d 2 = Some 0"
    by (rule slice_at_split [where xs = "be_bytes 2 (3 + length name)"])
       (simp_all add: sni_data_def)
  have host: "slice_range ?d 5 (5 + length name) = Some name"
    by (rule slice_range_split
          [where xs = "be_bytes 2 (3 + length name) @ 0 # be_bytes 2 (length name)" and ys = "[]"])
       (simp_all add: sni_data_def)
  show ?thesis
    unfolding first_server_name_def
    using len list_len name_len kind host
    by (simp add: server_name_entries.simps)
qed

abbreviation sni_of :: "(nat \<times> bytes) list \<Rightarrow> bytes option" where
  "sni_of es \<equiv> map_option snd (List.find (\<lambda>e. fst e = 0) es)"

lemma sni_extension_walk:
  assumes "list_all (\<lambda>e. fst e < 65536 \<and> length (snd e) < 65536) es"
  shows "sni_extension (pre @ hello_extensions es) (length pre + length (hello_extensions es))
           (length pre) = Option.bind (sni_of es) first_server_name"
  using assms
proof (induction es arbitrary: pre)
  case Nil
  then show ?case by (simp add: hello_extensions_def sni_extension.simps)
next
  case (Cons e es)
  obtain k d where e: "e = (k, d)" by (cases e)
  let ?rest = "hello_extensions es"
  have split: "hello_extensions (e # es) = be_bytes 2 k @ be_bytes 2 (length d) @ d @ ?rest"
    by (simp add: hello_extensions_def hello_extension_def e)
  have kind: "be16 (pre @ hello_extensions (e # es)) (length pre) = Some k"
    unfolding be16_be_at split
    by (rule be_at_split [where xs = pre]) (use Cons.prems e in simp_all)
  have len: "be16 (pre @ hello_extensions (e # es)) (length pre + 2) = Some (length d)"
    unfolding be16_be_at split
    by (rule be_at_split [where xs = "pre @ be_bytes 2 k" and ys = "d @ ?rest"])
       (use Cons.prems e in simp_all)
  have data: "slice_range (pre @ hello_extensions (e # es)) (length pre + 4)
      (length pre + 4 + length d) = Some d"
    unfolding split
    by (rule slice_range_split [where xs = "pre @ be_bytes 2 k @ be_bytes 2 (length d)"
          and ys = ?rest]) simp_all
  let ?pre = "pre @ be_bytes 2 k @ be_bytes 2 (length d) @ d"
  have "length ?pre = length pre + 4 + length d"
    "length ?pre + length ?rest = length pre + length (hello_extensions (e # es))"
    "?pre @ ?rest = pre @ hello_extensions (e # es)"
    by (simp_all add: split)
  moreover have "sni_extension (?pre @ ?rest) (length ?pre + length ?rest) (length ?pre)
      = Option.bind (sni_of es) first_server_name"
    by (rule Cons.IH) (use Cons.prems in simp)
  ultimately have rest: "sni_extension (pre @ hello_extensions (e # es))
      (length pre + length (hello_extensions (e # es))) (length pre + 4 + length d)
      = Option.bind (sni_of es) first_server_name"
    by (simp only:)
  have total: "length (hello_extensions (e # es)) = 4 + length d + length ?rest"
    by (simp add: split)
  show ?case
    by (subst sni_extension.simps)
       (use kind len data rest total e in \<open>cases "k = 0"; simp add: add.assoc\<close>)
qed

lemma length_hello_head:
  "hello_ok h \<Longrightarrow> length (hello_head h)
     = 34 + 1 + length (h_session h) + 2 + length (h_ciphers h) + 1 + length (h_compression h)"
  by (simp add: hello_ok_def hello_head_def)

lemma hello_lengths:
  assumes "hello_ok h"
  shows "length (hello_extensions (h_extensions h)) < 65536" and "length (hello_body h) < 65536"
  using assms by (simp_all add: hello_ok_def hello_message_def hello_body_def)

text \<open>
  The four length fields in front of the extensions, read at the offsets the walks compute, in a
  buffer that holds the hello after \<open>pre\<close>.
\<close>

lemma hello_fields:
  assumes ok: "hello_ok h" and buf: "buf = pre @ hello_body h @ rest"
  defines "s \<equiv> length (h_session h)" and "c \<equiv> length (h_ciphers h)" and "n \<equiv> length pre"
  shows "slice_at buf (n + 34) = Some (of_nat s)"
    and "be_at buf (n + 35 + s) 2 = Some c"
    and "slice_at buf (n + 37 + s + c) = Some (of_nat (length (h_compression h)))"
    and "be_at buf (n + length (hello_head h)) 2
           = Some (length (hello_extensions (h_extensions h)))"
proof -
  have size: "length (h_version h) = 2" "length (h_random h) = 32" "c < 65536"
    using ok by (simp_all add: hello_ok_def c_def)
  show "slice_at buf (n + 34) = Some (of_nat s)"
    by (rule slice_at_split [where xs = "pre @ h_version h @ h_random h"])
       (simp_all add: buf hello_body_def hello_head_def s_def n_def size)
  show "be_at buf (n + 35 + s) 2 = Some c"
    by (rule be_at_split [where xs = "pre @ h_version h @ h_random h @ of_nat s # h_session h"])
       (use size(3) in \<open>simp_all add: buf hello_body_def hello_head_def s_def c_def n_def size\<close>)
  show "slice_at buf (n + 37 + s + c) = Some (of_nat (length (h_compression h)))"
    by (rule slice_at_split
          [where xs = "pre @ h_version h @ h_random h @ of_nat s # h_session h
             @ be_bytes 2 c @ h_ciphers h"])
       (simp_all add: buf hello_body_def hello_head_def s_def c_def n_def size)
  show "be_at buf (n + length (hello_head h)) 2
      = Some (length (hello_extensions (h_extensions h)))"
    by (rule be_at_split [where xs = "pre @ hello_head h"])
       (use hello_lengths [OF ok] in \<open>simp_all add: buf hello_body_def n_def\<close>)
qed

lemma tls_sni_hello:
  assumes ok: "hello_ok h"
  shows "tls_sni (hello_record h @ rest) = Option.bind (sni_of (h_extensions h)) first_server_name"
proof -
  let ?buf = "hello_record h @ rest" and ?msg = "hello_message h" and ?body = "hello_body h"
    and ?exts = "hello_extensions (h_extensions h)"
  have "length ?msg < 65536" using ok by (simp add: hello_ok_def)
  then have rlen: "be16 ?buf 3 = Some (length ?msg)"
    unfolding be16_be_at
    by (intro be_at_split [where xs = "[0x16, 3, 1]" and ys = "?msg @ rest"])
       (simp_all add: hello_record_def)
  have msg: "slice_range ?buf 5 (min (5 + length ?msg) (length ?buf)) = Some ?msg"
    by (rule slice_range_split
          [where xs = "[0x16, 3, 1] @ be_bytes 2 (length ?msg)" and ys = rest])
       (simp_all add: hello_record_def)
  have hlen: "be24 ?msg 1 = Some (length ?body)"
    unfolding be24_be_at
    by (rule be_at_split [where xs = "[0x01]" and ys = ?body])
       (use hello_lengths [OF ok] in \<open>simp_all add: hello_message_def\<close>)
  have body: "slice_range ?msg 4 (min (4 + length ?body) (length ?msg)) = Some ?body"
    by (rule slice_range_split [where xs = "0x01 # be_bytes 3 (length ?body)" and ys = "[]"])
       (simp_all add: hello_message_def)
  have first: "slice_at ?buf 0 = Some 0x16" "slice_at ?msg 0 = Some 0x01"
    by (simp_all add: hello_record_def hello_message_def)
  have small: "length (h_session h) < 256" "length (h_compression h) < 256"
    using ok by (simp_all add: hello_ok_def)
  note fields = hello_fields [OF ok, of ?body "[]" "[]", simplified]
  have walk: "sni_extension ?body (length ?body) (length (hello_head h) + 2)
      = Option.bind (sni_of (h_extensions h)) first_server_name"
    using sni_extension_walk [of "h_extensions h" "hello_head h @ be_bytes 2 (length ?exts)"] ok
    by (simp add: hello_body_def hello_ok_def add.assoc)
  have total: "length ?body = length (hello_head h) + 2 + length ?exts"
    by (simp add: hello_body_def)
  show ?thesis
    unfolding tls_sni_def
    using first rlen msg hlen body fields walk total small
    by (simp add: be16_be_at length_hello_head [OF ok] add.assoc)
qed

subsection \<open>What the search returns\<close>

definition host_name_ok :: "string \<Rightarrow> bool" where
  "host_name_ok h \<longleftrightarrow>
     h \<noteq> [] \<and> length h \<le> MAX_HOST_LEN \<and> list_all host_char h \<and> CHR ''.'' \<in> set h
     \<and> last h \<noteq> CHR ''.'' \<and> to_lowercase h = h \<and> (\<forall>a. h \<noteq> show_ipv4 a)"

lemma host_char_lower: "host_char c \<Longrightarrow> host_char (ascii_lower c)"
  by (auto simp: host_char_def ascii_lower_def is_ascii_alphanumeric_def is_ascii_alphabetic_def
      Let_def)

lemma ascii_lower_low:
  assumes "(of_char (ascii_lower c) :: nat) < 65"
  shows "ascii_lower c = c"
  using assms by (auto simp: ascii_lower_def Let_def split: if_splits)

lemma show_ipv4_chars:
  "c \<in> set (show_ipv4 a) \<Longrightarrow> (of_char c :: nat) < 65"
proof -
  assume c: "c \<in> set (show_ipv4 a)"
  have digit: "(of_char d :: nat) < 65" if "d \<in> set (show_nat n)" for d n
    using show_nat_digits [OF that] by (simp add: is_ascii_digit_def Let_def)
  from c show ?thesis
    by (auto simp: show_ipv4_def split: list.splits dest: digit)
qed

lemma lower_ipv4: "to_lowercase s = show_ipv4 a \<Longrightarrow> s = show_ipv4 a"
proof -
  assume eq: "to_lowercase s = show_ipv4 a"
  have "ascii_lower c = c" if "c \<in> set s" for c
  proof (rule ascii_lower_low, rule show_ipv4_chars)
    show "ascii_lower c \<in> set (show_ipv4 a)"
      using that by (simp add: to_lowercase_def flip: eq)
  qed
  then have "to_lowercase s = s"
    by (simp add: to_lowercase_def map_idI)
  with eq show ?thesis by simp
qed

lemma last_trim_end_matches:
  "trim_end_matches P s \<noteq> [] \<Longrightarrow> \<not> P (last (trim_end_matches P s))"
  by (metis hd_dropWhile last_rev rev_is_Nil_conv trim_end_matches_def)

lemma ascii_lower_dot [simp]: "ascii_lower c = CHR ''.'' \<longleftrightarrow> c = CHR ''.''"
proof
  assume "ascii_lower c = CHR ''.''"
  then show "c = CHR ''.''"
    using ascii_lower_low [of c] by simp
qed (simp add: ascii_lower_def)

lemma plausible_host_ok: "plausible_host raw = Some h \<Longrightarrow> host_name_ok h"
proof -
  assume "plausible_host raw = Some h"
  then obtain s name where name: "name \<noteq> []" "length name \<le> MAX_HOST_LEN" "list_all host_char name"
      "CHR ''.'' \<in> set name" "parse_ip_addr name = None" "h = to_lowercase name"
      and s: "name = trim_end_matches (\<lambda>c. c = CHR ''.'') (str_trim s)"
    unfolding plausible_host_def Let_def by (auto split: if_splits simp: not_less)
  then have "last name \<noteq> CHR ''.''"
    using last_trim_end_matches s by blast
  moreover have "name \<noteq> show_ipv4 a" for a
    using name(5) by (auto simp: parse_ip_addr_show_ipv4)
  moreover have "CHR ''.'' \<in> ascii_lower ` set name"
    using name(4) ascii_lower_dot by (metis imageI)
  ultimately show ?thesis
    using name lower_ipv4 [of name]
    by (auto simp: host_name_ok_def to_lowercase_def list_all_iff host_char_lower last_map)
qed

lemma server_name_entries_ok:
  "server_name_entries data stop at = Some h \<Longrightarrow> host_name_ok h"
proof (induction data stop at rule: server_name_entries.induct)
  case (1 data stop at)
  then show ?case
    by (subst (asm) (2) server_name_entries.simps)
       (auto simp: Let_def plausible_host_ok split: if_splits option.splits)
qed

lemma sni_extension_ok: "sni_extension hello stop at = Some h \<Longrightarrow> host_name_ok h"
proof (induction hello stop at rule: sni_extension.induct)
  case (1 hello stop at)
  then show ?case
    by (subst (asm) (2) sni_extension.simps)
       (auto simp: Let_def first_server_name_def server_name_entries_ok
        split: if_splits option.splits)
qed

lemma host_line_ok: "host_line ls = Some h \<Longrightarrow> host_name_ok h"
  by (induction ls rule: host_line.induct)
     (auto simp: Let_def plausible_host_ok split: if_splits option.splits)

text \<open>
  C26: Whatever the first bytes of a connection are, a name recovered from them is fit for the
  routing rules: at most 253 characters, all from the host alphabet and in lower case, at least
  one dot and none at the end, and never an IPv4 literal.
\<close>

theorem sniffed_name_well_formed:
  assumes "hostname buf = Some h"
  shows "host_name_ok h"
  using assms
  by (auto simp: hostname_def tls_sni_def http_host_def Let_def
      intro: sni_extension_ok host_line_ok split: option.splits if_splits list.splits)

lemma find_first:
  "list_all (\<lambda>e. fst e \<noteq> 0) before \<Longrightarrow>
   List.find (\<lambda>e. fst e = (0 :: nat)) (before @ (0, d) # after) = Some (0, d)"
  by (induction before) auto

theorem sniffed_name_well_formed_witness:
  "hostname (bytes_of_text (''GET / HTTP/1.1'' @ [CHR 0x0D, CHR 0x0A] @ ''Host: WWW.Example.com:80''
     @ [CHR 0x0D, CHR 0x0A, CHR 0x0D, CHR 0x0A])) = Some ''www.example.com''
   \<and> host_name_ok ''www.example.com''"
proof -
  have e: "hostname (bytes_of_text (''GET / HTTP/1.1'' @ [CHR 0x0D, CHR 0x0A]
      @ ''Host: WWW.Example.com:80'' @ [CHR 0x0D, CHR 0x0A, CHR 0x0D, CHR 0x0A]))
      = Some ''www.example.com''"
    by code_simp
  from sniffed_name_well_formed [OF e] e show ?thesis by simp
qed

text \<open>
  C25: For every ClientHello record, with any session, cipher suites, compression methods and
  extensions, whose first server_name extension names one host, the name recovered is that host
  as \<open>plausible_host\<close> normalises it, no matter what follows the record.
\<close>

theorem tls_sni_reads_client_hello:
  assumes "hello_ok h"
    and "h_extensions h = before @ (0, sni_data name) # after"
    and "list_all (\<lambda>e. fst e \<noteq> 0) before"
    and "length name < 65533"
  shows "tls_sni (hello_record h @ rest) = plausible_host name"
proof -
  have "List.find (\<lambda>e. fst e = 0) (h_extensions h) = Some (0, sni_data name)"
    by (simp add: assms(2) find_first [OF assms(3)])
  then show ?thesis
    using tls_sni_hello [OF assms(1)] first_server_name_data [OF assms(4)] by simp
qed

definition sample_hello :: client_hello where
  "sample_hello =
     \<lparr>h_version = [3, 3], h_random = replicate 32 0x11, h_session = [7, 8],
      h_ciphers = [0x13, 0x01], h_compression = [0],
      h_extensions =
        [(0x002b, [3, 4]), (0, sni_data (bytes_of_text ''Example.COM.'')), (0x0010, [0])]\<rparr>"

theorem tls_sni_reads_client_hello_witness:
  "tls_sni (hello_record sample_hello @ [1, 2, 3]) = Some ''example.com''"
proof -
  have ok: "hello_ok sample_hello" by code_simp
  have name: "plausible_host (bytes_of_text ''Example.COM.'') = Some ''example.com''" by code_simp
  have "tls_sni (hello_record sample_hello @ [1, 2, 3])
      = plausible_host (bytes_of_text ''Example.COM.'')"
    by (rule tls_sni_reads_client_hello
          [where before = "[(0x002b, [3, 4])]" and after = "[(0x0010, [0])]", OF ok])
       (simp_all add: sample_hello_def bytes_of_text_def)
  with name show ?thesis by simp
qed

end
