(* ===== verification/Fragment.thy ===== *)
theory Fragment
  imports Sniff
begin

text \<open>
  Splitting the first writes of a TLS connection into small segments:
  \<open>engine/aether/src/fragment.rs\<close>.  The random number generator, the clock and the stream
  underneath are arguments: \<open>random_range lo hi\<close> is the draw of \<open>rand\<close> from the closed range,
  \<open>now\<close> the time of the call in milliseconds, and \<open>inner_write\<close> the wrapped stream's
  \<open>poll_write\<close>.
\<close>

record fragment_config =
  fc_enabled :: bool
  size_min :: nat
  size_max :: nat
  delay_min_ms :: nat
  delay_max_ms :: nat
  sni_split :: bool

definition fragment_disabled :: fragment_config where
  "fragment_disabled =
     \<lparr>fc_enabled = False, size_min = 1, size_max = 1, delay_min_ms = 0, delay_max_ms = 0,
      sni_split = False\<rparr>"

definition is_truthy :: "string \<Rightarrow> bool" where
  "is_truthy v \<longleftrightarrow> to_lowercase (str_trim v) \<in> {''1'', ''true'', ''yes'', ''on''}"

definition parse_u64_or :: "nat \<Rightarrow> string \<Rightarrow> nat" where
  "parse_u64_or d s = (case parse_unsigned (2 ^ 64 - 1) s of Some v \<Rightarrow> v | None \<Rightarrow> d)"

definition parse_range :: "string \<Rightarrow> nat \<times> nat \<Rightarrow> nat \<times> nat" where
  "parse_range spec dflt =
     (let spec = str_trim spec
      in if spec = [] then dflt
         else (case split_once (CHR ''-'') spec of
                 Some (a, b) \<Rightarrow>
                   (let lo = parse_u64_or (fst dflt) (str_trim a);
                        hi = parse_u64_or (snd dflt) (str_trim b)
                    in if hi < lo then (hi, lo) else (lo, hi))
               | None \<Rightarrow> (let v = parse_u64_or (fst dflt) spec in (v, v))))"

definition env_truthy :: "env \<Rightarrow> string \<Rightarrow> bool" where
  "env_truthy env name = (case env name of Some v \<Rightarrow> is_truthy v | None \<Rightarrow> False)"

definition env_or_empty :: "env \<Rightarrow> string \<Rightarrow> string" where
  "env_or_empty env name = (case env name of Some v \<Rightarrow> v | None \<Rightarrow> [])"

definition fragment_from_env :: "env \<Rightarrow> fragment_config" where
  "fragment_from_env env =
     (let (size_lo, size_hi) =
            parse_range (env_or_empty env ''AETHER_MASQUE_H2_FRAGMENT_SIZE'') (8, 16);
          (delay_lo, delay_hi) =
            parse_range (env_or_empty env ''AETHER_MASQUE_H2_FRAGMENT_DELAY'') (2, 10);
          size_lo = max size_lo 1
      in \<lparr>fc_enabled = env_truthy env ''AETHER_MASQUE_H2_FRAGMENT'',
          size_min = size_lo, size_max = max size_hi size_lo,
          delay_min_ms = delay_lo, delay_max_ms = max delay_hi delay_lo,
          sni_split = env_truthy env ''AETHER_MASQUE_H2_FRAGMENT_SNI''\<rparr>)"

definition pick_chunk_len ::
  "(nat \<Rightarrow> nat \<Rightarrow> nat) \<Rightarrow> fragment_config \<Rightarrow> nat \<Rightarrow> nat" where
  "pick_chunk_len random_range cfg remaining =
     (let hi = min (max (size_max cfg) 1) remaining;
          lo = min (max (size_min cfg) 1) hi
      in if hi \<le> lo then hi else random_range lo hi)"

definition pick_delay :: "(nat \<Rightarrow> nat \<Rightarrow> nat) \<Rightarrow> fragment_config \<Rightarrow> nat" where
  "pick_delay random_range cfg =
     (if delay_max_ms cfg = 0 then 0
      else if delay_max_ms cfg \<le> delay_min_ms cfg then delay_min_ms cfg
      else random_range (delay_min_ms cfg) (delay_max_ms cfg))"

subsection \<open>The host name in a ClientHello\<close>

definition take_be :: "bytes \<Rightarrow> nat \<Rightarrow> nat \<Rightarrow> nat option" where
  "take_be buf at n =
     map_option (foldl (\<lambda>acc b. push_bit 8 acc OR unat b) 0) (slice_range buf at (at + n))"

function host_extension :: "bytes \<Rightarrow> nat \<Rightarrow> nat \<Rightarrow> (nat \<times> nat) option" where
  "host_extension buf extensions_end at =
     (if at + 4 \<le> extensions_end then
        (case (take_be buf at 2, take_be buf (at + 2) 2) of
           (Some kind, Some len) \<Rightarrow>
             (let body = at + 4
              in if kind = 0x0000 then
                   (let entry = body + 2
                    in case take_be buf entry 1 of
                         None \<Rightarrow> None
                       | Some t \<Rightarrow>
                           if t \<noteq> 0 then None
                           else (case take_be buf (entry + 1) 2 of
                                   None \<Rightarrow> None
                                 | Some host_len \<Rightarrow>
                                     (let host = entry + 3
                                      in if host_len = 0 \<or> length buf < host + host_len then None
                                         else Some (host, host + host_len))))
                 else host_extension buf extensions_end (body + len))
         | _ \<Rightarrow> None)
      else None)"
  by pat_completeness auto
termination
  by (relation "measure (\<lambda>(buf, extensions_end, at). extensions_end - at)") auto

declare host_extension.simps [simp del]

definition sni_host_range :: "bytes \<Rightarrow> (nat \<times> nat) option" where
  "sni_host_range buf = do {
     first \<leftarrow> slice_at buf 0;
     if first \<noteq> 0x16 then None else do {
       kind \<leftarrow> slice_at buf 5;
       if kind \<noteq> 0x01 then None else do {
         let at = 43;
         n \<leftarrow> take_be buf at 1;
         let at = at + (1 + n);
         n \<leftarrow> take_be buf at 2;
         let at = at + (2 + n);
         n \<leftarrow> take_be buf at 1;
         let at = at + (1 + n);
         n \<leftarrow> take_be buf at 2;
         host_extension buf (at + 2 + n) (at + 2)
       }
     }
   }"

subsection \<open>The stream\<close>

datatype 'a poll = Pending | Ready 'a

datatype io_error = IoError string

type_synonym 's writer = "'s \<Rightarrow> bytes \<Rightarrow> (io_error + nat) poll \<times> 's"

record 's fragmenting_stream =
  fs_inner :: 's
  fs_cfg :: fragment_config
  fragmenting :: bool
  first_write :: bool
  pending_delay :: "nat option"

definition fragmenting_stream_new :: "'s \<Rightarrow> fragment_config \<Rightarrow> 's fragmenting_stream" where
  "fragmenting_stream_new inner cfg =
     \<lparr>fs_inner = inner, fs_cfg = cfg, fragmenting = fc_enabled cfg, first_write = True,
      pending_delay = None\<rparr>"

definition fragment_poll_read ::
  "('s \<Rightarrow> 'r \<times> 's) \<Rightarrow> 's fragmenting_stream \<Rightarrow> 'r \<times> 's fragmenting_stream" where
  "fragment_poll_read inner_read this =
     (case inner_read (fs_inner this) of
        (r, inner) \<Rightarrow> (r, this\<lparr>fragmenting := False, fs_inner := inner\<rparr>))"

definition pass_write ::
  "'s writer \<Rightarrow> 's fragmenting_stream \<Rightarrow> bytes \<Rightarrow> (io_error + nat) poll \<times> 's fragmenting_stream" where
  "pass_write inner_write this buf =
     (case inner_write (fs_inner this) buf of (r, inner) \<Rightarrow> (r, this\<lparr>fs_inner := inner\<rparr>))"

definition chunk_len ::
  "(nat \<Rightarrow> nat \<Rightarrow> nat) \<Rightarrow> 's fragmenting_stream \<Rightarrow> bytes \<Rightarrow> nat" where
  "chunk_len random_range this buf =
     (let targeted =
            (if first_write this \<and> sni_split (fs_cfg this)
             then map_option (\<lambda>(start, stop). start + (stop - start) div 2) (sni_host_range buf)
             else None)
      in case targeted of
           Some split \<Rightarrow>
             if 0 < split \<and> split < length buf then split
             else pick_chunk_len random_range (fs_cfg this) (length buf)
         | None \<Rightarrow> pick_chunk_len random_range (fs_cfg this) (length buf))"

definition fragment_poll_write ::
  "(nat \<Rightarrow> nat \<Rightarrow> nat) \<Rightarrow> 's writer \<Rightarrow> nat \<Rightarrow> 's fragmenting_stream \<Rightarrow> bytes
    \<Rightarrow> (io_error + nat) poll \<times> 's fragmenting_stream" where
  "fragment_poll_write random_range inner_write now this buf =
     (if buf = [] \<or> \<not> fragmenting this then pass_write inner_write this buf
      else if (case pending_delay this of None \<Rightarrow> False | Some at \<Rightarrow> now < at) then (Pending, this)
      else (let this = this\<lparr>pending_delay := None\<rparr>
            in case pass_write inner_write this (take (chunk_len random_range this buf) buf) of
                 (Ready (Inr n), this) \<Rightarrow>
                   (if 0 < n then
                      (let this = this\<lparr>first_write := False\<rparr>;
                           delay = pick_delay random_range (fs_cfg this)
                       in (Ready (Inr n),
                           if delay = 0 then this
                           else this\<lparr>pending_delay := Some (now + delay)\<rparr>))
                    else (Ready (Inr n), this))
               | other \<Rightarrow> other))"

subsection \<open>Chunks\<close>

definition range_law :: "(nat \<Rightarrow> nat \<Rightarrow> nat) \<Rightarrow> bool" where
  "range_law random_range \<longleftrightarrow> (\<forall>lo hi. lo \<le> hi \<longrightarrow> lo \<le> random_range lo hi \<and> random_range lo hi \<le> hi)"

lemma range_lawD:
  "range_law r \<Longrightarrow> lo \<le> hi \<Longrightarrow> lo \<le> r lo hi" "range_law r \<Longrightarrow> lo \<le> hi \<Longrightarrow> r lo hi \<le> hi"
  by (auto simp: range_law_def)

lemma pick_chunk_len_bounds:
  assumes "range_law random_range" and "0 < remaining"
  shows "1 \<le> pick_chunk_len random_range cfg remaining"
    and "pick_chunk_len random_range cfg remaining \<le> remaining"
proof -
  define hi where "hi = min (max (size_max cfg) 1) remaining"
  define lo where "lo = min (max (size_min cfg) 1) hi"
  have "lo \<le> hi" by (simp add: lo_def)
  moreover have "1 \<le> lo" "hi \<le> remaining"
    using assms(2) by (simp_all add: lo_def hi_def)
  moreover have "pick_chunk_len random_range cfg remaining
      = (if hi \<le> lo then hi else random_range lo hi)"
    by (simp only: pick_chunk_len_def Let_def lo_def hi_def)
  ultimately show "1 \<le> pick_chunk_len random_range cfg remaining"
    and "pick_chunk_len random_range cfg remaining \<le> remaining"
    using range_lawD [OF assms(1) \<open>lo \<le> hi\<close>] by (auto split: if_split)
qed

lemma chunk_len_bounds:
  assumes "range_law random_range" and "buf \<noteq> []"
  shows "1 \<le> chunk_len random_range this buf \<and> chunk_len random_range this buf \<le> length buf"
  using pick_chunk_len_bounds [OF assms(1), of "length buf" "fs_cfg this"] assms(2)
  by (auto simp: chunk_len_def Let_def split: option.splits)

subsection \<open>Locating the host name\<close>

lemma take_be_be_at: "take_be buf at n = be_at buf at n"
  unfolding take_be_def be_at_def be_val_shift_or by (simp add: be_val_def [abs_def])

lemma take_be_one: "take_be buf at 1 = map_option unat (slice_at buf at)"
proof -
  have "slice_range d 0 1 = map_option (\<lambda>b. [b]) (slice_at d 0)" for d :: bytes
    by (cases d) (simp_all add: slice_range_def)
  then have "slice_range buf at (at + 1) = map_option (\<lambda>b. [b]) (slice_at buf at)"
    using slice_range_drop [of 1 buf at] by (simp add: slice_at_drop)
  then show ?thesis
    by (cases "slice_at buf at") (simp_all add: take_be_be_at be_at_def)
qed

lemma host_extension_here:
  assumes "buf = pre @ hello_extension (0, sni_data name) @ rest"
    and "name \<noteq> []" and "length name < 65531" and "length pre + 4 \<le> stop"
  shows "host_extension buf stop (length pre) = Some (length pre + 9, length pre + 9 + length name)"
proof -
  let ?n = "length name"
  have size: "length (sni_data name) = 5 + ?n" by (simp add: sni_data_def)
  have split: "buf = pre @ be_bytes 2 0 @ be_bytes 2 (5 + ?n) @ be_bytes 2 (3 + ?n)
      @ 0 # be_bytes 2 ?n @ name @ rest"
    using assms(1) unfolding hello_extension_def fst_conv snd_conv size
    by (simp add: sni_data_def)
  have kind: "take_be buf (length pre) 2 = Some 0"
    unfolding take_be_be_at by (rule be_at_split [OF split]) simp_all
  have len: "take_be buf (length pre + 2) 2 = Some (5 + ?n)"
    unfolding take_be_be_at
    by (rule be_at_split [where xs = "pre @ be_bytes 2 0"
          and ys = "be_bytes 2 (3 + ?n) @ 0 # be_bytes 2 ?n @ name @ rest"])
       (use assms(3) split in simp_all)
  have type: "take_be buf (length pre + 4 + 2) 1 = Some 0"
    unfolding take_be_one
    by (subst slice_at_split [where b = 0 and ys = "be_bytes 2 ?n @ name @ rest"
          and xs = "pre @ be_bytes 2 0 @ be_bytes 2 (5 + ?n) @ be_bytes 2 (3 + ?n)"])
       (simp_all add: split)
  have hlen: "take_be buf (length pre + 4 + 2 + 1) 2 = Some ?n"
    unfolding take_be_be_at
    by (rule be_at_split [where ys = "name @ rest"
          and xs = "pre @ be_bytes 2 0 @ be_bytes 2 (5 + ?n) @ be_bytes 2 (3 + ?n) @ [0]"])
       (use assms(3) split in simp_all)
  have total: "length buf = length pre + 9 + ?n + length rest"
    by (simp add: split)
  show ?thesis
    by (subst host_extension.simps)
       (use kind len type hlen total assms(2,4) in \<open>simp add: Let_def\<close>)
qed

lemma host_extension_walk:
  assumes "list_all (\<lambda>e. fst e \<noteq> 0 \<and> fst e < 65536 \<and> length (snd e) < 65536) before"
    and "buf = pre @ hello_extensions before @ hello_extension (0, sni_data name) @ rest"
    and "name \<noteq> []" and "length name < 65531"
    and "length pre + length (hello_extensions before) + 4 \<le> stop"
  shows "host_extension buf stop (length pre)
    = Some (length pre + length (hello_extensions before) + 9,
            length pre + length (hello_extensions before) + 9 + length name)"
  using assms
proof (induction before arbitrary: pre)
  case Nil
  then show ?case
    using host_extension_here [of buf pre name rest stop] by (simp add: hello_extensions_def)
next
  case (Cons e es)
  obtain k d where e: "e = (k, d)" by (cases e)
  let ?tail = "hello_extensions es @ hello_extension (0, sni_data name) @ rest"
  let ?pre = "pre @ be_bytes 2 k @ be_bytes 2 (length d) @ d"
  have size: "k < 65536" "length d < 65536" "k \<noteq> 0"
    using Cons.prems(1) e by simp_all
  have split: "buf = pre @ be_bytes 2 k @ be_bytes 2 (length d) @ d @ ?tail"
    using Cons.prems(2) by (simp add: hello_extensions_def hello_extension_def e)
  have ext: "length (hello_extensions (e # es)) = 4 + length d + length (hello_extensions es)"
    by (simp add: hello_extensions_def hello_extension_def e)
  have kind: "take_be buf (length pre) 2 = Some k"
    unfolding take_be_be_at by (rule be_at_split [OF split]) (use size in simp_all)
  have len: "take_be buf (length pre + 2) 2 = Some (length d)"
    unfolding take_be_be_at
    by (rule be_at_split [where xs = "pre @ be_bytes 2 k" and ys = "d @ ?tail"])
       (use size split in simp_all)
  have at: "length ?pre = length pre + 4 + length d" by simp
  have "host_extension buf stop (length ?pre)
    = Some (length ?pre + length (hello_extensions es) + 9,
            length ?pre + length (hello_extensions es) + 9 + length name)"
    by (rule Cons.IH) (use Cons.prems split ext in simp_all)
  note IH = this [unfolded at]
  have "length pre + 4 \<le> stop" using Cons.prems(5) by linarith
  then show ?case
    by (subst host_extension.simps) (use kind len size(3) ext IH in \<open>simp add: Let_def\<close>)
qed

lemma sni_host_range_hello:
  assumes ok: "hello_ok h"
    and exts: "h_extensions h = before @ (0, sni_data name) # after"
    and before: "list_all (\<lambda>e. fst e \<noteq> 0) before"
    and name: "name \<noteq> []" "length name < 65531"
  defines "s \<equiv> 9 + length (hello_head h) + 2 + length (hello_extensions before) + 9"
  shows "sni_host_range (hello_record h @ rest) = Some (s, s + length name)"
    and "slice_range (hello_record h @ rest) s (s + length name) = Some name"
proof -
  let ?buf = "hello_record h @ rest"
    and ?exts = "hello_extensions (h_extensions h)"
    and ?tail = "hello_extensions after @ rest"
  define pre where
    "pre = [0x16, 3, 1] @ be_bytes 2 (length (hello_message h)) @ 0x01
       # be_bytes 3 (length (hello_body h))"
  have pre: "length pre = 9" and buf: "?buf = pre @ hello_body h @ rest"
    by (simp_all add: pre_def hello_record_def hello_message_def)
  have es: "?exts = hello_extensions before @ hello_extension (0, sni_data name)
      @ hello_extensions after"
    by (simp add: exts hello_extensions_def)
  note fields = hello_fields [OF ok buf, unfolded pre]
  have first: "slice_at ?buf 0 = Some 0x16" "slice_at ?buf 5 = Some 0x01"
    by (simp add: hello_record_def,
        rule slice_at_split [where xs = "[0x16, 3, 1] @ be_bytes 2 (length (hello_message h))"])
       (simp_all add: hello_record_def hello_message_def)
  define P where "P = pre @ hello_head h @ be_bytes 2 (length ?exts)"
  have P: "length P = 9 + length (hello_head h) + 2"
    by (simp add: P_def pre)
  have split: "?buf = P @ hello_extensions before @ hello_extension (0, sni_data name) @ ?tail"
    by (simp add: buf hello_body_def es P_def)
  have at: "length P + length (hello_extensions before) + 9 = s"
    by (simp add: s_def P)
  have "list_all (\<lambda>e. fst e \<noteq> 0 \<and> fst e < 65536 \<and> length (snd e) < 65536) before"
    using ok before by (auto simp: hello_ok_def exts list_all_iff)
  moreover have "length P + length (hello_extensions before) + 4 \<le> length P + length ?exts"
    by (simp add: es hello_extension_def)
  ultimately have walk: "host_extension ?buf (length P + length ?exts) (length P)
      = Some (s, s + length name)"
    using host_extension_walk [OF _ split name] unfolding at by blast
  have small: "length (h_session h) < 256" "length (h_compression h) < 256"
    using ok by (simp_all add: hello_ok_def)
  show "sni_host_range ?buf = Some (s, s + length name)"
    unfolding sni_host_range_def Let_def
    using first fields walk small
    by (simp add: take_be_be_at [of _ _ 2] take_be_one [simplified] length_hello_head [OF ok] P
        add.assoc)
  show "slice_range ?buf s (s + length name) = Some name"
    by (rule slice_range_split [where ys = ?tail and xs = "P @ hello_extensions before
          @ be_bytes 2 0 @ be_bytes 2 (length (sni_data name)) @ be_bytes 2 (3 + length name)
          @ 0 # be_bytes 2 (length name)"])
       (simp_all add: split hello_extension_def sni_data_def s_def P)
qed

subsection \<open>Writing through the stream\<close>

text \<open>
  What \<open>AsyncWrite::poll_write\<close> documents: a ready result counts bytes taken from the front of
  the buffer, and nothing is taken otherwise.  \<open>written\<close> is what the stream took so far.
\<close>

definition writer_law :: "'s writer \<Rightarrow> ('s \<Rightarrow> bytes) \<Rightarrow> bool" where
  "writer_law w written \<longleftrightarrow>
     (\<forall>s buf r s'. w s buf = (r, s') \<longrightarrow>
        (case r of Ready (Inr n) \<Rightarrow> n \<le> length buf \<and> written s' = written s @ take n buf
         | _ \<Rightarrow> written s' = written s))"

lemma writer_lawD:
  assumes "writer_law w written" and "w s buf = (r, s')"
  shows "case r of Ready (Inr n) \<Rightarrow> n \<le> length buf \<and> written s' = written s @ take n buf
         | _ \<Rightarrow> written s' = written s"
  using assms unfolding writer_law_def by blast

text \<open>The wrapper keeps the contract of the stream it wraps.\<close>

lemma fragment_writer_law:
  assumes w: "writer_law w written"
  shows "writer_law (fragment_poll_write rr w now) (written \<circ> fs_inner)"
  unfolding writer_law_def
proof (intro allI impI)
  fix s :: "'a fragmenting_stream" and buf r s'
  assume run: "fragment_poll_write rr w now s buf = (r, s')"
  define chunk where
    "chunk = (if buf = [] \<or> \<not> fragmenting s then buf
              else take (chunk_len rr (s\<lparr>pending_delay := None\<rparr>) buf) buf)"
  obtain q i where q: "w (fs_inner s) chunk = (q, i)" by (cases "w (fs_inner s) chunk")
  note law = writer_lawD [OF w q]
  have "(r = Pending \<and> s' = s) \<or> (r = q \<and> fs_inner s' = i)"
    using run q
    by (auto simp: fragment_poll_write_def pass_write_def chunk_def Let_def
        split: if_splits option.splits poll.splits sum.splits prod.splits)
  moreover have "take n chunk = take n buf \<and> n \<le> length buf" if "n \<le> length chunk" for n
    using that by (auto simp: chunk_def split: if_splits)
  ultimately show "case r of
      Ready (Inr n) \<Rightarrow> n \<le> length buf \<and> (written \<circ> fs_inner) s' = (written \<circ> fs_inner) s @ take n buf
    | _ \<Rightarrow> (written \<circ> fs_inner) s' = (written \<circ> fs_inner) s"
    using law by (auto split: poll.splits sum.splits)
qed

text \<open>A caller that polls at the given times and moves on by what was taken.\<close>

fun write_at :: "(nat \<Rightarrow> 's writer) \<Rightarrow> nat list \<Rightarrow> 's \<Rightarrow> bytes \<Rightarrow> 's \<times> bytes" where
  "write_at w [] s buf = (s, buf)"
| "write_at w (t # ts) s buf =
     (case w t s buf of
        (Ready (Inr n), s') \<Rightarrow> write_at w ts s' (drop n buf)
      | (_, s') \<Rightarrow> write_at w ts s' buf)"

lemma write_at_conserves:
  assumes "\<And>t. writer_law (w t) written"
  shows "written (fst (write_at w ts s buf)) @ snd (write_at w ts s buf) = written s @ buf"
proof (induction ts arbitrary: s buf)
  case Nil
  then show ?case by simp
next
  case (Cons t ts)
  obtain r s' where r: "w t s buf = (r, s')" by (cases "w t s buf")
  with writer_lawD [OF assms r] Cons show ?case
    by (auto split: poll.splits sum.splits)
qed

text \<open>
  C30: Fragmenting only cuts: however the chunk sizes and delays are drawn and whenever the caller
  polls, the bytes the wrapped stream took followed by the bytes still to be written are the bytes
  written before followed by the whole buffer.  Nothing is lost, repeated or reordered.
\<close>

theorem fragmenting_conserves_bytes:
  assumes "writer_law inner_write written"
  shows "(case write_at (fragment_poll_write random_range inner_write) polls this buf of
            (this', rest) \<Rightarrow> written (fs_inner this') @ rest = written (fs_inner this) @ buf)"
  using write_at_conserves [of "fragment_poll_write random_range inner_write" "written \<circ> fs_inner"
      polls this buf] fragment_writer_law [OF assms]
  by (simp add: case_prod_beta)

text \<open>A stream that takes at most five bytes of a write and remembers them.\<close>

definition five_at_a_time :: "bytes writer" where
  "five_at_a_time s buf = (Ready (Inr (min 5 (length buf))), s @ take 5 buf)"

definition small_chunks :: fragment_config where
  "small_chunks =
     \<lparr>fc_enabled = True, size_min = 2, size_max = 3, delay_min_ms = 0, delay_max_ms = 1,
      sni_split = True\<rparr>"

lemma five_at_a_time_law: "writer_law five_at_a_time (\<lambda>s. s)"
  by (auto simp: writer_law_def five_at_a_time_def min_def)

theorem fragmenting_conserves_bytes_witness:
  "(case write_at (fragment_poll_write max five_at_a_time) [0, 1, 2]
           (fragmenting_stream_new [9] small_chunks) [1, 2, 3, 4, 5, 6, 7] of
      (this', rest) \<Rightarrow> fs_inner this' @ rest = [9, 1, 2, 3, 4, 5, 6, 7] \<and> rest = [])"
proof -
  have "snd (write_at (fragment_poll_write max five_at_a_time) [0, 1, 2]
      (fragmenting_stream_new [9] small_chunks) [1, 2, 3, 4, 5, 6, 7]) = []"
    by code_simp
  with fragmenting_conserves_bytes [OF five_at_a_time_law, where random_range = max
      and polls = "[0, 1, 2]" and this = "fragmenting_stream_new [9] small_chunks"
      and buf = "[1, 2, 3, 4, 5, 6, 7]"]
  show ?thesis
    by (simp add: case_prod_beta fragmenting_stream_new_def)
qed

text \<open>
  C23: With the split at the server name on, the first write of a ClientHello hands the wrapped
  stream a segment that ends strictly inside the host name, for every ClientHello whose host name
  has at least two bytes, and the name so cut is the one the sniffer reads.
\<close>

theorem first_segment_cuts_host_name:
  assumes "hello_ok h"
    and "h_extensions h = before @ (0, sni_data name) # after"
    and "list_all (\<lambda>e. fst e \<noteq> 0) before"
    and "2 \<le> length name" and "length name < 65531"
    and "fc_enabled cfg" and "sni_split cfg"
  shows "\<exists>start cut.
      slice_range (hello_record h @ rest) start (start + length name) = Some name
      \<and> start < cut \<and> cut < start + length name
      \<and> tls_sni (hello_record h @ rest) = plausible_host name
      \<and> fs_inner (snd (fragment_poll_write random_range inner_write now
            (fragmenting_stream_new inner cfg) (hello_record h @ rest)))
          = snd (inner_write inner (take cut (hello_record h @ rest)))"
proof -
  let ?buf = "hello_record h @ rest" and ?st = "fragmenting_stream_new inner cfg"
  have name: "name \<noteq> []" using assms(4) by auto
  obtain s where range: "sni_host_range ?buf = Some (s, s + length name)"
    and host: "slice_range ?buf s (s + length name) = Some name"
    using sni_host_range_hello [OF assms(1-3) name assms(5)] by blast
  let ?cut = "s + length name div 2"
  have "s + length name \<le> length ?buf"
    using host by (simp add: slice_range_def split: if_splits)
  moreover have "s < ?cut" "?cut < s + length name"
    using assms(4) by auto
  ultimately have "chunk_len random_range (?st\<lparr>pending_delay := None\<rparr>) ?buf = ?cut"
    using range assms(7)
    by (simp add: chunk_len_def fragmenting_stream_new_def)
  then have "fs_inner (snd (fragment_poll_write random_range inner_write now ?st ?buf))
      = snd (inner_write inner (take ?cut ?buf))"
    using assms(6)
    by (auto simp: fragment_poll_write_def pass_write_def fragmenting_stream_new_def Let_def
        hello_record_def split: prod.splits poll.splits sum.splits)
  moreover have "tls_sni ?buf = plausible_host name"
    using tls_sni_hello [OF assms(1)] first_server_name_data [of name] assms(5)
    by (simp add: assms(2) find_first [OF assms(3)])
  ultimately show ?thesis
    using host \<open>s < ?cut\<close> \<open>?cut < s + length name\<close> by blast
qed

theorem first_segment_cuts_host_name_witness:
  "\<exists>start cut. start < cut \<and> cut < start + 12
     \<and> slice_range (hello_record sample_hello) start (start + 12)
         = Some (bytes_of_text ''Example.COM.'')
     \<and> fs_inner (snd (fragment_poll_write max five_at_a_time 0
           (fragmenting_stream_new [] small_chunks) (hello_record sample_hello)))
         = snd (five_at_a_time [] (take cut (hello_record sample_hello)))"
proof -
  have ok: "hello_ok sample_hello" by code_simp
  have size: "length (bytes_of_text ''Example.COM.'') = 12"
    by (simp add: bytes_of_text_def)
  show ?thesis
    using first_segment_cuts_host_name [OF ok, of "[(0x002b, [3, 4])]"
        "bytes_of_text ''Example.COM.''" "[(0x0010, [0])]" small_chunks "[]" max five_at_a_time 0 "[]"]
    by (auto simp: size sample_hello_def small_chunks_def)
qed

end
