(* ===== verification/Routing.thy ===== *)
theory Routing
  imports Std_Net
begin

text \<open>
  The routing rules: \<open>engine/aether/src/routing.rs\<close>.  The regular expressions of the
  \<open>regex\<close> crate and the networks of \<open>ipnet\<close> are arguments, gathered in a record of the
  functions the code calls.
\<close>

record ('r, 'n) rule_crates =
  regex_new :: "string \<Rightarrow> 'r option"
  regex_is_match :: "'r \<Rightarrow> string \<Rightarrow> bool"
  ipnet_parse :: "string \<Rightarrow> 'n option"
  ipnet_from :: "ip_addr \<Rightarrow> 'n"
  ipnet_contains :: "'n \<Rightarrow> ip_addr \<Rightarrow> bool"

datatype action = Proxy | Direct | Block

fun action_label :: "action \<Rightarrow> string" where
  "action_label Proxy = ''proxy''"
| "action_label Direct = ''direct''"
| "action_label Block = ''block''"

datatype route_host = Domain string | Ip ip_addr

datatype ('r, 'n) matcher =
    DomainSuffix string
  | DomainFull string
  | DomainKeyword string
  | DomainRegex 'r
  | Net 'n
  | Ports u16 u16
  | Private

definition normalize_domain :: "string \<Rightarrow> string option" where
  "normalize_domain value =
     (let cleaned = to_lowercase (trim_end_matches (\<lambda>c. c = CHR ''.'')
            (dropWhile (\<lambda>c. c = CHR ''.'') (dropWhile (\<lambda>c. c = CHR ''*'') (str_trim value))))
      in if cleaned = [] then None else Some cleaned)"

definition parse_net :: "('r, 'n) rule_crates \<Rightarrow> string \<Rightarrow> 'n option" where
  "parse_net crates value =
     (let value = str_trim value
      in case ipnet_parse crates value of
           Some net \<Rightarrow> Some net
         | None \<Rightarrow> map_option (ipnet_from crates) (parse_ip_addr value))"

definition parse_u16 :: "string \<Rightarrow> u16 option" where
  "parse_u16 s = map_option of_nat (parse_unsigned 65535 s)"

definition parse_ports :: "string \<Rightarrow> (u16 \<times> u16) option" where
  "parse_ports value =
     (let value = str_trim value
      in case split_once (CHR ''-'') value of
           Some (lo, hi) \<Rightarrow> do {
             lo \<leftarrow> parse_u16 (str_trim lo);
             hi \<leftarrow> parse_u16 (str_trim hi);
             Some (if hi < lo then (hi, lo) else (lo, hi))
           }
         | None \<Rightarrow> do {
             single \<leftarrow> parse_u16 value;
             Some (single, single)
           })"

definition matcher_parse :: "('r, 'n) rule_crates \<Rightarrow> string \<Rightarrow> ('r, 'n) matcher option" where
  "matcher_parse crates entry =
     (let entry = str_trim entry
      in if entry = [] \<or> hd entry = CHR ''#'' then None
         else
           (let (kind, value) =
                  (case split_once (CHR '':'') entry of
                     Some (kind, value) \<Rightarrow>
                       if CHR ''.'' \<notin> set kind \<and> CHR ''/'' \<notin> set kind
                       then (to_lowercase (str_trim kind), str_trim value)
                       else ([], entry)
                   | None \<Rightarrow> ([], entry))
            in if kind \<in> {''domain'', ''suffix''} then map_option DomainSuffix (normalize_domain value)
               else if kind \<in> {''full'', ''exact''} then map_option DomainFull (normalize_domain value)
               else if kind = ''keyword'' then
                 (let needle = to_lowercase (str_trim value)
                  in if needle = [] then None else Some (DomainKeyword needle))
               else if kind \<in> {''regexp'', ''regex''} then map_option DomainRegex (regex_new crates value)
               else if kind \<in> {''ip'', ''cidr''} then map_option Net (parse_net crates value)
               else if kind = ''port'' then map_option (\<lambda>(lo, hi). Ports lo hi) (parse_ports value)
               else if kind \<in> {''geoip'', ''geosite''} then
                 (if eq_ignore_ascii_case value ''private'' then Some Private else None)
               else if kind = [] then
                 (if eq_ignore_ascii_case value ''private'' then Some Private
                  else (case parse_net crates value of
                          Some net \<Rightarrow> Some (Net net)
                        | None \<Rightarrow> map_option DomainSuffix (normalize_domain value)))
               else None))"

subsection \<open>Private addresses\<close>

definition ipv4_private :: "32 word \<Rightarrow> bool" where
  "ipv4_private a \<longleftrightarrow>
     (case ipv4_octets a of
        [p, q, _, _] \<Rightarrow> p = 10 \<or> p = 172 \<and> 16 \<le> q \<and> q \<le> 31 \<or> p = 192 \<and> q = 168
      | _ \<Rightarrow> False)"

definition ipv4_documentation :: "32 word \<Rightarrow> bool" where
  "ipv4_documentation a \<longleftrightarrow>
     (case ipv4_octets a of
        [p, q, r, _] \<Rightarrow>
          p = 192 \<and> q = 0 \<and> r = 2 \<or> p = 198 \<and> q = 51 \<and> r = 100 \<or> p = 203 \<and> q = 0 \<and> r = 113
      | _ \<Rightarrow> False)"

definition ipv6_segment0 :: "128 word \<Rightarrow> u16" where
  "ipv6_segment0 a = of_nat (be_val (take 2 (ipv6_octets a)))"

fun is_private :: "ip_addr \<Rightarrow> bool" where
  "is_private (V4 a) \<longleftrightarrow>
     ipv4_private a
     \<or> ipv4_octets a ! 0 = 127
     \<or> ipv4_octets a ! 0 = 169 \<and> ipv4_octets a ! 1 = 254
     \<or> a = 0xFFFFFFFF
     \<or> ipv4_documentation a
     \<or> a = 0
     \<or> ipv4_octets a ! 0 = 100 \<and> 64 \<le> ipv4_octets a ! 1 \<and> ipv4_octets a ! 1 < 128"
| "is_private (V6 a) \<longleftrightarrow>
     a = 1 \<or> a = 0
     \<or> ipv6_segment0 a AND 0xfe00 = 0xfc00
     \<or> ipv6_segment0 a AND 0xffc0 = 0xfe80"

subsection \<open>Matching and deciding\<close>

fun rule_matches ::
  "('r, 'n) rule_crates \<Rightarrow> ('r, 'n) matcher \<Rightarrow> route_host \<Rightarrow> u16 \<Rightarrow> bool" where
  "rule_matches crates (Ports lo hi) host port \<longleftrightarrow> lo \<le> port \<and> port \<le> hi"
| "rule_matches crates Private (Ip ip) port \<longleftrightarrow> is_private ip"
| "rule_matches crates Private (Domain name) port \<longleftrightarrow> eq_ignore_ascii_case name ''localhost''"
| "rule_matches crates (Net net) (Ip ip) port \<longleftrightarrow> ipnet_contains crates net ip"
| "rule_matches crates (Net net) (Domain name) port \<longleftrightarrow> False"
| "rule_matches crates (DomainSuffix sfx) (Domain name) port \<longleftrightarrow>
     (let name = to_lowercase name in name = sfx \<or> suffix (CHR ''.'' # sfx) name)"
| "rule_matches crates (DomainSuffix sfx) (Ip ip) port \<longleftrightarrow> False"
| "rule_matches crates (DomainFull full) (Domain name) port \<longleftrightarrow> eq_ignore_ascii_case name full"
| "rule_matches crates (DomainFull full) (Ip ip) port \<longleftrightarrow> False"
| "rule_matches crates (DomainKeyword needle) (Domain name) port \<longleftrightarrow>
     str_contains needle (to_lowercase name)"
| "rule_matches crates (DomainKeyword needle) (Ip ip) port \<longleftrightarrow> False"
| "rule_matches crates (DomainRegex pat) (Domain name) port \<longleftrightarrow> regex_is_match crates pat name"
| "rule_matches crates (DomainRegex pat) (Ip ip) port \<longleftrightarrow> False"

record ('r, 'n) rule_set =
  rs_block :: "('r, 'n) matcher list"
  rs_direct :: "('r, 'n) matcher list"

definition list_separator :: "char \<Rightarrow> bool" where
  "list_separator c \<longleftrightarrow> c = CHR ''\<newline>'' \<or> c = CHR '','' \<or> c = CHR '';''"

definition parse_list :: "('r, 'n) rule_crates \<Rightarrow> string \<Rightarrow> ('r, 'n) matcher list" where
  "parse_list crates raw = List.map_filter (matcher_parse crates) (split_on list_separator raw)"

definition rule_set_parse ::
  "('r, 'n) rule_crates \<Rightarrow> string \<Rightarrow> string \<Rightarrow> ('r, 'n) rule_set" where
  "rule_set_parse crates blk dir =
     \<lparr>rs_block = parse_list crates blk, rs_direct = parse_list crates dir\<rparr>"

definition rules_empty :: "('r, 'n) rule_set \<Rightarrow> bool" where
  "rules_empty rules \<longleftrightarrow> rs_block rules = [] \<and> rs_direct rules = []"

fun is_domain_rule :: "('r, 'n) matcher \<Rightarrow> bool" where
  "is_domain_rule (DomainSuffix _) \<longleftrightarrow> True"
| "is_domain_rule (DomainFull _) \<longleftrightarrow> True"
| "is_domain_rule (DomainKeyword _) \<longleftrightarrow> True"
| "is_domain_rule (DomainRegex _) \<longleftrightarrow> True"
| "is_domain_rule _ \<longleftrightarrow> False"

definition has_domain_rules :: "('r, 'n) rule_set \<Rightarrow> bool" where
  "has_domain_rules rules \<longleftrightarrow> list_ex is_domain_rule (rs_block rules @ rs_direct rules)"

definition decide ::
  "('r, 'n) rule_crates \<Rightarrow> ('r, 'n) rule_set \<Rightarrow> route_host \<Rightarrow> u16 \<Rightarrow> action" where
  "decide crates rules host port =
     (if list_ex (\<lambda>rule. rule_matches crates rule host port) (rs_block rules) then Block
      else if list_ex (\<lambda>rule. rule_matches crates rule host port) (rs_direct rules) then Direct
      else Proxy)"

subsection \<open>Lists and files of rules\<close>

definition push_list :: "string \<Rightarrow> string \<Rightarrow> string" where
  "push_list target extra =
     (if str_trim extra = [] then target
      else (if str_trim target \<noteq> [] then target @ ''\<newline>'' else target) @ extra)"

datatype rule_section = InBlock | InDirect

record sections =
  sec_block :: string
  sec_direct :: string
  sec_current :: "rule_section option"

definition section_step :: "sections \<Rightarrow> string \<Rightarrow> sections" where
  "section_step st line =
     (let trimmed = str_trim line; lowered = to_lowercase trimmed
      in if trimmed = [] \<or> hd trimmed = CHR ''#'' then st
         else if lowered = ''[block]'' then st\<lparr>sec_current := Some InBlock\<rparr>
         else if lowered = ''[direct]'' then st\<lparr>sec_current := Some InDirect\<rparr>
         else if hd lowered = CHR ''['' then st\<lparr>sec_current := None\<rparr>
         else (case sec_current st of
                 Some InBlock \<Rightarrow> st\<lparr>sec_block := sec_block st @ trimmed @ ''\<newline>''\<rparr>
               | Some InDirect \<Rightarrow> st\<lparr>sec_direct := sec_direct st @ trimmed @ ''\<newline>''\<rparr>
               | None \<Rightarrow> st))"

definition split_sections :: "string \<Rightarrow> string \<times> string" where
  "split_sections text =
     (let st = foldl section_step \<lparr>sec_block = [], sec_direct = [], sec_current = None\<rparr>
                 (str_lines text)
      in (sec_block st, sec_direct st))"

definition rule_set_from_env ::
  "('r, 'n) rule_crates \<Rightarrow> (string \<Rightarrow> string option) \<Rightarrow> env \<Rightarrow> ('r, 'n) rule_set" where
  "rule_set_from_env crates read_to_string env =
     (let var = (\<lambda>name. case env name of Some v \<Rightarrow> v | None \<Rightarrow> []);
          blk = var ''AETHER_ROUTE_BLOCK'';
          dir = var ''AETHER_ROUTE_DIRECT'';
          (blk, dir) =
            (case Option.bind (env ''AETHER_ROUTES_FILE'') read_to_string of
               Some text \<Rightarrow>
                 (case split_sections text of
                    (file_block, file_direct) \<Rightarrow>
                      (push_list blk file_block, push_list dir file_direct))
             | None \<Rightarrow> (blk, dir))
      in rule_set_parse crates blk dir)"

subsection \<open>Domains as lists of labels\<close>

fun join_with :: "char \<Rightarrow> string list \<Rightarrow> string" where
  "join_with c [] = []"
| "join_with c [x] = x"
| "join_with c (x # y # r) = x @ c # join_with c (y # r)"

abbreviation labels :: "string \<Rightarrow> string list" where
  "labels s \<equiv> split_on (\<lambda>x. x = CHR ''.'') s"

lemma split_on_nonempty [simp]: "split_on P s \<noteq> []"
  by (cases s) (auto split: list.splits)

lemma split_on_append: "P c \<Longrightarrow> split_on P (a @ c # b) = split_on P a @ split_on P b"
  by (induction a) (auto split: list.splits)

lemma split_on_append2:
  "split_on P (a @ b) =
     butlast (split_on P a) @ (last (split_on P a) @ hd (split_on P b)) # List.tl (split_on P b)"
proof (induction a)
  case Nil
  then show ?case by simp
next
  case (Cons x a)
  obtain y ys where y: "split_on P a = y # ys"
    by (meson neq_Nil_conv split_on_nonempty)
  show ?case
    using Cons y by (cases ys) (auto split: list.splits)
qed

lemma join_with_append:
  "xs \<noteq> [] \<Longrightarrow> ys \<noteq> [] \<Longrightarrow> join_with c (xs @ ys) = join_with c xs @ c # join_with c ys"
  by (induction c xs rule: join_with.induct) (auto simp: neq_Nil_conv)

lemma join_split: "join_with c (split_on (\<lambda>x. x = c) s) = s"
proof (induction s)
  case Nil
  then show ?case by simp
next
  case (Cons x s)
  obtain y ys where y: "split_on (\<lambda>x. x = c) s = y # ys"
    by (meson neq_Nil_conv split_on_nonempty)
  with Cons show ?case by (cases ys) auto
qed

lemma suffix_labels_iff:
  "suffix (labels s) (labels n) \<longleftrightarrow> n = s \<or> suffix (CHR ''.'' # s) n"
proof
  assume "suffix (labels s) (labels n)"
  then obtain xs where xs: "labels n = xs @ labels s" by (auto simp: suffix_def)
  then have "n = join_with (CHR ''.'') (xs @ labels s)" by (metis join_split)
  then show "n = s \<or> suffix (CHR ''.'' # s) n"
    by (cases "xs = []") (auto simp: join_split join_with_append suffix_def)
next
  assume "n = s \<or> suffix (CHR ''.'' # s) n"
  then show "suffix (labels s) (labels n)"
    by (auto simp: suffix_def split_on_append)
qed

subsection \<open>Concatenating lists of rules\<close>

lemma map_filter_append: "List.map_filter f (xs @ ys) = List.map_filter f xs @ List.map_filter f ys"
  by (simp add: map_filter_def)

lemma parse_list_append:
  "list_separator c \<Longrightarrow> parse_list crates (a @ c # b) = parse_list crates a @ parse_list crates b"
  by (simp add: parse_list_def split_on_append map_filter_append)

lemma split_on_blank:
  "blank wide_spaces s \<Longrightarrow> t \<in> set (split_on list_separator s) \<Longrightarrow> blank wide_spaces t"
proof (induction "length s" arbitrary: s rule: less_induct)
  case less
  show ?case
  proof (cases "\<exists>a c b. s = a @ c # b \<and> list_separator c")
    case True
    then obtain a c b where s: "s = a @ c # b" and c: "list_separator c" by blast
    have "(of_char c :: nat) < 128" using c by (auto simp: list_separator_def)
    with less.prems(1) s have "blank wide_spaces a \<and> blank wide_spaces b"
      using blank_split by blast
    moreover have "t \<in> set (split_on list_separator a) \<or> t \<in> set (split_on list_separator b)"
      using less.prems(2) c by (simp add: s split_on_append)
    ultimately show ?thesis
      using less.hyps [of a] less.hyps [of b] by (auto simp: s)
  next
    case False
    then have "\<forall>c \<in> set s. \<not> list_separator c" by (metis split_list)
    then have "split_on list_separator s = [s]" by (induction s) auto
    with less.prems show ?thesis by simp
  qed
qed

lemma parse_list_blank: "str_trim s = [] \<Longrightarrow> parse_list crates s = []"
proof -
  assume "str_trim s = []"
  then have "matcher_parse crates t = None" if "t \<in> set (split_on list_separator s)" for t
    using split_on_blank [of s t] that
    by (simp add: matcher_parse_def Let_def str_trim_Nil_iff [symmetric])
  then show ?thesis
    by (auto simp: parse_list_def map_filter_def filter_empty_conv)
qed

lemma parse_push_list:
  "parse_list crates (push_list target extra) = parse_list crates target @ parse_list crates extra"
proof -
  have "parse_list crates (target @ CHR ''\<newline>'' # extra)
      = parse_list crates target @ parse_list crates extra"
    by (rule parse_list_append) (simp add: list_separator_def)
  moreover have "parse_list crates (target @ extra) = parse_list crates extra"
    if "str_trim target = []"
  proof -
    let ?first = "last (split_on list_separator target)"
    obtain p ps where p: "split_on list_separator extra = p # ps"
      by (meson neq_Nil_conv split_on_nonempty)
    have blank: "blank wide_spaces t" if "t \<in> set (split_on list_separator target)" for t
      using split_on_blank [OF _ that] \<open>str_trim target = []\<close> by (simp add: str_trim_Nil_iff)
    have "matcher_parse crates (?first @ p) = matcher_parse crates p"
      unfolding matcher_parse_def using str_trim_blank_append [OF blank [OF last_in_set]] by simp
    moreover have "List.map_filter (matcher_parse crates) (butlast (split_on list_separator target)) = []"
      using blank in_set_butlastD
      by (force simp: map_filter_def filter_empty_conv matcher_parse_def str_trim_Nil_iff [symmetric])
    ultimately show ?thesis
      unfolding parse_list_def split_on_append2 map_filter_append p
      by (simp add: map_filter_def)
  qed
  ultimately show ?thesis
    by (cases "str_trim extra = []"; cases "str_trim target = []")
       (simp_all add: push_list_def parse_list_blank)
qed

subsection \<open>Sections of a rules file\<close>

text \<open>
  Reference reading of a file: a rule line belongs to the section whose header is the last one
  before it.
\<close>

definition skipped_line :: "string \<Rightarrow> bool" where
  "skipped_line line \<longleftrightarrow> str_trim line = [] \<or> hd (str_trim line) = CHR ''#''"

definition header_line :: "string \<Rightarrow> bool" where
  "header_line line \<longleftrightarrow> \<not> skipped_line line \<and> hd (to_lowercase (str_trim line)) = CHR ''[''"

definition header_section :: "string \<Rightarrow> rule_section option" where
  "header_section line =
     (let lowered = to_lowercase (str_trim line)
      in if lowered = ''[block]'' then Some InBlock
         else if lowered = ''[direct]'' then Some InDirect else None)"

definition section_before :: "string list \<Rightarrow> rule_section option" where
  "section_before lines =
     (case filter header_line lines of [] \<Rightarrow> None | hs \<Rightarrow> header_section (last hs))"

definition section_rules :: "rule_section \<Rightarrow> string list \<Rightarrow> string list" where
  "section_rules sec lines =
     map (\<lambda>i. str_trim (lines ! i))
       (filter (\<lambda>i. \<not> skipped_line (lines ! i) \<and> \<not> header_line (lines ! i)
                  \<and> section_before (take i lines) = Some sec) [0..<length lines])"

lemma section_rules_snoc:
  "section_rules sec (lines @ [l]) =
     section_rules sec lines
     @ (if \<not> skipped_line l \<and> \<not> header_line l \<and> section_before lines = Some sec
        then [str_trim l] else [])"
proof -
  have "filter (\<lambda>i. \<not> skipped_line ((lines @ [l]) ! i) \<and> \<not> header_line ((lines @ [l]) ! i)
          \<and> section_before (take i (lines @ [l])) = Some sec) [0..<length lines]
      = filter (\<lambda>i. \<not> skipped_line (lines ! i) \<and> \<not> header_line (lines ! i)
          \<and> section_before (take i lines) = Some sec) [0..<length lines]"
    by (rule filter_cong) (auto simp: nth_append)
  then show ?thesis
    by (auto simp: section_rules_def nth_append)
qed

lemma section_before_snoc:
  "section_before (lines @ [l]) = (if header_line l then header_section l else section_before lines)"
  by (cases "filter header_line lines") (auto simp: section_before_def split: list.split)

abbreviation as_lines :: "string list \<Rightarrow> string" where
  "as_lines ts \<equiv> concat (map (\<lambda>t. t @ ''\<newline>'') ts)"

lemma split_sections_state:
  "foldl section_step \<lparr>sec_block = [], sec_direct = [], sec_current = None\<rparr> lines
     = \<lparr>sec_block = as_lines (section_rules InBlock lines),
        sec_direct = as_lines (section_rules InDirect lines),
        sec_current = section_before lines\<rparr>"
proof (induction lines rule: rev_induct)
  case Nil
  then show ?case by (simp add: section_rules_def section_before_def)
next
  case (snoc l lines)
  show ?case
    unfolding foldl_append foldl.simps snoc section_rules_snoc section_before_snoc
    by (cases "section_before lines" rule: option.exhaust; cases "the (section_before lines)")
       (simp_all add: section_step_def skipped_line_def header_line_def header_section_def Let_def)
qed

lemma parse_list_lines:
  "parse_list crates (as_lines ts) = concat (map (parse_list crates) ts)"
proof (induction ts)
  case Nil
  then show ?case by (simp add: parse_list_blank str_trim_graphic)
next
  case (Cons t ts)
  then show ?case
    using parse_list_append [of "CHR ''\<newline>''" crates t "as_lines ts"]
    by (simp add: list_separator_def)
qed

subsection \<open>The private ranges as prefixes\<close>

text \<open>Prefixes as base address and length.\<close>

definition private_v4_blocks :: "(nat \<times> nat) list" where
  "private_v4_blocks =
     [(0x0A000000, 8), (0x64400000, 10), (0x7F000000, 8), (0xA9FE0000, 16), (0xAC100000, 12),
      (0xC0000200, 24), (0xC0A80000, 16), (0xC6336400, 24), (0xCB007100, 24), (0x00000000, 32),
      (0xFFFFFFFF, 32)]"

definition in_block :: "nat \<Rightarrow> nat \<Rightarrow> nat \<times> nat \<Rightarrow> bool" where
  "in_block width a block \<longleftrightarrow>
     a div 2 ^ (width - snd block) = fst block div 2 ^ (width - snd block)"

lemma ipv4_octets_unat:
  "ipv4_octets a =
     [of_nat (unat a div 16777216), of_nat (unat a div 65536), of_nat (unat a div 256),
      of_nat (unat a)]"
proof -
  have "be_bytes (Suc (Suc (Suc (Suc 0)))) n
      = [of_nat (n div 16777216), of_nat (n div 65536), of_nat (n div 256), of_nat n]" for n
    by simp
  moreover have "Suc (Suc (Suc (Suc 0))) = (4 :: nat)" by simp
  ultimately show ?thesis by (simp only: ipv4_octets_def)
qed

lemma byte_of_nat_cmp:
  "(of_nat n :: u8) = w \<longleftrightarrow> n mod 256 = unat w"
  "w \<le> (of_nat n :: u8) \<longleftrightarrow> unat w \<le> n mod 256"
  "(of_nat n :: u8) \<le> w \<longleftrightarrow> n mod 256 \<le> unat w"
  "(of_nat n :: u8) < w \<longleftrightarrow> n mod 256 < unat w"
  by (simp_all add: word_unat_eq_iff word_le_nat_alt word_less_nat_alt)

lemma digit_eq:
  "q < b \<Longrightarrow> q' < b \<Longrightarrow> p * b + q = p' * b + q' \<longleftrightarrow> p = p' \<and> q = (q' :: nat)"
proof -
  assume q: "q < b" "q' < b"
  then have "(p * b + q) div b = p" "(p * b + q) mod b = q"
    "(p' * b + q') div b = p'" "(p' * b + q') mod b = q'" by simp_all
  then show ?thesis by metis
qed

lemma digits_eq:
  "q < b \<Longrightarrow> q' < b \<Longrightarrow> r < b \<Longrightarrow> r' < b \<Longrightarrow>
   (p * b + q) * b + r = (p' * b + q') * b + r' \<longleftrightarrow> p = p' \<and> q = q' \<and> r = (r' :: nat)"
  by (simp only: digit_eq conj_assoc)

text \<open>
  C37: An IPv4 address counts as private exactly when it lies in one of eleven prefixes: the three
  private ones, shared address space, loopback, link local, the three for documentation, and the
  unspecified and the broadcast address.
\<close>

theorem private_v4_is_prefix_list:
  "is_private (V4 a) \<longleftrightarrow> list_ex (in_block 32 (unat a)) private_v4_blocks"
proof -
  define n where "n = unat a"
  have n: "n < 4294967296" using unat_less_exp [of a] by (simp add: n_def)
  have eqs: "a = 0xFFFFFFFF \<longleftrightarrow> n = 4294967295" "a = 0 \<longleftrightarrow> n = 0"
    by (simp_all add: n_def word_unat_eq_iff)
  define p q r where "p = n div 16777216" and "q = n div 65536 mod 256" and "r = n div 256 mod 256"
  have p: "p mod 256 = p" using n by (simp add: p_def)
  have "p = n div 65536 div 256" "n div 65536 = n div 256 div 256"
    by (simp_all add: p_def flip: div_mult2_eq)
  then have x: "n div 65536 = p * 256 + q" "n div 256 = (p * 256 + q) * 256 + r" "q < 256" "r < 256"
    unfolding q_def r_def by (simp_all only: div_mult_mod_eq mod_less_divisor zero_less_numeral)
  have "is_private (V4 a) \<longleftrightarrow>
      p = 10 \<or> p = 172 \<and> 16 \<le> q \<and> q \<le> 31 \<or> p = 192 \<and> q = 168 \<or> p = 127 \<or> p = 169 \<and> q = 254
      \<or> n = 4294967295
      \<or> (p = 192 \<and> q = 0 \<and> r = 2 \<or> p = 198 \<and> q = 51 \<and> r = 100 \<or> p = 203 \<and> q = 0 \<and> r = 113)
      \<or> n = 0 \<or> p = 100 \<and> 64 \<le> q \<and> q < 128"
    by (simp add: ipv4_private_def ipv4_documentation_def ipv4_octets_unat byte_of_nat_cmp
        eqs p flip: n_def p_def q_def r_def)
  also have "\<dots> \<longleftrightarrow> list_ex (in_block 32 n) private_v4_blocks"
  proof -
    have 1: "n div 4194304 = (p * 256 + q) div 64" "n div 1048576 = (p * 256 + q) div 16"
      by (simp_all flip: x(1) div_mult2_eq)
    have 2: "(p * 256 + q) div 64 = 401 \<longleftrightarrow> p = 100 \<and> 64 \<le> q \<and> q < 128"
    proof -
      have "(p * 256 + q) div 64 = p * 4 + q div 64" "q div 64 < 4" "q div 64 = 1 \<longleftrightarrow> 64 \<le> q \<and> q < 128"
        using x(3) by auto
      then show ?thesis using digit_eq [of "q div 64" 4 1 p 100] by simp
    qed
    have 3: "(p * 256 + q) div 16 = 2753 \<longleftrightarrow> p = 172 \<and> 16 \<le> q \<and> q \<le> 31"
    proof -
      have "(p * 256 + q) div 16 = p * 16 + q div 16" "q div 16 < 16" "q div 16 = 1 \<longleftrightarrow> 16 \<le> q \<and> q \<le> 31"
        using x(3) by auto
      then show ?thesis using digit_eq [of "q div 16" 16 1 p 172] by simp
    qed
    have base: "169 * 256 + 254 = (43518 :: nat)" "192 * 256 + 168 = (49320 :: nat)"
      "(192 * 256 + 0) * 256 + 2 = (12582914 :: nat)"
      "(198 * 256 + 51) * 256 + 100 = (12989284 :: nat)"
      "(203 * 256 + 0) * 256 + 113 = (13303921 :: nat)"
      by simp_all
    have 4: "p * 256 + q = 43518 \<longleftrightarrow> p = 169 \<and> q = 254"
      "p * 256 + q = 49320 \<longleftrightarrow> p = 192 \<and> q = 168"
      "(p * 256 + q) * 256 + r = 12582914 \<longleftrightarrow> p = 192 \<and> q = 0 \<and> r = 2"
      "(p * 256 + q) * 256 + r = 12989284 \<longleftrightarrow> p = 198 \<and> q = 51 \<and> r = 100"
      "(p * 256 + q) * 256 + r = 13303921 \<longleftrightarrow> p = 203 \<and> q = 0 \<and> r = 113"
      unfolding base [symmetric] by (rule digit_eq digits_eq; use x(3,4) in simp)+
    show ?thesis
      by (simp add: private_v4_blocks_def in_block_def x(1,2) 1 2 3 4 [simplified] flip: p_def) blast
  qed
  finally show ?thesis by (simp add: n_def)
qed

subsection \<open>Properties\<close>

text \<open>
  C27: The rule set the program starts with: the entries of the two environment lists, followed by
  the entries of the lines of the rules file that stand under the matching section header, each
  parsed on its own.  Comments, blank lines and lines under another header contribute nothing, and
  an unreadable file is the same as none.
\<close>

theorem rule_set_from_env_spec:
  "rule_set_from_env crates read_to_string env =
     (let var = (\<lambda>name. case env name of Some v \<Rightarrow> v | None \<Rightarrow> []);
          lines = (case Option.bind (env ''AETHER_ROUTES_FILE'') read_to_string of
                     Some text \<Rightarrow> str_lines text | None \<Rightarrow> [])
      in \<lparr>rs_block = parse_list crates (var ''AETHER_ROUTE_BLOCK'')
            @ concat (map (parse_list crates) (section_rules InBlock lines)),
          rs_direct = parse_list crates (var ''AETHER_ROUTE_DIRECT'')
            @ concat (map (parse_list crates) (section_rules InDirect lines))\<rparr>)"
proof (cases "Option.bind (env ''AETHER_ROUTES_FILE'') read_to_string")
  case None
  then show ?thesis
    by (simp add: rule_set_from_env_def Let_def rule_set_parse_def section_rules_def)
next
  case (Some contents)
  show ?thesis
    unfolding rule_set_from_env_def Some
    by (simp add: Let_def rule_set_parse_def split_sections_def split_sections_state
        parse_push_list parse_list_lines)
qed

text \<open>
  C29: A decision depends only on which rules match: a destination is blocked exactly when some
  entry of the block list matches it, goes direct exactly when none does and some entry of the
  direct list matches, and a domain rule matches exactly the names whose labels end in the labels
  of the rule, so that it never matches in the middle of a label.
\<close>

theorem decide_by_labels:
  "decide crates
     \<lparr>rs_block = map DomainSuffix bs @ blk, rs_direct = map DomainSuffix ds @ dir\<rparr>
     (Domain name) port =
   (let hit = (\<lambda>s. suffix (labels s) (labels (to_lowercase name)));
        other = (\<lambda>rules. \<exists>rule \<in> set rules. rule_matches crates rule (Domain name) port)
    in if (\<exists>s \<in> set bs. hit s) \<or> other blk then Block
       else if (\<exists>s \<in> set ds. hit s) \<or> other dir then Direct
       else Proxy)"
  by (simp add: decide_def Let_def suffix_labels_iff list_ex_iff bex_Un)

lemma lone_colon_no_address:
  assumes "t = [] \<or> hd t \<noteq> CHR '':''"
  shows "parse_ip_addr (CHR '':'' # t) = None"
proof -
  have number: "read_number radix m z l (CHR '':'' # t) = None" if "radix \<le> 16" for radix m z l
    using that by (auto simp: read_number_def char_digit_def split: option.split)
  then have v4: "read_ipv4_addr (CHR '':'' # t) = None"
    by (simp add: read_ipv4_addr_def read_separator_def numeral_eq_Suc)
  have "read_groups 8 0 (CHR '':'' # t) = ([], False, CHR '':'' # t)"
    by (subst read_groups.simps) (simp add: read_separator_def number v4)
  then have "read_ipv6_addr (CHR '':'' # t) = None"
    using assms by (cases t) (simp_all add: read_ipv6_addr_def read_given_char_def)
  then show ?thesis by (simp add: parse_ip_addr_def parse_with_def read_ip_addr_def v4)
qed

lemma hex_lower:
  assumes "char_digit 16 c \<noteq> None"
  shows "char_digit 16 (ascii_lower c) \<noteq> None"
  using assms by (auto simp: char_digit_def ascii_lower_def Let_def split: if_splits)

lemma unknown_kind:
  assumes "grp \<noteq> []" and "list_all (\<lambda>c. char_digit 16 c \<noteq> None) grp"
  shows "to_lowercase grp \<notin>
      {''domain'', ''suffix'', ''full'', ''exact'', ''keyword'', ''regexp'', ''regex'', ''ip'',
       ''cidr'', ''port'', ''geoip'', ''geosite'', []}"
proof
  assume known: "to_lowercase grp \<in>
      {''domain'', ''suffix'', ''full'', ''exact'', ''keyword'', ''regexp'', ''regex'', ''ip'',
       ''cidr'', ''port'', ''geoip'', ''geosite'', []}"
  have "list_all (\<lambda>c. char_digit 16 c \<noteq> None) (to_lowercase grp)"
    using assms(2) hex_lower by (simp add: to_lowercase_def list_all_iff)
  moreover have "to_lowercase grp \<noteq> []"
    using assms(1) by (simp add: to_lowercase_def)
  ultimately show False
    using known by (auto simp: char_digit_def)
qed

text \<open>
  C39: A bare IPv6 network or address never becomes a network rule.  If it begins with a hexadecimal
  group, the entry is dropped, because the group is read as the name of a rule kind; if it begins
  with two colons, the first of them is cut off and the rest is taken for a domain suffix.
\<close>

theorem bare_ipv6_entry_is_no_network:
  assumes "list_all (\<lambda>c. char_digit 16 c \<noteq> None) grp" and "list_all graphic rest"
    and "grp = [] \<Longrightarrow> rest = CHR '':'' # t \<and> (t = [] \<or> hd t \<noteq> CHR '':'') \<and> ipnet_parse crates rest = None"
  shows "matcher_parse crates (grp @ CHR '':'' # rest)
    = (if grp = [] then map_option DomainSuffix (normalize_domain rest) else None)"
proof -
  have digit: "graphic c \<and> c \<noteq> CHR '':'' \<and> c \<noteq> CHR ''.'' \<and> c \<noteq> CHR ''/'' \<and> c \<noteq> CHR ''#''"
    if "c \<in> set grp" for c
    using that assms(1) by (auto simp: list_all_iff char_digit_def graphic_def Let_def split: if_splits)
  let ?entry = "grp @ CHR '':'' # rest"
  have entry: "list_all graphic ?entry" "list_all graphic grp"
    "split_once (CHR '':'') ?entry = Some (grp, rest)" "hd ?entry \<noteq> CHR ''#''"
    "CHR ''.'' \<notin> set grp" "CHR ''/'' \<notin> set grp"
    using digit assms(2) by (cases grp; auto simp: list_all_iff graphic_def split_once_Some)+
  show ?thesis
  proof (cases "grp = []")
    case True
    then have "parse_net crates rest = None" "\<not> eq_ignore_ascii_case rest ''private''"
      using lone_colon_no_address [of t] assms(2,3)
      by (auto simp: parse_net_def str_trim_graphic eq_ignore_ascii_case_def to_lowercase_def ascii_lower_def)
    then show ?thesis
      using True entry assms(2) by (simp add: matcher_parse_def str_trim_graphic to_lowercase_def)
  next
    case False
    then show ?thesis
      using entry assms(2) unknown_kind [OF False assms(1)] by (simp add: matcher_parse_def str_trim_graphic)
  qed
qed

text \<open>Crate functions where a pattern and a network are single texts and hosts.\<close>

definition exact_crates :: "(string, ip_addr) rule_crates" where
  "exact_crates =
     \<lparr>regex_new = Some, regex_is_match = (\<lambda>r s. r = s), ipnet_parse = parse_ip_addr,
      ipnet_from = (\<lambda>a. a), ipnet_contains = (\<lambda>n a. n = a)\<rparr>"

theorem bare_ipv6_entry_is_no_network_witness:
  "matcher_parse exact_crates ''fd00::/8'' = None
   \<and> matcher_parse exact_crates ''::1'' = Some (DomainSuffix '':1'') \<and> parse_ip_addr ''::1'' \<noteq> None"
proof -
  have "matcher_parse exact_crates (''fd00'' @ CHR '':'' # '':/8'') = None"
    using bare_ipv6_entry_is_no_network [of "''fd00''" "'':/8''" "[]" exact_crates]
    by (simp add: char_digit_def graphic_def)
  moreover have "parse_ip_addr '':1'' = None" "parse_ip_addr ''::1'' \<noteq> None"
    "normalize_domain '':1'' = Some '':1''" by code_simp+
  moreover from calculation have "matcher_parse exact_crates ([] @ CHR '':'' # '':1'') = Some (DomainSuffix '':1'')"
    using bare_ipv6_entry_is_no_network [of "[]" "'':1''" "''1''" exact_crates]
    by (simp add: graphic_def exact_crates_def)
  ultimately show ?thesis by simp
qed

end
