(* ===== verification/Rust_Collections.thy ===== *)
theory Rust_Collections
  imports Koku_Prelude
begin

text \<open>
  The ordered map of the Rust standard library: a \<open>BTreeMap\<close> is the list of its entries in
  ascending order of their keys, which is the order its iterators follow.
\<close>

type_synonym ('k, 'v) btree = "('k \<times> 'v) list"

definition bt_ok :: "('k::linorder, 'v) btree \<Rightarrow> bool" where
  "bt_ok m \<longleftrightarrow> sorted_wrt (<) (map fst m)"

fun bt_insert :: "'k::linorder \<Rightarrow> 'v \<Rightarrow> ('k, 'v) btree \<Rightarrow> ('k, 'v) btree" where
  "bt_insert k v [] = [(k, v)]"
| "bt_insert k v ((k', v') # m) =
     (if k < k' then (k, v) # (k', v') # m
      else if k = k' then (k, v) # m
      else (k', v') # bt_insert k v m)"

definition bt_remove :: "'k \<Rightarrow> ('k, 'v) btree \<Rightarrow> ('k, 'v) btree" where
  "bt_remove k m = filter (\<lambda>e. fst e \<noteq> k) m"

text \<open>The entries of \<open>range(k..)\<close> and of \<open>range(..=k)\<close>.\<close>

definition bt_from :: "'k::linorder \<Rightarrow> ('k, 'v) btree \<Rightarrow> ('k, 'v) btree" where
  "bt_from k m = filter (\<lambda>e. k \<le> fst e) m"

definition bt_upto :: "'k::linorder \<Rightarrow> ('k, 'v) btree \<Rightarrow> ('k, 'v) btree" where
  "bt_upto k m = filter (\<lambda>e. fst e \<le> k) m"

lemma set_bt_insert:
  "bt_ok m \<Longrightarrow> set (bt_insert k v m) = insert (k, v) {e \<in> set m. fst e \<noteq> k}"
proof (induction m)
  case Nil
  then show ?case by simp
next
  case (Cons e m)
  obtain k' v' where e: "e = (k', v')" by (cases e)
  from Cons show ?case
    by (auto simp: bt_ok_def e)
qed

lemma bt_ok_insert: "bt_ok m \<Longrightarrow> bt_ok (bt_insert k v m)"
proof (induction m)
  case Nil
  then show ?case by (simp add: bt_ok_def)
next
  case (Cons e m)
  obtain k' v' where e: "e = (k', v')" by (cases e)
  have m: "bt_ok m" using Cons.prems by (simp add: bt_ok_def)
  have "bt_ok (bt_insert k v m)" using Cons.IH [OF m] .
  moreover have "\<forall>x \<in> set (bt_insert k v m). k' < fst x" if "k' < k"
    using that Cons.prems by (auto simp: set_bt_insert [OF m] bt_ok_def e)
  ultimately show ?case
    using Cons.prems by (auto simp: bt_ok_def e)
qed

lemma bt_ok_filter: "bt_ok m \<Longrightarrow> bt_ok (filter P m)"
  unfolding bt_ok_def by (induction m) auto

lemma bt_ok_append:
  "bt_ok (xs @ ys) \<longleftrightarrow>
     bt_ok xs \<and> bt_ok ys \<and> (\<forall>x \<in> set xs. \<forall>y \<in> set ys. fst x < fst y)"
  by (auto simp: bt_ok_def sorted_wrt_append)

lemma bt_insert_middle:
  "\<forall>x \<in> set xs. fst x < k \<Longrightarrow> \<forall>y \<in> set ys. k < fst y \<Longrightarrow>
   bt_insert k v (xs @ ys) = xs @ (k, v) # ys"
proof (induction xs)
  case Nil
  then show ?case by (cases ys) auto
next
  case (Cons x xs)
  then show ?case by (cases x) auto
qed

lemma bt_remove_middle:
  "\<forall>x \<in> set xs. fst x \<noteq> k \<Longrightarrow> \<forall>y \<in> set ys. fst y \<noteq> k \<Longrightarrow>
   bt_remove k (xs @ (k, v) # ys) = xs @ ys"
  by (simp add: bt_remove_def)

lemma filter_split:
  "\<forall>x \<in> set xs. \<not> P x \<Longrightarrow> \<forall>y \<in> set ys. P y \<Longrightarrow> filter P (xs @ ys) = ys"
  "\<forall>x \<in> set xs. P x \<Longrightarrow> \<forall>y \<in> set ys. \<not> P y \<Longrightarrow> filter P (xs @ ys) = xs"
  by auto

end
