(* ===== verification/Range_Set.thy ===== *)
theory Range_Set
  imports Rust_Collections
begin

text \<open>
  The set of packet numbers a connection has seen, kept as ranges:
  \<open>engine/quiche/quiche/src/ranges.rs\<close>.  A range is the pair of its start and its exclusive
  end, both below \<open>2^64\<close>; the only arithmetic on them, adding and subtracting one, wraps around.
  The set has two representations, a small vector and an ordered map, and moves between them; a
  panic (an index out of range) is \<open>None\<close>.
\<close>

type_synonym ranges = "(nat \<times> nat) list"

definition MAX_INLINE_CAPACITY :: nat where "MAX_INLINE_CAPACITY = 4"

definition MIN_TO_INLINE :: nat where "MIN_TO_INLINE = 2"

datatype range_set = Inline ranges nat | BTree ranges nat

definition range_set_new :: "nat \<Rightarrow> range_set" where
  "range_set_new capacity = Inline [] capacity"

fun range_set_iter :: "range_set \<Rightarrow> ranges" where
  "range_set_iter (Inline inner _) = inner"
| "range_set_iter (BTree inner _) = inner"

definition range_set_len :: "range_set \<Rightarrow> nat" where
  "range_set_len rs = length (range_set_iter rs)"

definition range_set_last :: "range_set \<Rightarrow> nat option" where
  "range_set_last rs =
     (case range_set_iter rs of [] \<Rightarrow> None | _ \<Rightarrow> Some (u64_sub (snd (last (range_set_iter rs))) 1))"

fun fixup :: "range_set \<Rightarrow> range_set" where
  "fixup (Inline inner capacity) =
     (if length inner = MAX_INLINE_CAPACITY then BTree inner capacity else Inline inner capacity)"
| "fixup (BTree inner capacity) =
     (if length inner \<le> MIN_TO_INLINE then Inline inner capacity else BTree inner capacity)"

subsection \<open>The small vector\<close>

text \<open>Merging the ranges after position \<open>pos\<close> that the range at \<open>pos\<close> now reaches.\<close>

function inline_merge :: "nat \<Rightarrow> nat \<Rightarrow> ranges \<Rightarrow> ranges" where
  "inline_merge pos stop inner =
     (if pos + 1 < length inner then
        (case inner ! (pos + 1) of (s, e) \<Rightarrow>
           if stop < s then inner
           else (let new_e = max e stop
                 in inline_merge pos new_e
                      (take (pos + 1) (inner[pos := (fst (inner ! pos), new_e)])
                       @ drop (pos + 2) inner)))
      else inner)"
  by pat_completeness auto
termination
  by (relation "measure (\<lambda>(pos, stop, inner). length inner)") auto

declare inline_merge.simps [simp del]

definition insert_at :: "nat \<Rightarrow> 'a \<Rightarrow> 'a list \<Rightarrow> 'a list" where
  "insert_at pos x xs = take pos xs @ x # drop pos xs"

function inline_insert_from :: "nat \<Rightarrow> nat \<Rightarrow> nat \<Rightarrow> nat \<Rightarrow> ranges \<Rightarrow> ranges option" where
  "inline_insert_from pos capacity start stop inner =
     (if pos < length inner then
        (case inner ! pos of (s, e) \<Rightarrow>
           if e < start then inline_insert_from (pos + 1) capacity start stop inner
           else if stop < s then
             (if length inner = capacity
              then (if pos = 0 then None
                    else Some (insert_at (pos - 1) (start, stop) (drop 1 inner)))
              else Some (insert_at pos (start, stop) inner))
           else (let s = (if start < s then start else s)
                 in if e < stop then Some (inline_merge pos stop (inner[pos := (s, stop)]))
                    else Some (inner[pos := (s, e)])))
      else if length inner = capacity
      then (if inner = [] then None else Some (drop 1 inner @ [(start, stop)]))
      else Some (inner @ [(start, stop)]))"
  by pat_completeness auto
termination
  by (relation "measure (\<lambda>(pos, capacity, start, stop, inner). length inner - pos)") auto

declare inline_insert_from.simps [simp del]

definition inline_insert :: "nat \<Rightarrow> nat \<Rightarrow> nat \<Rightarrow> ranges \<Rightarrow> ranges option" where
  "inline_insert capacity start stop inner = inline_insert_from 0 capacity start stop inner"

fun inline_remove_until :: "nat \<Rightarrow> ranges \<Rightarrow> ranges" where
  "inline_remove_until largest [] = []"
| "inline_remove_until largest ((s, e) # inner) =
     (if e \<le> largest then inline_remove_until largest inner
      else (let s = max (u64_add largest 1) s in if s = e then inner else (s, e) # inner))"

subsection \<open>The ordered map\<close>

definition range_overlaps :: "nat \<times> nat \<Rightarrow> nat \<times> nat \<Rightarrow> bool" where
  "range_overlaps r other \<longleftrightarrow>
     fst r \<le> fst other \<and> fst other \<le> snd r \<or> fst r \<le> snd other \<and> snd other \<le> snd r"

definition range_contains :: "nat \<times> nat \<Rightarrow> nat \<Rightarrow> bool" where
  "range_contains r x \<longleftrightarrow> fst r \<le> x \<and> x < snd r"

definition prev_to :: "nat \<Rightarrow> ranges \<Rightarrow> (nat \<times> nat) option" where
  "prev_to item inner = (case bt_upto item inner of [] \<Rightarrow> None | rs \<Rightarrow> Some (last rs))"

definition next_to :: "nat \<Rightarrow> ranges \<Rightarrow> (nat \<times> nat) option" where
  "next_to item inner = (case bt_from item inner of [] \<Rightarrow> None | r # _ \<Rightarrow> Some r)"

lemma next_to_member: "next_to item inner = Some r \<Longrightarrow> r \<in> set inner"
  by (auto simp: next_to_def bt_from_def split: list.splits dest: filter_eq_ConsD)

lemma length_bt_remove: "r \<in> set inner \<Longrightarrow> length (bt_remove (fst r) inner) < length inner"
  unfolding bt_remove_def by (induction inner) (auto simp: le_imp_less_Suc)

function btree_merge ::
  "nat \<times> nat \<Rightarrow> nat \<Rightarrow> nat \<Rightarrow> ranges \<Rightarrow> nat \<times> nat \<times> ranges" where
  "btree_merge item start stop inner =
     (case next_to start inner of
        None \<Rightarrow> (start, stop, inner)
      | Some r \<Rightarrow>
          if range_contains item (fst r) \<and> range_contains item (snd r)
          then btree_merge item start stop (bt_remove (fst r) inner)
          else if \<not> range_overlaps r item then (start, stop, inner)
          else btree_merge item (min start (fst r)) (max stop (snd r)) (bt_remove (fst r) inner))"
  by pat_completeness auto
termination
  by (relation "measure (\<lambda>(item, start, stop, inner). length inner)")
     (auto dest!: next_to_member length_bt_remove)

declare btree_merge.simps [simp del]

definition btree_place :: "nat \<Rightarrow> nat \<times> nat \<times> ranges \<Rightarrow> ranges" where
  "btree_place capacity merged =
     (case merged of (start, stop, inner) \<Rightarrow>
        bt_insert start stop (if capacity \<le> length inner then drop 1 inner else inner))"

definition btree_insert :: "nat \<Rightarrow> nat \<Rightarrow> nat \<Rightarrow> ranges \<Rightarrow> ranges" where
  "btree_insert capacity a b inner =
     (let (start, stop, inner) =
            (case prev_to a inner of
               Some r \<Rightarrow>
                 if range_overlaps r (a, b)
                 then (min a (fst r), max b (snd r), bt_remove (fst r) inner)
                 else (a, b, inner)
             | None \<Rightarrow> (a, b, inner))
      in btree_place capacity (btree_merge (a, b) start stop inner))"

fun btree_remove_each :: "nat \<Rightarrow> nat \<Rightarrow> ranges \<Rightarrow> ranges \<Rightarrow> ranges" where
  "btree_remove_each capacity largest [] inner = inner"
| "btree_remove_each capacity largest (r # rs) inner =
     (let inner = bt_remove (fst r) inner
      in btree_remove_each capacity largest rs
           (if u64_add largest 1 < snd r then btree_insert capacity (u64_add largest 1) (snd r) inner
            else inner))"

definition btree_remove_until :: "nat \<Rightarrow> nat \<Rightarrow> ranges \<Rightarrow> ranges" where
  "btree_remove_until capacity largest inner =
     btree_remove_each capacity largest (bt_upto largest inner) inner"

subsection \<open>The set\<close>

fun range_set_insert :: "nat \<Rightarrow> nat \<Rightarrow> range_set \<Rightarrow> range_set option" where
  "range_set_insert a b (Inline inner capacity) =
     map_option (\<lambda>inner. fixup (Inline inner capacity)) (inline_insert capacity a b inner)"
| "range_set_insert a b (BTree inner capacity) =
     Some (fixup (BTree (btree_insert capacity a b inner) capacity))"

fun range_set_remove_until :: "nat \<Rightarrow> range_set \<Rightarrow> range_set" where
  "range_set_remove_until largest (Inline inner capacity) =
     fixup (Inline (inline_remove_until largest inner) capacity)"
| "range_set_remove_until largest (BTree inner capacity) =
     fixup (BTree (btree_remove_until capacity largest inner) capacity)"

definition push_item :: "nat \<Rightarrow> range_set \<Rightarrow> range_set option" where
  "push_item item rs = range_set_insert item (u64_add item 1) rs"

definition range_set_eq_range :: "range_set \<Rightarrow> nat \<times> nat \<Rightarrow> bool" where
  "range_set_eq_range rs other \<longleftrightarrow>
     (if range_set_len rs \<noteq> 1 then False else hd (range_set_iter rs) = other)"

subsection \<open>What the ranges stand for\<close>

text \<open>Ranges that neither overlap nor touch; a range may be empty, as the range of an empty frame is.\<close>

definition ranges_sep :: "ranges \<Rightarrow> bool" where
  "ranges_sep rs \<longleftrightarrow> sorted_wrt (\<lambda>x y. snd x < fst y) rs \<and> (\<forall>r \<in> set rs. fst r \<le> snd r)"

definition ranges_ok :: "ranges \<Rightarrow> bool" where
  "ranges_ok rs \<longleftrightarrow> sorted_wrt (\<lambda>x y. snd x < fst y) rs \<and> (\<forall>r \<in> set rs. fst r < snd r)"

definition covered :: "ranges \<Rightarrow> nat set" where
  "covered rs = (\<Union>r \<in> set rs. {fst r..<snd r})"

lemma covered_simps [simp]:
  "covered [] = {}"
  "covered (r # rs) = {fst r..<snd r} \<union> covered rs"
  "covered (xs @ ys) = covered xs \<union> covered ys"
  by (auto simp: covered_def)

lemma ranges_ok_Nil [simp]: "ranges_ok []"
  by (simp add: ranges_ok_def)

lemma ranges_ok_Cons [simp]:
  "ranges_ok (r # rs) \<longleftrightarrow> fst r < snd r \<and> (\<forall>x \<in> set rs. snd r < fst x) \<and> ranges_ok rs"
  by (auto simp: ranges_ok_def)

lemma ranges_ok_append [simp]:
  "ranges_ok (xs @ ys) \<longleftrightarrow>
     ranges_ok xs \<and> ranges_ok ys \<and> (\<forall>x \<in> set xs. \<forall>y \<in> set ys. snd x < fst y)"
  by (auto simp: ranges_ok_def sorted_wrt_append)

lemma ranges_ok_less: "ranges_ok rs \<Longrightarrow> r \<in> set rs \<Longrightarrow> fst r < snd r"
  by (simp add: ranges_ok_def)

lemma ranges_sep_simps [simp]:
  "ranges_sep []"
  "ranges_sep (r # rs) \<longleftrightarrow> fst r \<le> snd r \<and> (\<forall>x \<in> set rs. snd r < fst x) \<and> ranges_sep rs"
  "ranges_sep (xs @ ys) \<longleftrightarrow>
     ranges_sep xs \<and> ranges_sep ys \<and> (\<forall>x \<in> set xs. \<forall>y \<in> set ys. snd x < fst y)"
  by (auto simp: ranges_sep_def sorted_wrt_append)

lemma ranges_sep_le: "ranges_sep rs \<Longrightarrow> r \<in> set rs \<Longrightarrow> fst r \<le> snd r"
  by (simp add: ranges_sep_def)

lemma ranges_ok_iff: "ranges_ok rs \<longleftrightarrow> ranges_sep rs \<and> (\<forall>r \<in> set rs. fst r < snd r)"
  by (auto simp: ranges_ok_def ranges_sep_def)

text \<open>
  The reference for both representations: insertion by recursion on the list, where a range that
  meets the new one is absorbed into it.
\<close>

fun absorb :: "nat \<Rightarrow> nat \<Rightarrow> ranges \<Rightarrow> ranges" where
  "absorb s e [] = [(s, e)]"
| "absorb s e ((s', e') # rs) =
     (if e < s' then (s, e) # (s', e') # rs else absorb s (max e e') rs)"

fun rinsert :: "nat \<Rightarrow> nat \<Rightarrow> ranges \<Rightarrow> ranges" where
  "rinsert a b [] = [(a, b)]"
| "rinsert a b ((s, e) # rs) =
     (if e < a then (s, e) # rinsert a b rs
      else if b < s then (a, b) # (s, e) # rs
      else absorb (min a s) (max b e) rs)"

lemma absorb_ok:
  assumes "ranges_sep rs" and "s \<le> e" and "\<forall>x \<in> set rs. s < fst x"
  shows "ranges_sep (absorb s e rs) \<and> covered (absorb s e rs) = {s..<e} \<union> covered rs
         \<and> fst ` set (absorb s e rs) \<subseteq> insert s (fst ` set rs)
         \<and> length (absorb s e rs) \<le> Suc (length rs)"
  using assms
proof (induction s e rs rule: absorb.induct)
  case (1 s e)
  then show ?case by simp
next
  case (2 s e s' e' rs)
  show ?case
  proof (cases "e < s'")
    case True
    with 2(2-) show ?thesis by force
  next
    case False
    have "{s..<e} \<union> {s'..<e'} = {s..<max e e'}"
      using 2(2-) False by auto
    moreover have "ranges_sep rs" "s \<le> max e e'" "\<forall>x \<in> set rs. s < fst x"
      using 2(2-) by auto
    ultimately show ?thesis
      using 2(1) [OF False] False by auto
  qed
qed

lemma absorb_length: "length (absorb s e rs) \<le> Suc (length rs)"
  by (induction s e rs rule: absorb.induct) (auto simp: le_Suc_eq)

lemma rinsert_ok:
  assumes "ranges_sep rs" and "a \<le> b"
  shows "ranges_sep (rinsert a b rs) \<and> covered (rinsert a b rs) = {a..<b} \<union> covered rs
         \<and> fst ` set (rinsert a b rs) \<subseteq> insert a (fst ` set rs)
         \<and> length (rinsert a b rs) \<le> Suc (length rs)"
  using assms
proof (induction a b rs rule: rinsert.induct)
  case (1 a b)
  then show ?case by simp
next
  case (2 a b s e rs)
  consider "e < a" | "a \<le> e" "b < s" | "a \<le> e" "s \<le> b" by linarith
  then show ?case
  proof cases
    case 1
    have IH: "ranges_sep (rinsert a b rs)" "covered (rinsert a b rs) = {a..<b} \<union> covered rs"
         "fst ` set (rinsert a b rs) \<subseteq> insert a (fst ` set rs)"
         "length (rinsert a b rs) \<le> Suc (length rs)"
      using 2(1) [OF 1] 2(2-) by simp_all
    have "e < fst x" if "x \<in> set (rinsert a b rs)" for x
    proof -
      have "fst x \<in> insert a (fst ` set rs)" using IH(3) that by blast
      then show ?thesis using 1 2(2) by auto
    qed
    moreover have "insert s (fst ` set (rinsert a b rs)) \<subseteq> insert a (insert s (fst ` set rs))"
      using IH(3) by blast
    ultimately show ?thesis using 1 2(2) IH(1,2,4) by (simp add: Un_left_commute)
  next
    case 2
    moreover have "b < fst x" if "x \<in> set rs" for x
      using \<open>ranges_sep ((s, e) # rs)\<close> \<open>b < s\<close> that by auto
    ultimately show ?thesis
      using \<open>ranges_sep ((s, e) # rs)\<close> \<open>a \<le> b\<close> by auto
  next
    case 3
    have "ranges_sep rs" "min a s \<le> max b e" "\<forall>x \<in> set rs. min a s < fst x"
      using 2(2-) by auto
    from absorb_ok [OF this] have abs: "ranges_sep (absorb (min a s) (max b e) rs)"
      "covered (absorb (min a s) (max b e) rs) = {min a s..<max b e} \<union> covered rs"
      "fst ` set (absorb (min a s) (max b e) rs) \<subseteq> insert (min a s) (fst ` set rs)"
      "length (absorb (min a s) (max b e) rs) \<le> Suc (length rs)" by blast+
    moreover have "{min a s..<max b e} = {a..<b} \<union> {s..<e}"
      using 3 2(2-) by auto
    moreover have "rinsert a b ((s, e) # rs) = absorb (min a s) (max b e) rs"
      using 3 by simp
    moreover have "insert (min a s) (fst ` set rs) \<subseteq> insert a (fst ` set ((s, e) # rs))"
      by (cases "a \<le> s") auto
    then have "fst ` set (absorb (min a s) (max b e) rs) \<subseteq> insert a (fst ` set ((s, e) # rs))"
      using abs(3) by (rule order_trans [rotated])
    ultimately show ?thesis by (simp only: covered_simps fst_conv snd_conv Un_assoc) simp
  qed
qed

lemma absorb_nonempty:
  "\<forall>r \<in> set rs. fst r < snd r \<Longrightarrow> s < e \<Longrightarrow> r \<in> set (absorb s e rs) \<Longrightarrow> fst r < snd r"
  by (induction s e rs rule: absorb.induct) (auto split: if_splits)

lemma rinsert_nonempty:
  "\<forall>r \<in> set rs. fst r < snd r \<Longrightarrow> a < b \<Longrightarrow> r \<in> set (rinsert a b rs) \<Longrightarrow> fst r < snd r"
  by (induction a b rs rule: rinsert.induct)
     (auto split: if_splits dest: absorb_nonempty [rotated 2, where r = r])

lemma absorb_below:
  "\<forall>r \<in> set rs. snd r \<le> n \<Longrightarrow> e \<le> n \<Longrightarrow> r \<in> set (absorb s e rs) \<Longrightarrow> snd r \<le> n"
  by (induction s e rs rule: absorb.induct) (auto split: if_splits)

lemma rinsert_below:
  "\<forall>r \<in> set rs. snd r \<le> n \<Longrightarrow> b \<le> n \<Longrightarrow> r \<in> set (rinsert a b rs) \<Longrightarrow> snd r \<le> n"
  by (induction a b rs rule: rinsert.induct)
     (auto split: if_splits dest: absorb_below [rotated 2, where n = n])

lemma rinsert_prefix: "\<forall>x \<in> set xs. snd x < a \<Longrightarrow> rinsert a b (xs @ rs) = xs @ rinsert a b rs"
proof (induction xs)
  case Nil
  then show ?case by simp
next
  case (Cons x xs)
  then show ?case by (cases x) simp
qed

lemma rinsert_above: "ranges_sep rs \<Longrightarrow> \<forall>x \<in> set rs. a < fst x \<Longrightarrow> rinsert a b rs = absorb a b rs"
  by (cases "(a, b, rs)" rule: rinsert.cases) auto

lemma absorb_disjoint: "\<forall>x \<in> set rs. e < fst x \<Longrightarrow> absorb s e rs = (s, e) # rs"
  by (cases rs) auto

subsection \<open>The small vector inserts\<close>

lemma inline_merge_absorb:
  "inline_merge (length pre) e (pre @ (s, e) # rs) = pre @ absorb s e rs"
proof (induction rs arbitrary: e)
  case Nil
  then show ?case by (simp add: inline_merge.simps)
next
  case (Cons r rs)
  obtain s' e' where r: "r = (s', e')" by (cases r)
  have "inline_merge (length pre) (max e e') (pre @ (s, max e e') # rs)
      = pre @ absorb s (max e e') rs"
    by (rule Cons.IH)
  then show ?case
    by (subst inline_merge.simps) (simp add: r nth_append list_update_append max.commute)
qed

lemma inline_insert_from_rinsert:
  assumes "ranges_sep rs" and "length (pre @ rs) \<noteq> capacity"
  shows "inline_insert_from (length pre) capacity a b (pre @ rs) = Some (pre @ rinsert a b rs)"
  using assms
proof (induction rs arbitrary: pre)
  case Nil
  then show ?case by (simp add: inline_insert_from.simps)
next
  case (Cons r rs)
  obtain s e where r: "r = (s, e)" by (cases r)
  have next_pos: "inline_insert_from (Suc (length pre)) capacity a b (pre @ r # rs)
      = Some (pre @ r # rinsert a b rs)"
    using Cons.IH [of "pre @ [r]"] Cons.prems by simp
  have "absorb (min a s) e rs = (min a s, e) # rs"
    using Cons.prems(1) r by (intro absorb_disjoint) simp
  moreover have "(if a < s then a else s) = min a s" by simp
  moreover have "max b e = (if e < b then b else e)" by simp
  ultimately show ?case
    using Cons.prems(2) next_pos inline_merge_absorb [of pre b "min a s" rs]
    by (subst inline_insert_from.simps)
       (simp add: r nth_append list_update_append insert_at_def Let_def)
qed

lemma inline_insert_rinsert:
  "ranges_sep rs \<Longrightarrow> length rs \<noteq> capacity \<Longrightarrow> inline_insert capacity a b rs = Some (rinsert a b rs)"
  using inline_insert_from_rinsert [of rs "[]"] by (simp add: inline_insert_def)

text \<open>
  A full vector gives up its lowest range, except that a range below all others steps the index
  below zero.
\<close>

lemma inline_insert_from_full:
  assumes "ranges_sep rs" and "length (pre @ rs) = capacity" and "pre @ rs \<noteq> []"
  shows "inline_insert_from (length pre) capacity a b (pre @ rs) =
    (if length (pre @ rinsert a b rs) \<le> capacity then Some (pre @ rinsert a b rs)
     else if pre = [] \<and> b < fst (hd rs) \<and> a \<le> snd (hd rs) then None
     else Some (drop 1 (pre @ rinsert a b rs)))"
  using assms
proof (induction rs arbitrary: pre)
  case Nil
  then show ?case by (cases pre) (simp_all add: inline_insert_from.simps)
next
  case (Cons r rs)
  obtain s e where r: "r = (s, e)" by (cases r)
  consider (above) "e < a" | (below) "a \<le> e" "b < s" | (meets) "a \<le> e" "s \<le> b" by linarith
  then show ?case
  proof cases
    case above
    then have "inline_insert_from (length pre) capacity a b (pre @ r # rs)
        = inline_insert_from (length (pre @ [r])) capacity a b ((pre @ [r]) @ rs)"
      by (subst inline_insert_from.simps) (simp add: r nth_append)
    then show ?thesis using Cons.IH [of "pre @ [r]"] Cons.prems above by (simp add: r)
  next
    case below
    then show ?thesis using Cons.prems(2)
      by (subst inline_insert_from.simps, cases pre) (simp_all add: r nth_append insert_at_def)
  next
    case meets
    have "absorb (min a s) e rs = (min a s, e) # rs"
      using Cons.prems(1) r by (intro absorb_disjoint) simp
    moreover note absorb_length [of "min a s" "max b e" rs]
    moreover have "(if a < s then a else s) = min a s" "max b e = (if e < b then b else e)" by simp_all
    ultimately show ?thesis
      using meets Cons.prems(2) inline_merge_absorb [of pre b "min a s" rs]
      by (subst inline_insert_from.simps) (simp add: r nth_append list_update_append Let_def)
  qed
qed

subsection \<open>The ordered map inserts\<close>

lemma next_to_split:
  assumes "\<forall>x \<in> set L. fst x < k" and "\<forall>x \<in> set R. k \<le> fst x"
  shows "next_to k (L @ R) = (case R of [] \<Rightarrow> None | r # _ \<Rightarrow> Some r)"
proof -
  have "bt_from k (L @ R) = R"
    unfolding bt_from_def by (rule filter_split) (use assms in \<open>auto simp: not_le\<close>)
  then show ?thesis by (simp add: next_to_def)
qed

lemma btree_merge_absorb:
  assumes "\<forall>x \<in> set L. fst x < start" and "\<forall>x \<in> set R. start < fst x \<and> a < fst x"
    and "ranges_sep R" and "a \<le> b" and "b \<le> stop" and "stop = b \<or> (\<forall>x \<in> set R. stop < fst x)"
  shows "\<exists>stop' R'. btree_merge (a, b) start stop (L @ R) = (start, stop', L @ R')
           \<and> absorb start stop R = (start, stop') # R' \<and> stop \<le> stop'
           \<and> (\<forall>x \<in> set R'. start < fst x)"
  using assms
proof (induction R arbitrary: stop)
  case Nil
  then have "next_to start (L @ []) = None"
    using next_to_split [of L start "[]"] by simp
  then show ?case by (simp add: btree_merge.simps)
next
  case (Cons r R)
  obtain s e where r: "r = (s, e)" by (cases r)
  have ok: "s \<le> e" "\<forall>x \<in> set R. e < fst x" "ranges_sep R" and above: "start < s" "a < s"
    using Cons.prems(2,3) r by auto
  have nxt: "next_to start (L @ r # R) = Some r"
    using next_to_split [of L start "r # R"] Cons.prems(1,2) by fastforce
  have rem: "bt_remove (fst r) (L @ r # R) = L @ R"
    unfolding r fst_conv
    by (rule bt_remove_middle) (use Cons.prems(1,2) ok above in fastforce)+
  have IH: "\<exists>stop' R'. btree_merge (a, b) start x (L @ R) = (start, stop', L @ R')
           \<and> absorb start x R = (start, stop') # R' \<and> x \<le> stop' \<and> (\<forall>y \<in> set R'. start < fst y)"
    if "b \<le> x" "x = b \<or> (\<forall>y \<in> set R. x < fst y)" for x
    using Cons.IH [of x] Cons.prems(1,2,4) ok(3) that by simp
  consider (inside) "s < b" "e < b" | (apart) "b < s" | (meets) "s \<le> b" "b \<le> e"
    using ok(1) by linarith
  then show ?case
  proof cases
    case inside
    then have "range_contains (a, b) (fst r) \<and> range_contains (a, b) (snd r)"
      using above ok(1) by (simp add: range_contains_def r)
    then have "btree_merge (a, b) start stop (L @ r # R) = btree_merge (a, b) start stop (L @ R)"
      by (subst btree_merge.simps) (simp add: nxt rem)
    moreover have "absorb start stop (r # R) = absorb start stop R"
      using inside Cons.prems(5) by (simp add: r max_def)
    moreover have "stop = b \<or> (\<forall>y \<in> set R. stop < fst y)"
      using Cons.prems(6) by auto
    ultimately show ?thesis using IH [OF Cons.prems(5)] by auto
  next
    case apart
    then have "\<not> range_overlaps r (a, b)" "\<not> range_contains (a, b) (fst r)"
      using above by (auto simp: range_overlaps_def range_contains_def r)
    then have "btree_merge (a, b) start stop (L @ r # R) = (start, stop, L @ r # R)"
      by (subst btree_merge.simps) (simp add: nxt)
    moreover have "stop < s" using apart Cons.prems(6) r by auto
    then have "absorb start stop (r # R) = (start, stop) # r # R" by (simp add: r)
    ultimately show ?thesis using Cons.prems(2) by auto
  next
    case meets
    then have stop: "stop = b" using Cons.prems(5,6) r by auto
    have "range_overlaps r (a, b)" "\<not> range_contains (a, b) (snd r)"
      using meets by (auto simp: range_overlaps_def range_contains_def r)
    then have "btree_merge (a, b) start stop (L @ r # R)
        = btree_merge (a, b) start (max stop e) (L @ R)"
      using above by (subst btree_merge.simps) (simp add: nxt rem, simp add: r)
    moreover have "absorb start stop (r # R) = absorb start (max stop e) R"
      using meets stop by (simp add: r)
    moreover have "max stop e = b \<or> (\<forall>y \<in> set R. max stop e < fst y)" "b \<le> max stop e"
      using meets stop ok(2) by auto
    ultimately show ?thesis using IH [of "max stop e"] by auto
  qed
qed

lemma ranges_sorted: "ranges_sep rs \<Longrightarrow> bt_ok rs"
proof (induction rs)
  case Nil
  then show ?case by (simp add: bt_ok_def)
next
  case (Cons r rs)
  then show ?case by (force simp: bt_ok_def)
qed

lemma ranges_split:
  assumes "ranges_sep rs"
  shows "\<exists>P R. rs = P @ R \<and> (\<forall>x \<in> set P. fst x \<le> k) \<and> (\<forall>x \<in> set R. k < fst x)"
  using assms
proof (induction rs)
  case Nil
  then show ?case by simp
next
  case (Cons r rs)
  then obtain P R where pr: "rs = P @ R" "\<forall>x \<in> set P. fst x \<le> k" "\<forall>x \<in> set R. k < fst x"
    by auto
  show ?case
  proof (cases "fst r \<le> k")
    case True
    with pr show ?thesis by (intro exI [of _ "r # P"] exI [of _ R]) auto
  next
    case False
    moreover have "k < fst x" if "x \<in> set rs" for x
      using False Cons.prems that by fastforce
    ultimately show ?thesis by (intro exI [of _ "[]"] exI [of _ "r # rs"]) auto
  qed
qed

lemma prev_to_split:
  assumes "\<forall>x \<in> set P. fst x \<le> k" and "\<forall>x \<in> set R. k < fst x"
  shows "prev_to k (P @ R) = (if P = [] then None else Some (last P))"
proof -
  have "bt_upto k (P @ R) = P"
    unfolding bt_upto_def by (rule filter_split(2)) (use assms in \<open>auto simp: not_le\<close>)
  then show ?thesis by (simp add: prev_to_def split: list.split)
qed

text \<open>
  The map inserts where the reference does; at capacity it gives up the lowest of the other ranges.
\<close>

definition give_up_lowest :: "nat \<Rightarrow> ranges \<Rightarrow> nat \<times> nat \<Rightarrow> ranges \<Rightarrow> ranges" where
  "give_up_lowest capacity L r R =
     (if capacity \<le> length L + length R
      then (if L = [] then r # drop 1 R else drop 1 L @ r # R)
      else L @ r # R)"

lemma btree_place_merged:
  assumes L: "\<forall>x \<in> set L. fst x < s" and R: "\<forall>x \<in> set R. s < fst x \<and> a < fst x"
    and ok: "ranges_sep R" and "a \<le> b" and "b \<le> t" and t: "t = b \<or> (\<forall>x \<in> set R. t < fst x)"
  shows "\<exists>e R'. absorb s t R = (s, e) # R' \<and> b \<le> e
           \<and> btree_place capacity (btree_merge (a, b) s t (L @ R)) = give_up_lowest capacity L (s, e) R'"
proof -
  from btree_merge_absorb [OF assms]
  obtain e R' where m: "btree_merge (a, b) s t (L @ R) = (s, e, L @ R')"
    and ab: "absorb s t R = (s, e) # R'" "t \<le> e" and R': "\<forall>x \<in> set R'. s < fst x"
    by blast
  have drop_in: "bt_insert s e (drop n L @ drop k R') = drop n L @ (s, e) # drop k R'" for n k
    by (rule bt_insert_middle) (use L R' in \<open>auto dest: in_set_dropD\<close>)
  have "btree_place capacity (btree_merge (a, b) s t (L @ R)) = give_up_lowest capacity L (s, e) R'"
    using drop_in [of 0 0] drop_in [of 1 0] drop_in [of 0 1]
    unfolding m by (cases L) (simp_all add: btree_place_def give_up_lowest_def)
  with ab \<open>b \<le> t\<close> show ?thesis by auto
qed

lemma btree_insert_rinsert:
  assumes ok: "ranges_sep rs" and "a \<le> b"
  shows "\<exists>L s e R. rinsert a b rs = L @ (s, e) # R \<and> s \<le> a \<and> b \<le> e
           \<and> btree_insert capacity a b rs = give_up_lowest capacity L (s, e) R"
proof -
  obtain P R where rs: "rs = P @ R" and P: "\<forall>x \<in> set P. fst x \<le> a"
    and R: "\<forall>x \<in> set R. a < fst x"
    using ranges_split [OF ok] by blast
  have okR: "ranges_sep R" using ok rs by simp
  have finish: ?thesis
    if "btree_insert capacity a b rs = btree_place capacity (btree_merge (a, b) s t (L @ R))"
      and "\<forall>x \<in> set L. fst x < s" and "\<forall>x \<in> set R. s < fst x" and "s \<le> a" and "b \<le> t"
      and "t = b \<or> (\<forall>x \<in> set R. t < fst x)"
      and "rinsert a b rs = L @ absorb s t R" for L s t
    using btree_place_merged [of L s R a b t capacity] that R okR \<open>a \<le> b\<close> by fastforce
  show ?thesis
  proof (cases P rule: rev_cases)
    case Nil
    then show ?thesis
      using finish [where L = "[]" and s = a and t = b] prev_to_split [OF P R] rinsert_above [OF okR R] R
      by (simp add: btree_insert_def rs)
  next
    case (snoc L r)
    obtain s e where r: "r = (s, e)" by (cases r)
    have "ranges_sep L" and se: "s \<le> e" "s \<le> a" and L: "\<forall>x \<in> set L. snd x < s"
      and R2: "\<forall>x \<in> set R. e < fst x"
      using ok P by (auto simp: rs snoc r)
    have Lf: "\<forall>x \<in> set L. fst x < s"
      using ranges_sep_le [OF \<open>ranges_sep L\<close>] L le_less_trans by blast
    have prev: "prev_to a rs = Some r"
      using prev_to_split [OF P R] by (simp add: rs snoc)
    have La: "\<forall>x \<in> set L. snd x < a" using L se(2) by auto
    show ?thesis
    proof (cases "a \<le> e")
      case True
      then have "range_overlaps r (a, b)" using se by (simp add: range_overlaps_def r)
      moreover have "bt_remove s rs = L @ R"
        unfolding rs snoc r append_assoc append_Cons append_Nil
        by (rule bt_remove_middle) (use Lf R se in auto)
      ultimately have "btree_insert capacity a b rs
          = btree_place capacity (btree_merge (a, b) s (max b e) (L @ R))"
        using prev se by (simp add: btree_insert_def r min_absorb2)
      moreover have "rinsert a b rs = L @ absorb s (max b e) R"
        using rinsert_prefix [OF La, of b "r # R"] True se \<open>a \<le> b\<close>
        by (simp add: rs snoc r min_absorb2)
      ultimately show ?thesis using finish [where L = L and s = s and t = "max b e"] Lf R2 se by force
    next
      case False
      then have "\<not> range_overlaps r (a, b)"
        using se \<open>a \<le> b\<close> by (simp add: range_overlaps_def r)
      then have "btree_insert capacity a b rs = btree_place capacity (btree_merge (a, b) a b (P @ R))"
        using prev by (simp add: btree_insert_def rs)
      moreover have below: "\<forall>x \<in> set P. snd x < a"
        using False La by (auto simp: snoc r)
      then have "rinsert a b rs = P @ absorb a b R"
        using rinsert_prefix [OF below] rinsert_above [OF okR R] by (simp add: rs)
      moreover have "\<forall>x \<in> set P. fst x < a"
        using False se Lf by (auto simp: snoc r)
      ultimately show ?thesis using finish [where L = P and s = a and t = b] R by simp
    qed
  qed
qed

lemma btree_insert_within:
  assumes "ranges_sep rs" and "a \<le> b" and "length (rinsert a b rs) \<le> capacity"
  shows "btree_insert capacity a b rs = rinsert a b rs"
proof -
  obtain L s e R where *: "rinsert a b rs = L @ (s, e) # R"
    "btree_insert capacity a b rs = give_up_lowest capacity L (s, e) R"
    using btree_insert_rinsert [OF assms(1,2)] by blast
  with assms(3) show ?thesis by (simp add: give_up_lowest_def)
qed

lemma btree_insert_full:
  assumes "ranges_sep rs" and "a \<le> b" and "rs \<noteq> []" and "length rs = capacity"
    and "\<not> b < fst (hd rs)" and "\<not> length (rinsert a b rs) \<le> capacity"
  shows "btree_insert capacity a b rs = drop 1 (rinsert a b rs)"
proof -
  obtain L s e R where r: "rinsert a b rs = L @ (s, e) # R" "s \<le> a" "b \<le> e"
    and ins: "btree_insert capacity a b rs = give_up_lowest capacity L (s, e) R"
    using btree_insert_rinsert [OF assms(1,2)] by blast
  obtain s1 e1 rs1 where rs: "rs = (s1, e1) # rs1" using assms(3) by (cases rs) auto
  have "e1 < a" using assms(4-6) absorb_length [of "min a s1" "max b e1" rs1] by (auto simp: rs split: if_splits)
  then have "L \<noteq> []" using r assms(2) by (auto simp: rs)
  then show ?thesis using r(1) ins assms(6) by (cases L) (simp_all add: give_up_lowest_def)
qed

lemma give_up_lowest_ok:
  assumes "ranges_sep (L @ r # R)"
  shows "ranges_sep (give_up_lowest capacity L r R)"
    and "{fst r..<snd r} \<subseteq> covered (give_up_lowest capacity L r R)"
    and "covered (give_up_lowest capacity L r R) \<subseteq> covered (L @ r # R)"
proof -
  have "ranges_sep (drop 1 L @ r # R)" "ranges_sep (r # drop 1 R)"
    using assms by (cases L; cases R; auto)+
  then show "ranges_sep (give_up_lowest capacity L r R)"
    using assms by (auto simp: give_up_lowest_def)
  show "{fst r..<snd r} \<subseteq> covered (give_up_lowest capacity L r R)"
    by (auto simp: give_up_lowest_def)
  show "covered (give_up_lowest capacity L r R) \<subseteq> covered (L @ r # R)"
    by (cases L; cases R) (auto simp: give_up_lowest_def)
qed

subsection \<open>Removing\<close>

lemma inline_remove_until_ok:
  "ranges_ok rs \<Longrightarrow> k + 1 < 2 ^ 64 \<Longrightarrow>
   ranges_ok (inline_remove_until k rs) \<and> covered (inline_remove_until k rs) = covered rs - {..k}
   \<and> length (inline_remove_until k rs) \<le> length rs"
proof (induction k rs rule: inline_remove_until.induct)
  case (1 k)
  then show ?case by simp
next
  case (2 k s e rs)
  have above: "covered rs \<inter> {..k} = {}" if "k < e"
    using 2(2) that by (fastforce simp: covered_def)
  show ?case
  proof (cases "e \<le> k")
    case True
    with 2 show ?thesis by auto
  next
    case False
    then have "{s..<e} - {..k} = {max (k + 1) s..<e}" by auto
    with False above 2(2) show ?thesis
      by (auto simp: Let_def Un_Diff max_def not_le u64_succ [OF 2(3)])
  qed
qed

lemma btree_remove_each_prefix:
  assumes "ranges_ok (P @ R)" and "\<forall>x \<in> set P. fst x \<le> k" and "\<forall>x \<in> set R. k < fst x"
    and "length (P @ R) \<le> capacity" and k: "k + 1 < 2 ^ 64"
  shows "btree_remove_each capacity k P (P @ R)
    = (if P \<noteq> [] \<and> k + 1 < snd (last P) then (k + 1, snd (last P)) # R else R)"
  using assms(1-4)
proof (induction P)
  case Nil
  then show ?case by simp
next
  case (Cons r P)
  have rem: "bt_remove (fst r) (r # P @ R) = P @ R"
    using bt_remove_middle [of "[]" "fst r" "P @ R" "snd r"] Cons.prems(1) by force
  show ?case
  proof (cases P)
    case Nil
    have insert: "btree_insert capacity (k + 1) (snd r) R = (k + 1, snd r) # R" if "k + 1 < snd r"
    proof -
      have "rinsert (k + 1) (snd r) R = (k + 1, snd r) # R"
        using Cons.prems(1) that by (cases R) (auto simp: Nil not_less)
      then show ?thesis
        using btree_insert_within [of R "k + 1" "snd r" capacity] that Cons.prems(1,4)
        by (simp add: ranges_ok_iff)
    qed
    show ?thesis using insert rem by (simp add: Nil u64_succ [OF k])
  next
    case (Cons x xs)
    have "snd r < fst x" using \<open>ranges_ok ((r # P) @ R)\<close> Cons by simp
    moreover have "fst x \<le> k" using \<open>\<forall>x \<in> set (r # P). fst x \<le> k\<close> Cons by simp
    ultimately have "\<not> k + 1 < snd r" by simp
    then show ?thesis
      using Cons.IH \<open>ranges_ok ((r # P) @ R)\<close> Cons.prems rem by (simp add: Cons u64_succ [OF k])
  qed
qed

lemma btree_remove_until_ok:
  assumes ok: "ranges_ok rs" and cap: "length rs \<le> capacity" and k: "k + 1 < 2 ^ 64"
  shows "ranges_ok (btree_remove_until capacity k rs)
         \<and> covered (btree_remove_until capacity k rs) = covered rs - {..k}
         \<and> length (btree_remove_until capacity k rs) \<le> length rs"
proof -
  obtain P R where rs: "rs = P @ R" and P: "\<forall>x \<in> set P. fst x \<le> k" and R: "\<forall>x \<in> set R. k < fst x"
    using ranges_split [of rs k] ok by (auto simp: ranges_ok_iff)
  have "bt_upto k rs = P"
    unfolding bt_upto_def rs by (rule filter_split(2)) (use P R in \<open>auto simp: not_le\<close>)
  then have res: "btree_remove_until capacity k rs
      = (if P \<noteq> [] \<and> k + 1 < snd (last P) then (k + 1, snd (last P)) # R else R)"
    using btree_remove_each_prefix [OF _ P R _ k, of capacity] ok cap
    by (simp add: btree_remove_until_def rs)
  have R0: "covered R \<inter> {..k} = {}"
    using R ok by (fastforce simp: covered_def rs)
  show ?thesis
  proof (cases P rule: rev_cases)
    case Nil
    with res R0 ok show ?thesis by (auto simp: rs)
  next
    case (snoc Q r)
    have "snd x \<le> k" if "x \<in> set Q" for x
      using that ok P by (fastforce simp: rs snoc)
    then have "covered Q \<subseteq> {..k}" by (fastforce simp: covered_def)
    moreover have "{fst r..<snd r} - {..k} = (if k + 1 < snd r then {k + 1..<snd r} else {})"
      using P by (auto simp: snoc)
    moreover have "ranges_ok R" "\<forall>x \<in> set R. snd r < fst x"
      using ok by (auto simp: rs snoc)
    moreover have "covered rs - {..k}
        = (if k + 1 < snd r then {k + 1..<snd r} else {}) \<union> covered R"
      using calculation R0 by (auto simp: rs snoc)
    ultimately show ?thesis
      unfolding res by (auto simp: rs snoc)
  qed
qed

subsection \<open>The set and its two representations\<close>

fun range_set_capacity :: "range_set \<Rightarrow> nat" where
  "range_set_capacity (Inline _ capacity) = capacity"
| "range_set_capacity (BTree _ capacity) = capacity"

abbreviation members :: "range_set \<Rightarrow> nat set" where
  "members rs \<equiv> covered (range_set_iter rs)"

fun small_enough :: "range_set \<Rightarrow> bool" where
  "small_enough (Inline inner _) \<longleftrightarrow> length inner < MAX_INLINE_CAPACITY"
| "small_enough (BTree inner _) \<longleftrightarrow> MIN_TO_INLINE < length inner"

definition range_set_inv :: "range_set \<Rightarrow> bool" where
  "range_set_inv rs \<longleftrightarrow>
     ranges_ok (range_set_iter rs) \<and> range_set_len rs \<le> range_set_capacity rs
     \<and> MAX_INLINE_CAPACITY \<le> range_set_capacity rs \<and> small_enough rs"

text \<open>The same without the demand that no range is empty.\<close>

definition range_set_sep :: "range_set \<Rightarrow> bool" where
  "range_set_sep rs \<longleftrightarrow>
     ranges_sep (range_set_iter rs) \<and> range_set_len rs \<le> range_set_capacity rs
     \<and> MAX_INLINE_CAPACITY \<le> range_set_capacity rs \<and> small_enough rs"

lemma range_set_inv_iff:
  "range_set_inv rs \<longleftrightarrow> range_set_sep rs \<and> (\<forall>r \<in> set (range_set_iter rs). fst r < snd r)"
  by (auto simp: range_set_inv_def range_set_sep_def ranges_ok_iff)

lemma range_set_inv_new: "MAX_INLINE_CAPACITY \<le> capacity \<Longrightarrow> range_set_inv (range_set_new capacity)"
  by (simp add: range_set_inv_def range_set_new_def range_set_len_def MAX_INLINE_CAPACITY_def)

lemma fixup_keeps:
  "range_set_iter (fixup rs) = range_set_iter rs"
  "range_set_capacity (fixup rs) = range_set_capacity rs"
  by (cases rs; simp)+

lemma fixup_small:
  "length (range_set_iter rs) \<le> MAX_INLINE_CAPACITY \<or> (\<exists>inner capacity. rs = BTree inner capacity) \<Longrightarrow>
   small_enough (fixup rs)"
  by (cases rs) (auto simp: MAX_INLINE_CAPACITY_def MIN_TO_INLINE_def)

lemma range_set_insert_sep:
  assumes sep: "range_set_sep rs" and "a \<le> b"
  shows "\<exists>rs'. range_set_insert a b rs = Some rs' \<and> range_set_sep rs'
           \<and> range_set_capacity rs' = range_set_capacity rs
           \<and> range_set_len rs' \<le> Suc (range_set_len rs)
           \<and> {a..<b} \<subseteq> members rs' \<and> members rs' \<subseteq> members rs \<union> {a..<b}
           \<and> set (range_set_iter rs') \<subseteq> set (rinsert a b (range_set_iter rs))
           \<and> (range_set_len rs < range_set_capacity rs \<longrightarrow> range_set_iter rs' = rinsert a b (range_set_iter rs))"
proof (cases rs)
  case (Inline inner capacity)
  have ok: "ranges_sep inner" and len: "length inner < 4" "4 \<le> capacity"
    using sep by (simp_all add: range_set_sep_def Inline MAX_INLINE_CAPACITY_def)
  note spec = rinsert_ok [OF ok \<open>a \<le> b\<close>]
  have "range_set_insert a b rs = Some (fixup (Inline (rinsert a b inner) capacity))"
    using inline_insert_rinsert [OF ok, of capacity a b] len by (simp add: Inline)
  moreover have "small_enough (fixup (Inline (rinsert a b inner) capacity))"
    using spec len by (intro fixup_small) (simp add: MAX_INLINE_CAPACITY_def)
  ultimately show ?thesis
    using spec len
    by (intro exI [of _ "fixup (Inline (rinsert a b inner) capacity)"])
       (auto simp: range_set_sep_def fixup_keeps Inline range_set_len_def MAX_INLINE_CAPACITY_def
        simp del: fixup.simps)
next
  case (BTree inner capacity)
  have ok: "ranges_sep inner" and len: "length inner \<le> capacity" "4 \<le> capacity"
    using sep by (simp_all add: range_set_sep_def BTree MAX_INLINE_CAPACITY_def range_set_len_def)
  note spec = rinsert_ok [OF ok \<open>a \<le> b\<close>]
  obtain L s e R where r: "rinsert a b inner = L @ (s, e) # R" "s \<le> a" "b \<le> e"
    and ins: "btree_insert capacity a b inner = give_up_lowest capacity L (s, e) R"
    using btree_insert_rinsert [OF ok \<open>a \<le> b\<close>] by blast
  let ?new = "give_up_lowest capacity L (s, e) R"
  have good: "ranges_sep ?new" "{s..<e} \<subseteq> covered ?new" "covered ?new \<subseteq> covered (L @ (s, e) # R)"
    using give_up_lowest_ok [of L "(s, e)" R capacity] spec r(1) by auto
  have "length (L @ (s, e) # R) \<le> Suc (length inner)" using spec r(1) by metis
  then have "length ?new \<le> capacity" "length ?new \<le> Suc (length inner)"
    "length inner < capacity \<longrightarrow> ?new = L @ (s, e) # R"
    using len by (cases L; auto simp: give_up_lowest_def)+
  moreover have "{a..<b} \<subseteq> covered ?new" using good(2) r(2,3) by force
  moreover have "covered ?new \<subseteq> covered inner \<union> {a..<b}" using good(3) spec r(1) by auto
  moreover have "small_enough (fixup (BTree ?new capacity))" by (intro fixup_small) simp
  moreover have "set ?new \<subseteq> set (rinsert a b inner)"
    unfolding r(1) give_up_lowest_def by (auto dest: in_set_dropD)
  ultimately show ?thesis
    using good(1) ins len r(1)
    by (intro exI [of _ "fixup (BTree ?new capacity)"])
       (simp add: range_set_sep_def fixup_keeps BTree range_set_len_def MAX_INLINE_CAPACITY_def
        del: fixup.simps)
qed

lemma range_set_insert_spec:
  assumes inv: "range_set_inv rs" and "a < b"
  shows "\<exists>rs'. range_set_insert a b rs = Some rs' \<and> range_set_inv rs'
           \<and> range_set_capacity rs' = range_set_capacity rs
           \<and> range_set_len rs' \<le> Suc (range_set_len rs)
           \<and> {a..<b} \<subseteq> members rs' \<and> members rs' \<subseteq> members rs \<union> {a..<b}
           \<and> (range_set_len rs < range_set_capacity rs \<longrightarrow> members rs' = members rs \<union> {a..<b})"
proof -
  have sep: "range_set_sep rs" and proper: "\<forall>r \<in> set (range_set_iter rs). fst r < snd r"
    using inv by (simp_all add: range_set_inv_iff)
  obtain rs' where rs': "range_set_insert a b rs = Some rs'" "range_set_sep rs'"
    "range_set_capacity rs' = range_set_capacity rs" "range_set_len rs' \<le> Suc (range_set_len rs)"
    "{a..<b} \<subseteq> members rs'" "members rs' \<subseteq> members rs \<union> {a..<b}"
    "set (range_set_iter rs') \<subseteq> set (rinsert a b (range_set_iter rs))"
    "range_set_len rs < range_set_capacity rs \<longrightarrow> range_set_iter rs' = rinsert a b (range_set_iter rs)"
    using range_set_insert_sep [OF sep less_imp_le [OF \<open>a < b\<close>]] by blast
  moreover have "\<forall>r \<in> set (range_set_iter rs'). fst r < snd r"
    using rs'(7) rinsert_nonempty [OF proper \<open>a < b\<close>] by blast
  moreover have "covered (rinsert a b (range_set_iter rs)) = members rs \<union> {a..<b}"
    using rinsert_ok [of "range_set_iter rs" a b] sep \<open>a < b\<close> by (auto simp: range_set_sep_def)
  ultimately show ?thesis by (auto simp: range_set_inv_iff)
qed

lemma range_set_remove_until_spec:
  assumes inv: "range_set_inv rs" and k: "k + 1 < 2 ^ 64"
  shows "range_set_inv (range_set_remove_until k rs)
         \<and> range_set_capacity (range_set_remove_until k rs) = range_set_capacity rs
         \<and> range_set_len (range_set_remove_until k rs) \<le> range_set_len rs
         \<and> members (range_set_remove_until k rs) = members rs - {..k}"
proof (cases rs)
  case (Inline inner capacity)
  let ?new = "inline_remove_until k inner"
  have "ranges_ok inner" "length inner < 4" "length inner \<le> capacity"
    using inv by (simp_all add: range_set_inv_def Inline MAX_INLINE_CAPACITY_def range_set_len_def)
  moreover note inline_remove_until_ok [OF this(1) k]
  moreover from calculation have "small_enough (fixup (Inline ?new capacity))"
    by (intro fixup_small) (auto simp: MAX_INLINE_CAPACITY_def)
  ultimately show ?thesis
    using inv by (simp add: range_set_inv_def Inline fixup_keeps range_set_len_def del: fixup.simps)
next
  case (BTree inner capacity)
  let ?new = "btree_remove_until capacity k inner"
  have "ranges_ok inner" "length inner \<le> capacity"
    using inv by (simp_all add: range_set_inv_def BTree range_set_len_def)
  moreover note btree_remove_until_ok [OF this k]
  moreover have "small_enough (fixup (BTree ?new capacity))"
    by (intro fixup_small) simp
  ultimately show ?thesis
    using inv by (simp add: range_set_inv_def BTree fixup_keeps range_set_len_def del: fixup.simps)
qed

subsection \<open>Recording numbers\<close>

text \<open>
  What a connection relies on: numbers go in by ranges and low ones are pruned.  A recorder has a
  bounded number of slots; while a slot is free nothing is forgotten.
\<close>

datatype record_op = Add nat nat | Prune nat

fun well_formed_op :: "record_op \<Rightarrow> bool" where
  "well_formed_op (Add a b) \<longleftrightarrow> a < b \<and> b < 2 ^ 64"
| "well_formed_op (Prune k) \<longleftrightarrow> k + 1 < 2 ^ 64"

fun recorded :: "record_op list \<Rightarrow> nat set \<Rightarrow> nat set" where
  "recorded [] X = X"
| "recorded (Add a b # ops) X = recorded ops (X \<union> {a..<b})"
| "recorded (Prune k # ops) X = recorded ops (X - {..k})"

fun perform ::
  "(nat \<Rightarrow> nat \<Rightarrow> 's \<Rightarrow> 's option) \<Rightarrow> (nat \<Rightarrow> 's \<Rightarrow> 's) \<Rightarrow> record_op list \<Rightarrow> 's \<Rightarrow> 's option" where
  "perform add prune [] s = Some s"
| "perform add prune (Add a b # ops) s = Option.bind (add a b s) (perform add prune ops)"
| "perform add prune (Prune k # ops) s = perform add prune ops (prune k s)"

lemma recorded_mono: "X \<subseteq> Y \<Longrightarrow> recorded ops X \<subseteq> recorded ops Y"
proof (induction ops arbitrary: X Y)
  case Nil
  then show ?case by simp
next
  case (Cons op ops)
  then show ?case
    by (cases op) (auto intro!: Cons.IH)
qed

locale number_recorder =
  fixes add :: "nat \<Rightarrow> nat \<Rightarrow> 's \<Rightarrow> 's option"
    and prune :: "nat \<Rightarrow> 's \<Rightarrow> 's"
    and contents :: "'s \<Rightarrow> nat set"
    and inv :: "'s \<Rightarrow> bool"
    and slots used :: "'s \<Rightarrow> nat"
  assumes add_law: "inv s \<Longrightarrow> well_formed_op (Add a b) \<Longrightarrow>
      \<exists>s'. add a b s = Some s' \<and> inv s' \<and> slots s' = slots s
        \<and> {a..<b} \<subseteq> contents s' \<and> contents s' \<subseteq> contents s \<union> {a..<b}
        \<and> (used s < slots s \<longrightarrow> contents s' = contents s \<union> {a..<b})"
    and prune_law: "inv s \<Longrightarrow> well_formed_op (Prune k) \<Longrightarrow>
      inv (prune k s) \<and> slots (prune k s) = slots s \<and> contents (prune k s) = contents s - {..k}"
begin

text \<open>A slot was free before each operation.\<close>

definition roomy :: "record_op list \<Rightarrow> 's \<Rightarrow> bool" where
  "roomy ops s \<longleftrightarrow>
     (\<forall>n < length ops. \<forall>s'. perform add prune (take n ops) s = Some s' \<longrightarrow> used s' < slots s)"

lemma roomy_Cons:
  assumes "roomy (op # ops) s" and "perform add prune [op] s = Some s1" and "slots s1 = slots s"
  shows "used s < slots s" "roomy ops s1"
proof -
  show "used s < slots s" using assms(1) by (auto simp: roomy_def dest!: spec [of _ 0])
  have "used s' < slots s" if "n < length ops" "perform add prune (take n ops) s1 = Some s'" for n s'
  proof -
    have "perform add prune (take (Suc n) (op # ops)) s = Some s'"
      using assms(2) that(2) by (cases op) auto
    then show ?thesis using assms(1) that(1) unfolding roomy_def by (metis Suc_less_eq length_Cons)
  qed
  then show "roomy ops s1" by (simp add: roomy_def assms(3))
qed

lemma perform_sound:
  assumes "inv s" and "list_all well_formed_op ops"
  shows "\<exists>s'. perform add prune ops s = Some s' \<and> inv s' \<and> contents s' \<subseteq> recorded ops (contents s)
           \<and> (roomy ops s \<longrightarrow> contents s' = recorded ops (contents s))"
  using assms
proof (induction ops arbitrary: s)
  case Nil
  then show ?case by simp
next
  case (Cons op ops)
  show ?case
  proof (cases op)
    case (Add a b)
    then obtain s1 where s1: "add a b s = Some s1" "inv s1" "slots s1 = slots s"
      "contents s1 \<subseteq> contents s \<union> {a..<b}" "used s < slots s \<longrightarrow> contents s1 = contents s \<union> {a..<b}"
      using add_law [of s a b] Cons.prems by auto
    obtain s2 where s2: "perform add prune ops s1 = Some s2" "inv s2" "contents s2 \<subseteq> recorded ops (contents s1)"
      "roomy ops s1 \<longrightarrow> contents s2 = recorded ops (contents s1)"
      using Cons.IH [OF s1(2)] Cons.prems by auto
    have "contents s2 \<subseteq> recorded ops (contents s \<union> {a..<b})"
      using s2(3) recorded_mono [OF s1(4)] by (rule order_trans)
    moreover have "used s < slots s" "roomy ops s1" if "roomy (op # ops) s"
      using roomy_Cons [OF that _ s1(3)] s1(1) by (simp_all add: Add)
    ultimately show ?thesis using s1 s2 by (auto simp: Add)
  next
    case (Prune k)
    have p: "inv (prune k s)" "slots (prune k s) = slots s" "contents (prune k s) = contents s - {..k}"
      using prune_law [OF Cons.prems(1), of k] Cons.prems(2) by (simp_all add: Prune)
    moreover have "roomy ops (prune k s)" if "roomy (op # ops) s"
      using roomy_Cons(2) [OF that _ p(2)] by (simp add: Prune)
    ultimately show ?thesis
      using Cons.IH [OF p(1)] Cons.prems(2) by (auto simp: Prune)
  qed
qed

end

text \<open>The ends of all ranges are 64-bit numbers.\<close>

definition ranges_fit :: "range_set \<Rightarrow> bool" where
  "ranges_fit rs \<longleftrightarrow> (\<forall>r \<in> set (range_set_iter rs). snd r < 2 ^ 64)"

lemma ranges_fit_iff: "range_set_inv rs \<Longrightarrow> ranges_fit rs \<longleftrightarrow> members rs \<subseteq> {..<2 ^ 64 - 1}"
proof -
  assume "range_set_inv rs"
  then have "ranges_ok (range_set_iter rs)" by (simp add: range_set_inv_def)
  then have "snd r < 2 ^ 64 \<longleftrightarrow> {fst r..<snd r} \<subseteq> {..<2 ^ 64 - 1}" if "r \<in> set (range_set_iter rs)" for r
    using ranges_ok_less [OF _ that] by (simp add: ivl_subset lessThan_atLeast0) arith
  then show ?thesis by (auto simp: ranges_fit_def covered_def)
qed

lemma ranges_fit_mono:
  assumes "range_set_inv rs" and "ranges_fit rs" and "range_set_inv rs'"
    and "members rs' \<subseteq> members rs \<union> {a..<b}" and "b < 2 ^ 64"
  shows "ranges_fit rs'"
proof -
  have "{a..<b} \<subseteq> {..<2 ^ 64 - 1}" using assms(5) by auto
  then have "members rs' \<subseteq> {..<2 ^ 64 - 1}"
    using assms(4) assms(2) [unfolded ranges_fit_iff [OF assms(1)]] by (meson Un_least order_trans)
  then show ?thesis by (simp only: ranges_fit_iff [OF assms(3)])
qed

lemma range_set_add_law:
  assumes "range_set_inv rs \<and> ranges_fit rs" and "well_formed_op (Add a b)"
  shows "\<exists>rs'. range_set_insert a b rs = Some rs' \<and> (range_set_inv rs' \<and> ranges_fit rs')
      \<and> range_set_capacity rs' = range_set_capacity rs \<and> {a..<b} \<subseteq> members rs'
      \<and> members rs' \<subseteq> members rs \<union> {a..<b}
      \<and> (range_set_len rs < range_set_capacity rs \<longrightarrow> members rs' = members rs \<union> {a..<b})"
proof -
  have ab: "a < b" "b < 2 ^ 64" and inv: "range_set_inv rs" "ranges_fit rs" using assms by simp_all
  obtain rs' where rs': "range_set_insert a b rs = Some rs'" "range_set_inv rs'"
    "range_set_capacity rs' = range_set_capacity rs" "{a..<b} \<subseteq> members rs'"
    "members rs' \<subseteq> members rs \<union> {a..<b}"
    "range_set_len rs < range_set_capacity rs \<longrightarrow> members rs' = members rs \<union> {a..<b}"
    using range_set_insert_spec [OF inv(1) ab(1)] by blast
  moreover have "ranges_fit rs'" by (rule ranges_fit_mono [OF inv rs'(2,5) ab(2)])
  ultimately show ?thesis by (intro exI [of _ rs'] conjI)
qed

lemma range_set_prune_law:
  assumes "range_set_inv rs \<and> ranges_fit rs" and "well_formed_op (Prune k)"
  shows "(range_set_inv (range_set_remove_until k rs) \<and> ranges_fit (range_set_remove_until k rs))
      \<and> range_set_capacity (range_set_remove_until k rs) = range_set_capacity rs
      \<and> members (range_set_remove_until k rs) = members rs - {..k}"
proof -
  have k: "k + 1 < 2 ^ 64" and inv: "range_set_inv rs" "ranges_fit rs" using assms by simp_all
  note spec = range_set_remove_until_spec [OF inv(1) k]
  have "members (range_set_remove_until k rs) \<subseteq> members rs \<union> {0..<0}" using spec by auto
  then have "ranges_fit (range_set_remove_until k rs)"
    by (rule ranges_fit_mono [OF inv conjunct1 [OF spec]]) simp
  with spec show ?thesis by (intro conjI) simp_all
qed

interpretation ranges: number_recorder range_set_insert range_set_remove_until
  "\<lambda>rs. members rs" "\<lambda>rs. range_set_inv rs \<and> ranges_fit rs" range_set_capacity range_set_len
  by (unfold_locales) (rule range_set_add_law range_set_prune_law, assumption, assumption)+

text \<open>
  C20: Whatever 64-bit ranges are inserted and however numbers below \<open>2^64 - 1\<close> are pruned in
  between, a set with room for at least four ranges never panics, stays sorted, disjoint and within
  its capacity, and holds only numbers that were inserted and not pruned.  If it had a free slot
  before each operation, it holds all of them.
\<close>

theorem range_set_records_numbers:
  assumes "MAX_INLINE_CAPACITY \<le> capacity" and "list_all well_formed_op ops"
  shows "\<exists>rs. perform range_set_insert range_set_remove_until ops (range_set_new capacity) = Some rs
           \<and> range_set_inv rs \<and> ranges_fit rs \<and> covered (range_set_iter rs) \<subseteq> recorded ops {}
           \<and> ((\<forall>n < length ops. \<forall>rs'. perform range_set_insert range_set_remove_until (take n ops)
                    (range_set_new capacity) = Some rs' \<longrightarrow> range_set_len rs' < capacity)
              \<longrightarrow> covered (range_set_iter rs) = recorded ops {})"
proof -
  have "range_set_inv (range_set_new capacity) \<and> ranges_fit (range_set_new capacity)"
    using range_set_inv_new [OF assms(1)] by (simp add: ranges_fit_def range_set_new_def)
  from ranges.perform_sound [OF this assms(2)] show ?thesis
    by (simp add: ranges.roomy_def range_set_new_def)
qed

definition busy_ops :: "record_op list" where
  "busy_ops = [Add 4 7, Add 9 12, Add 1 2, Add 7 9, Prune 5, Add 20 21, Prune 8]"

theorem range_set_records_numbers_witness:
  "\<exists>rs. perform range_set_insert range_set_remove_until busy_ops (range_set_new 4) = Some rs
     \<and> covered (range_set_iter rs) = recorded busy_ops {}"
proof -
  have "list_all (\<lambda>n. case perform range_set_insert range_set_remove_until (take n busy_ops) (range_set_new 4) of
      None \<Rightarrow> False | Some rs \<Rightarrow> range_set_len rs < 4) [0..<7]" by code_simp
  then have "\<forall>n < length busy_ops. \<forall>rs'. perform range_set_insert range_set_remove_until (take n busy_ops)
      (range_set_new 4) = Some rs' \<longrightarrow> range_set_len rs' < 4"
    by (auto simp: list_all_iff busy_ops_def split: option.splits simp del: perform.simps)
  then show ?thesis
    using range_set_records_numbers [of 4 busy_ops]
    by (auto simp: MAX_INLINE_CAPACITY_def busy_ops_def simp del: perform.simps)
qed

text \<open>
  C31: The two representations agree: on sorted, disjoint ranges within the capacity, the index
  loop over the small vector and the search in the ordered map insert to the same list of ranges,
  also where a full set gives up its lowest range.  The one exception is a range below all others
  on a full set, where the vector panics.
\<close>

theorem inline_and_btree_agree:
  assumes "ranges_sep rs" and "length rs \<le> capacity" and "0 < capacity" and "a \<le> b"
  shows "inline_insert capacity a b rs
    = (if length rs = capacity \<and> b < fst (hd rs) then None else Some (btree_insert capacity a b rs))"
proof (cases "length rs = capacity")
  case False
  then show ?thesis
    using inline_insert_rinsert [OF assms(1), of capacity a b] rinsert_ok [OF assms(1,4)]
      btree_insert_within [OF assms(1,4), of capacity] assms(2) by simp
next
  case True
  then obtain s e rs1 where rs: "rs = (s, e) # rs1" using assms(3) by (cases rs) auto
  have "a \<le> snd (hd rs)" "\<not> length (rinsert a b rs) \<le> capacity" if "b < fst (hd rs)"
    using that assms(1,4) True by (auto simp: rs)
  then show ?thesis
    using inline_insert_from_full [OF assms(1), of "[]" capacity a b] True rs
      btree_insert_within [OF assms(1,4), of capacity] btree_insert_full [OF assms(1,4) _ True]
    by (auto simp: inline_insert_def)
qed

theorem inline_and_btree_agree_witness:
  "inline_insert 6 5 11 [(1, 2), (4, 7), (9, 12), (20, 21)]
     = Some (btree_insert 6 5 11 [(1, 2), (4, 7), (9, 12), (20, 21)])
   \<and> inline_insert 4 14 15 [(1, 2), (4, 7), (9, 12), (20, 21)]
     = Some (btree_insert 4 14 15 [(1, 2), (4, 7), (9, 12), (20, 21)])
   \<and> btree_insert 4 14 15 [(1, 2), (4, 7), (9, 12), (20, 21)] = [(4, 7), (9, 12), (14, 15), (20, 21)]"
proof -
  have "btree_insert 4 14 15 [(1, 2), (4, 7), (9, 12), (20, 21)] = [(4, 7), (9, 12), (14, 15), (20, 21)]"
    by code_simp
  with inline_and_btree_agree [of "[(1, 2), (4, 7), (9, 12), (20, 21)]" 6 5 11]
    inline_and_btree_agree [of "[(1, 2), (4, 7), (9, 12), (20, 21)]" 4 14 15] show ?thesis
    by simp
qed

text \<open>
  C40: A small vector that is full panics on a range below all of its ranges: it removes the lowest
  range and then steps its insertion index below zero.
\<close>

theorem full_inline_panics_below:
  assumes "length inner = capacity" and "inner \<noteq> []"
    and "a \<le> snd (hd inner)" and "b < fst (hd inner)"
  shows "range_set_insert a b (Inline inner capacity) = None"
proof -
  obtain s e rest where inner: "inner = (s, e) # rest"
    using assms(2) by (cases inner) auto
  have "inline_insert_from 0 capacity a b inner = None"
    by (subst inline_insert_from.simps) (use assms in \<open>simp add: inner\<close>)
  then show ?thesis by (simp add: inline_insert_def)
qed

theorem full_inline_panics_below_witness:
  "range_set_insert 1 5 (Inline [(10, 20)] 1) = None"
  using full_inline_panics_below [of "[(10, 20)]" 1 1 5] by simp

end
