(* ===== verification/Quic_Error.thy ===== *)
theory Quic_Error
  imports Octets
begin

text \<open>
  The errors of the QUIC library (\<open>engine/quiche/quiche/src/error.rs\<close>) and the byte cursor of
  \<open>Octets\<close> as the library uses it: a short buffer is reported as \<open>BufferTooShort\<close>.  The second
  half is the vocabulary in which the packet and frame formats are verified: \<open>cursor_at d r\<close> is the
  cursor between the bytes \<open>d\<close> and \<open>r\<close>, and \<open>writes p v\<close> says that the writer \<open>p\<close> appends exactly
  the bytes \<open>v\<close>, or reports that they do not fit.
\<close>

datatype quic_error =
    Done | BufferTooShort | UnknownVersion | InvalidFrame | InvalidPacket | InvalidState
  | InvalidStreamState nat | InvalidTransportParam | CryptoFail | TlsFail | FlowControl | StreamLimit
  | StreamStopped nat | StreamReset nat | FinalSize | CongestionControl | IdLimit
  | OutOfIdentifiers | KeyUpdate | CryptoBufferExceeded | InvalidAckRange | OptimisticAckDetected
  | InvalidDcidInitialization

datatype wire_error_code =
    NoError | InternalError | ConnectionRefused | FlowControlError | StreamLimitError
  | StreamStateError | FinalSizeError | FrameEncodingError | TransportParameterError
  | ConnectionIdLimitError | ProtocolViolation | InvalidToken | ApplicationError
  | WireCryptoBufferExceeded | KeyUpdateError | AeadLimitReached | NoViablePath

fun wire_code :: "wire_error_code \<Rightarrow> nat" where
  "wire_code NoError = 0x0"
| "wire_code InternalError = 0x1"
| "wire_code ConnectionRefused = 0x2"
| "wire_code FlowControlError = 0x3"
| "wire_code StreamLimitError = 0x4"
| "wire_code StreamStateError = 0x5"
| "wire_code FinalSizeError = 0x6"
| "wire_code FrameEncodingError = 0x7"
| "wire_code TransportParameterError = 0x8"
| "wire_code ConnectionIdLimitError = 0x9"
| "wire_code ProtocolViolation = 0xa"
| "wire_code InvalidToken = 0xb"
| "wire_code ApplicationError = 0xc"
| "wire_code WireCryptoBufferExceeded = 0xd"
| "wire_code KeyUpdateError = 0xe"
| "wire_code AeadLimitReached = 0xf"
| "wire_code NoViablePath = 0x10"

fun to_wire :: "quic_error \<Rightarrow> nat" where
  "to_wire Done = wire_code NoError"
| "to_wire InvalidFrame = wire_code FrameEncodingError"
| "to_wire (InvalidStreamState _) = wire_code StreamStateError"
| "to_wire InvalidTransportParam = wire_code TransportParameterError"
| "to_wire FlowControl = wire_code FlowControlError"
| "to_wire StreamLimit = wire_code StreamLimitError"
| "to_wire IdLimit = wire_code ConnectionIdLimitError"
| "to_wire FinalSize = wire_code FinalSizeError"
| "to_wire CryptoBufferExceeded = wire_code WireCryptoBufferExceeded"
| "to_wire KeyUpdate = wire_code KeyUpdateError"
| "to_wire _ = wire_code ProtocolViolation"

type_synonym 'a quic_result = "(quic_error, 'a) outcome"

fun from_octets :: "'a octets_result \<Rightarrow> 'a quic_result" where
  "from_octets (Inl (Error BufferTooShortError)) = Inl (Error BufferTooShort)"
| "from_octets (Inl Panic) = Inl Panic"
| "from_octets (Inr x) = Inr x"

lemma from_octets_Inl: "from_octets (Inl e) = Inl (case e of Error _ \<Rightarrow> Error BufferTooShort | Panic \<Rightarrow> Panic)"
  by (cases "Inl e :: 'a octets_result" rule: from_octets.cases) auto

subsection \<open>Reading fields\<close>

definition read_varint :: "octets \<Rightarrow> (u64 \<times> octets) quic_result" where
  "read_varint b = from_octets (get_varint b)"

definition read_u8 :: "octets \<Rightarrow> (u8 \<times> octets) quic_result" where
  "read_u8 b = from_octets (get_u8 b)"

definition read_u32 :: "octets \<Rightarrow> (u32 \<times> octets) quic_result" where
  "read_u32 b = from_octets (get_u 4 b)"

definition read_bytes :: "nat \<Rightarrow> octets \<Rightarrow> (bytes \<times> octets) quic_result" where
  "read_bytes len b = from_octets (get_bytes len b)"

definition get_bytes_with_varint_length :: "octets \<Rightarrow> (bytes \<times> octets) octets_result" where
  "get_bytes_with_varint_length b =
     outcome_bind (get_varint b) (\<lambda>(len, b). get_bytes (unat len) b)"

definition read_varint_bytes :: "octets \<Rightarrow> (bytes \<times> octets) quic_result" where
  "read_varint_bytes b = from_octets (get_bytes_with_varint_length b)"

subsection \<open>Writing fields\<close>

definition write_varint :: "u64 \<Rightarrow> octets \<Rightarrow> octets quic_result" where
  "write_varint v b = from_octets (put_varint v b)"

definition write_varint_len :: "u64 \<Rightarrow> nat \<Rightarrow> octets \<Rightarrow> octets quic_result" where
  "write_varint_len v len b = from_octets (put_varint_with_len v len b)"

definition write_u8 :: "u8 \<Rightarrow> octets \<Rightarrow> octets quic_result" where
  "write_u8 v b = from_octets (put_u8 v b)"

definition write_uint :: "nat \<Rightarrow> 'a::len word \<Rightarrow> octets \<Rightarrow> octets quic_result" where
  "write_uint len v b = from_octets (put_u len v b)"

definition write_bytes :: "bytes \<Rightarrow> octets \<Rightarrow> octets quic_result" where
  "write_bytes v b = from_octets (put_bytes v b)"

text \<open>A block of writes, each followed by \<open>?\<close>.\<close>

fun in_turn :: "(octets \<Rightarrow> octets quic_result) list \<Rightarrow> octets \<Rightarrow> octets quic_result" where
  "in_turn [] b = Inr b"
| "in_turn (p # ps) b = outcome_bind (p b) (in_turn ps)"

subsection \<open>The cursor between two runs of bytes\<close>

definition cursor_at :: "bytes \<Rightarrow> bytes \<Rightarrow> octets" where
  "cursor_at d r = \<lparr>o_buf = d @ r, o_off = length d\<rparr>"

lemma cursor_at_simps [simp]:
  "o_rest (cursor_at d r) = r" "o_cap (cursor_at d r) = length r" "octets_wf (cursor_at d r)" "o_off (cursor_at d r) = length d"
  "o_buf (cursor_at d r) = d @ r"
  by (simp_all add: cursor_at_def o_rest_def o_cap_def octets_wf_def)

lemma with_slice_at: "octets_with_slice r = cursor_at [] r"
  by (simp add: cursor_at_def octets_with_slice_def)

lemma octets_as_at: "octets_wf b \<Longrightarrow> b = cursor_at (take (o_off b) (o_buf b)) (o_rest b)"
  by (simp add: cursor_at_def o_rest_def octets_wf_def)

lemma skip_at: "octets_skip (length v) (cursor_at d (v @ r)) = cursor_at (d @ v) r"
  by (simp add: cursor_at_def octets_skip_def)

named_theorems wire_read \<open>reading back at a cursor what was written there\<close>

lemma read_varint_at [wire_read]:
  "varint_ok v \<Longrightarrow> read_varint (cursor_at d (varint_encoding v @ r)) = Inr (v, cursor_at (d @ varint_encoding v) r)"
  using get_varint_encoding [of v "cursor_at d (varint_encoding v @ r)" r]
  by (simp add: read_varint_def skip_at)

lemma read_varint_at_end [wire_read]:
  "varint_ok v \<Longrightarrow> read_varint (cursor_at d (varint_encoding v)) = Inr (v, cursor_at (d @ varint_encoding v) [])"
  using read_varint_at [of v d "[]"] by simp

lemma read_u8_at [wire_read]: "read_u8 (cursor_at d (v # r)) = Inr (v, cursor_at (d @ [v]) r)"
  using get_u8_Cons [of "cursor_at d (v # r)" v r] skip_at [of "[v]" d r] by (simp add: read_u8_def)

lemma read_bytes_at [wire_read]:
  "n = length v \<Longrightarrow> read_bytes n (cursor_at d (v @ r)) = Inr (v, cursor_at (d @ v) r)"
  using get_bytes_append [of "cursor_at d (v @ r)" v r n] by (simp add: read_bytes_def skip_at)

lemma read_bytes_at_end [wire_read]: "n = length v \<Longrightarrow> read_bytes n (cursor_at d v) = Inr (v, cursor_at (d @ v) [])"
  using read_bytes_at [of n v d "[]"] by simp

lemma read_varint_bytes_split:
  "read_varint_bytes b = outcome_bind (read_varint b) (\<lambda>(len, b). read_bytes (unat len) b)"
  by (cases "get_varint b")
     (auto simp: read_varint_bytes_def read_varint_def read_bytes_def get_bytes_with_varint_length_def
       from_octets_Inl)

text \<open>The encoding in two bytes that some length fields always have.\<close>

definition varint2_encoding :: "nat \<Rightarrow> bytes" where
  "varint2_encoding n = be_bytes 2 (n + 2 ^ 14)"

lemma length_varint2 [simp]: "length (varint2_encoding n) = 2"
  by (simp add: varint2_encoding_def del: be_bytes.simps)

lemma read_varint2_at [wire_read]:
  assumes "n < 2 ^ 14"
  shows "read_varint (cursor_at d (varint2_encoding n @ r)) = Inr (of_nat n, cursor_at (d @ varint2_encoding n) r)"
  using assms get_varint_tagged [of "cursor_at d (varint2_encoding n @ r)" 1 n 1 r]
    skip_at [of "varint2_encoding n" d r]
  by (simp add: read_varint_def varint2_encoding_def Let_def numeral_2_eq_2 [symmetric]
      del: be_bytes.simps)

subsection \<open>Writers\<close>

abbreviation writes :: "(octets \<Rightarrow> octets quic_result) \<Rightarrow> bytes \<Rightarrow> bool" where
  "writes \<equiv> puts BufferTooShort"

lemmas writes_def = puts_def [of BufferTooShort]

lemmas writes_bind = puts_bind [of BufferTooShort]

lemma writes_Nil: "writes (in_turn []) []"
  by (auto simp: writes_def octets_write_def octets_wf_def)

lemma writes_Cons: "writes p u \<Longrightarrow> writes (in_turn ps) v \<Longrightarrow> writes (in_turn (p # ps)) (u @ v)"
  using writes_bind [of p u "in_turn ps" v] by (simp add: writes_def)

lemma writes_in_turn: "list_all2 writes ps vs \<Longrightarrow> writes (in_turn ps) (concat vs)"
  by (induction ps vs rule: list_all2_induct) (auto simp: writes_Nil intro: writes_Cons simp del: in_turn.simps)

lemma writes_varint: "varint_ok v \<Longrightarrow> writes (write_varint v) (varint_encoding v)"
  using put_varint_eq [of _ v]
  by (auto simp: writes_def write_varint_def put_varint_def octets_varint_len_eq
      put_varint_with_len_def not_le)

lemma writes_varint2: 
  assumes "n < 2 ^ 14"
  shows "writes (write_varint_len (of_nat n) 2) (varint2_encoding n)"
  unfolding writes_def
proof (intro allI impI)
  fix b
  assume wf: "octets_wf b"
  have n: "unat (of_nat n :: u64) = n" using assms by (simp add: unat_of_nat)
  show "write_varint_len (of_nat n) 2 b
      = (if length (varint2_encoding n) \<le> o_cap b then Inr (octets_write (varint2_encoding n) b)
         else Inl (Error BufferTooShort))"
    using wf assms ucast_be_bytes [where 'a = 16, of 2 "of_nat n :: u64"]
    by (auto simp: write_varint_len_def put_varint_with_len_def put_u_def n or_at_octets_write
        varint2_encoding_def be_bytes_nonempty be_bytes_tags [simplified] o_cap_def octets_wf_def
        del: be_bytes.simps)
qed

lemma writes_uint: "writes (write_uint k v) (be_bytes k (unat v))"
  by (auto simp: writes_def write_uint_def put_u_def o_cap_def octets_wf_def)

lemma writes_u8: "writes (write_u8 v) [v]"
proof -
  have "be_bytes 1 (unat v) = [v]" by simp
  then show ?thesis using writes_uint [of 1 v] by (simp add: write_u8_def put_u8_def write_uint_def writes_def)
qed

lemma writes_bytes: "writes (write_bytes v) v"
  by (auto simp: writes_def write_bytes_def put_bytes_def octets_write_def octets_wf_def)

lemma writes_seq: "(\<And>b. p b = in_turn ps b) \<Longrightarrow> list_all2 writes ps vs \<Longrightarrow> v = concat vs \<Longrightarrow> writes p v"
  using writes_in_turn [of ps vs] by (simp add: writes_def)

lemmas writers = writes_varint writes_varint2 writes_uint writes_u8 writes_bytes

subsection \<open>Readers never panic and move forward\<close>

lemma read_varint_spec:
  "read_varint b = Inl (Error BufferTooShort)
   \<or> (\<exists>v b'. read_varint b = Inr (v, b') \<and> varint_ok v \<and> advances b b' \<and> o_cap b' < o_cap b)"
proof (cases "get_varint b")
  case (Inl e)
  then show ?thesis
    using get_varint_never_panics [of b]
    by (cases e) (simp_all add: read_varint_def from_octets_Inl)
next
  case (Inr p)
  then show ?thesis
    using get_varint_advances [of b] get_varint_ok [of b] by (cases p) (auto simp: read_varint_def)
qed

lemma read_bytes_spec:
  "read_bytes n b = Inl (Error BufferTooShort)
   \<or> (\<exists>v b'. read_bytes n b = Inr (v, b') \<and> length v = n \<and> advances b b')"
proof (cases "o_cap b < n")
  case True
  then show ?thesis by (simp add: read_bytes_def get_bytes_def)
next
  case False
  then have "get_bytes n b = Inr (take n (o_rest b), b\<lparr>o_off := o_off b + n\<rparr>)"
    by (simp add: get_bytes_def)
  with get_bytes_advances [OF this] False show ?thesis by (simp add: read_bytes_def o_cap_rest)
qed

lemma read_u8_spec:
  "read_u8 b = Inl (Error BufferTooShort)
   \<or> (\<exists>v b'. read_u8 b = Inr (v, b') \<and> advances b b' \<and> o_cap b' < o_cap b)"
proof (cases "get_u8 b")
  case (Inl e)
  then show ?thesis
    by (auto simp: read_u8_def get_u8_def get_u_def peek_u_def Let_def split: if_splits)
next
  case (Inr p)
  then show ?thesis using get_u8_advances [of b] by (cases p) (auto simp: read_u8_def)
qed

text \<open>
  A reader that never panics and only moves the cursor forward inside its buffer, whatever the
  bytes are; readers are built from readers.
\<close>

definition reader :: "(octets \<Rightarrow> ('a \<times> octets) quic_result) \<Rightarrow> bool" where
  "reader r \<longleftrightarrow> (\<forall>b. r b \<noteq> Inl Panic \<and> (\<forall>x b'. r b = Inr (x, b') \<longrightarrow> advances b b'))"

named_theorems readers \<open>how readers are built\<close>

lemma reader_fields [readers]:
  "reader read_varint" "reader read_u8" "reader (read_bytes n)"
proof -
  show "reader read_varint"
    unfolding reader_def
  proof (intro allI)
    fix b show "read_varint b \<noteq> Inl Panic \<and> (\<forall>x b'. read_varint b = Inr (x, b') \<longrightarrow> advances b b')"
      using read_varint_spec [of b] by auto
  qed
  show "reader read_u8"
    unfolding reader_def
  proof (intro allI)
    fix b show "read_u8 b \<noteq> Inl Panic \<and> (\<forall>x b'. read_u8 b = Inr (x, b') \<longrightarrow> advances b b')"
      using read_u8_spec [of b] by auto
  qed
  show "reader (read_bytes n)"
    unfolding reader_def
  proof (intro allI)
    fix b show "read_bytes n b \<noteq> Inl Panic \<and> (\<forall>x b'. read_bytes n b = Inr (x, b') \<longrightarrow> advances b b')"
      using read_bytes_spec [of n b] by auto
  qed
qed

lemma reader_return [readers]: "reader (\<lambda>b. Inr (g b, b))" "reader (\<lambda>b. Inl (Error e))"
  by (auto simp: reader_def)

lemma reader_bind [readers]:
  assumes "reader r" and "\<And>x. reader (f x)"
  shows "reader (\<lambda>b. outcome_bind (r b) (\<lambda>(x, b). f x b))"
  unfolding reader_def
proof (intro allI conjI impI)
  fix b
  show "outcome_bind (r b) (\<lambda>(x, b). f x b) \<noteq> Inl Panic"
    using assms by (cases "r b") (auto simp: reader_def)
  fix x b'
  assume "outcome_bind (r b) (\<lambda>(x, b). f x b) = Inr (x, b')"
  then obtain y b1 where "r b = Inr (y, b1)" "f y b1 = Inr (x, b')" by auto
  then have "advances b b1" "advances b1 b'" using assms by (auto simp: reader_def)
  then show "advances b b'" by (rule advances_trans)
qed

text \<open>What follows an integer may rely on it being one that fits.\<close>

lemma reader_bind_varint:
  assumes "\<And>x. varint_ok x \<Longrightarrow> reader (f x)"
  shows "reader (\<lambda>b. outcome_bind (read_varint b) (\<lambda>(x, b). f x b))"
proof -
  have "reader (\<lambda>b. outcome_bind (read_varint b) (\<lambda>(x, b). if varint_ok x then f x b else Inl (Error Done)))"
    using assms by (intro readers) (simp add: reader_def)
  moreover have "outcome_bind (read_varint b) (\<lambda>(x, b). if varint_ok x then f x b else Inl (Error Done))
      = outcome_bind (read_varint b) (\<lambda>(x, b). f x b)" for b
    using read_varint_spec [of b] by auto
  ultimately show ?thesis by simp
qed

lemma reader_if [readers]: "reader r \<Longrightarrow> reader s \<Longrightarrow> reader (\<lambda>b. if P then r b else s b)"
  by (cases P) simp_all

lemma reader_varint_bytes [readers]: "reader read_varint_bytes"
proof -
  have "reader (\<lambda>b. outcome_bind (read_varint b) (\<lambda>(len, b). read_bytes (unat len) b))"
    by (intro readers)
  then show ?thesis by (simp add: read_varint_bytes_split reader_def)
qed

end
