(* ===== verification/Recv_Buf.thy ===== *)
theory Recv_Buf
  imports Rust_Collections Quic_Error
begin

text \<open>
  The receive side of a QUIC stream: \<open>range_buf.rs\<close>, \<open>flowcontrol.rs\<close> and
  \<open>stream/recv_buf.rs\<close> under \<open>engine/quiche/quiche/src\<close>.  A chunk is a window on a shared
  buffer; the chunks wait in an ordered map under the offset after their last byte.  A failed
  assertion is \<open>None\<close>; stream offsets are natural numbers, since QUIC bounds them by \<open>2^62\<close>.
\<close>

subsection \<open>Chunks\<close>

record range_buf =
  rb_data :: bytes
  rb_start :: nat
  rb_pos :: nat
  rb_len :: nat
  rb_off :: nat
  rb_fin :: bool

definition range_buf_from :: "bytes \<Rightarrow> nat \<Rightarrow> bool \<Rightarrow> range_buf" where
  "range_buf_from data off fin =
     \<lparr>rb_data = data, rb_start = 0, rb_pos = 0, rb_len = length data, rb_off = off, rb_fin = fin\<rparr>"

definition buf_off :: "range_buf \<Rightarrow> nat" where
  "buf_off b = (rb_off b - rb_start b) + rb_pos b"

definition buf_len :: "range_buf \<Rightarrow> nat" where
  "buf_len b = rb_len b - (rb_pos b - rb_start b)"

definition buf_max_off :: "range_buf \<Rightarrow> nat" where
  "buf_max_off b = buf_off b + buf_len b"

definition buf_is_empty :: "range_buf \<Rightarrow> bool" where
  "buf_is_empty b \<longleftrightarrow> buf_len b = 0"

definition buf_consume :: "nat \<Rightarrow> range_buf \<Rightarrow> range_buf" where
  "buf_consume count b = b\<lparr>rb_pos := rb_pos b + count\<rparr>"

text \<open>What stays and what is split off.\<close>

definition split_off :: "nat \<Rightarrow> range_buf \<Rightarrow> (range_buf \<times> range_buf) option" where
  "split_off at b =
     (if rb_len b < at then None
      else Some
        (b\<lparr>rb_pos := min (rb_pos b) (rb_start b + at), rb_len := at, rb_fin := False\<rparr>,
         \<lparr>rb_data = rb_data b, rb_start = rb_start b + at,
          rb_pos = max (rb_pos b) (rb_start b + at), rb_len = rb_len b - at,
          rb_off = rb_off b + at, rb_fin = rb_fin b\<rparr>))"

definition buf_bytes :: "range_buf \<Rightarrow> bytes" where
  "buf_bytes b = take (rb_start b + rb_len b - rb_pos b) (drop (rb_pos b) (rb_data b))"

subsection \<open>Flow control\<close>

definition WINDOW_INCREASE_FACTOR :: nat where "WINDOW_INCREASE_FACTOR = 2"

definition WINDOW_TRIGGER_FACTOR :: nat where "WINDOW_TRIGGER_FACTOR = 2"

record flow_control =
  fl_consumed :: nat
  fl_max_data :: nat
  fl_window :: nat
  fl_max_window :: nat
  fl_last_update :: "nat option"

definition flow_control_new :: "nat \<Rightarrow> nat \<Rightarrow> nat \<Rightarrow> flow_control" where
  "flow_control_new max_data window max_window =
     \<lparr>fl_consumed = 0, fl_max_data = max_data, fl_window = min window max_window,
      fl_max_window = max_window, fl_last_update = None\<rparr>"

definition add_consumed :: "nat \<Rightarrow> flow_control \<Rightarrow> flow_control" where
  "add_consumed n fl = fl\<lparr>fl_consumed := u64_add (fl_consumed fl) n\<rparr>"

definition should_update_max_data :: "flow_control \<Rightarrow> bool" where
  "should_update_max_data fl \<longleftrightarrow> u64_sub (fl_max_data fl) (fl_consumed fl) < fl_window fl div 2"

definition max_data_next :: "flow_control \<Rightarrow> nat" where
  "max_data_next fl = u64_add (fl_consumed fl) (fl_window fl)"

definition update_max_data :: "nat \<Rightarrow> flow_control \<Rightarrow> flow_control" where
  "update_max_data now fl = fl\<lparr>fl_max_data := max_data_next fl, fl_last_update := Some now\<rparr>"

definition set_window :: "nat \<Rightarrow> flow_control \<Rightarrow> flow_control" where
  "set_window window fl = fl\<lparr>fl_window := min window (fl_max_window fl)\<rparr>"

definition autotune_window :: "nat \<Rightarrow> nat \<Rightarrow> flow_control \<Rightarrow> flow_control" where
  "autotune_window now rtt fl =
     (case fl_last_update fl of
        Some last_update \<Rightarrow>
          if now - last_update < rtt * WINDOW_TRIGGER_FACTOR
          then set_window (u64_mul (fl_window fl) WINDOW_INCREASE_FACTOR) fl else fl
      | None \<Rightarrow> fl)"

definition ensure_window_lower_bound :: "nat \<Rightarrow> flow_control \<Rightarrow> flow_control" where
  "ensure_window_lower_bound min_window fl =
     (if fl_window fl < min_window then set_window min_window fl else fl)"

subsection \<open>The receive buffer\<close>

record recv_buf =
  rv_data :: "(nat, range_buf) btree"
  rv_off :: nat
  rv_len :: nat
  rv_flow_control :: flow_control
  rv_fin_off :: "nat option"
  rv_error :: "nat option"
  rv_drain :: bool

definition recv_buf_new :: "nat \<Rightarrow> nat \<Rightarrow> nat \<Rightarrow> recv_buf" where
  "recv_buf_new max_data initial_window max_window =
     \<lparr>rv_data = [], rv_off = 0, rv_len = 0,
      rv_flow_control = flow_control_new max_data initial_window max_window,
      rv_fin_off = None, rv_error = None, rv_drain = False\<rparr>"

text \<open>
  One pass of a new chunk over the stored chunks: the part of it that is still to be stored here,
  if any, and the parts cut off behind a stored chunk, to be looked at later.
\<close>

fun clip ::
  "range_buf list \<Rightarrow> range_buf \<Rightarrow> range_buf list \<Rightarrow> (range_buf option \<times> range_buf list) option" where
  "clip [] buf pushed = Some (Some buf, pushed)"
| "clip (b # bs) buf pushed =
     (let off = buf_off buf
      in if buf_max_off buf < buf_off b then Some (Some buf, pushed)
         else if buf_off b \<le> off \<and> buf_max_off buf \<le> buf_max_off b then Some (None, pushed)
         else do {
           buf \<leftarrow> (if buf_off b \<le> off \<and> off < buf_max_off b
                   then map_option snd (split_off (buf_max_off b - off) buf) else Some buf);
           (buf, pushed) \<leftarrow>
             (if off < buf_off b \<and> buf_off b < buf_max_off buf
              then map_option (\<lambda>(kept, cut). (kept, pushed @ [cut])) (split_off (buf_off b - off) buf)
              else Some (buf, pushed));
           clip bs buf pushed
         })"

definition discard_read :: "recv_buf \<Rightarrow> range_buf \<Rightarrow> range_buf option" where
  "discard_read self buf =
     (if buf_off buf < rv_off self then map_option snd (split_off (rv_off self - buf_off buf) buf)
      else Some buf)"

definition clip_stored ::
  "recv_buf \<Rightarrow> range_buf \<Rightarrow> (range_buf option \<times> range_buf list) option" where
  "clip_stored self buf =
     (if buf_off buf < rv_len self \<or> buf_is_empty buf
      then clip (map snd (bt_from (buf_off buf) (rv_data self))) buf []
      else Some (Some buf, []))"

definition store_buf :: "range_buf \<Rightarrow> recv_buf \<Rightarrow> recv_buf" where
  "store_buf buf self =
     (let self = self\<lparr>rv_len := max (rv_len self) (buf_max_off buf)\<rparr>
      in if \<not> rv_drain self
         then self\<lparr>rv_data := bt_insert (buf_max_off buf) buf (rv_data self)\<rparr>
         else self\<lparr>rv_off := rv_len self\<rparr>)"

text \<open>The loop over the queue of chunks; \<open>None\<close> also if it does not end.\<close>

partial_function (option) store_all :: "range_buf list \<Rightarrow> recv_buf \<Rightarrow> recv_buf option" where
  [code]: "store_all queue self =
     (case queue of
        [] \<Rightarrow> Some self
      | buf # rest \<Rightarrow>
          Option.bind (discard_read self buf) (\<lambda>buf.
            Option.bind (clip_stored self buf) (\<lambda>(kept, pushed).
              case kept of
                None \<Rightarrow> store_all (rest @ pushed) self
              | Some buf \<Rightarrow> store_all (rest @ pushed) (store_buf buf self))))"

definition recv_write :: "range_buf \<Rightarrow> recv_buf \<Rightarrow> (quic_error + recv_buf) option" where
  "recv_write buf self =
     (if fl_max_data (rv_flow_control self) < buf_max_off buf then Some (Inl FlowControl)
      else if (case rv_fin_off self of
                 Some fin_off \<Rightarrow>
                   fin_off < buf_max_off buf \<or> rb_fin buf \<and> fin_off \<noteq> buf_max_off buf
               | None \<Rightarrow> False) then Some (Inl FinalSize)
      else if rb_fin buf \<and> buf_max_off buf < rv_len self then Some (Inl FinalSize)
      else if rv_fin_off self \<noteq> None \<and> buf_is_empty buf then Some (Inr self)
      else
        (let self = (if rb_fin buf then self\<lparr>rv_fin_off := Some (buf_max_off buf)\<rparr> else self)
         in if \<not> rb_fin buf \<and> buf_is_empty buf then Some (Inr self)
            else if buf_max_off buf \<le> rv_off self \<and> \<not> buf_is_empty buf then Some (Inr self)
            else map_option Inr (store_all [buf] self)))"

definition recv_ready :: "recv_buf \<Rightarrow> bool" where
  "recv_ready self \<longleftrightarrow>
     (case rv_data self of [] \<Rightarrow> False | (_, buf) # _ \<Rightarrow> buf_off buf = rv_off self)"

definition recv_is_fin :: "recv_buf \<Rightarrow> bool" where
  "recv_is_fin self \<longleftrightarrow> rv_fin_off self = Some (rv_off self)"

datatype recv_action = Emit nat | Discard nat

fun action_cap :: "recv_action \<Rightarrow> nat" where
  "action_cap (Emit n) = n"
| "action_cap (Discard n) = n"

text \<open>The reading loop: bytes read, bytes copied out, and the buffer.\<close>

function emit_loop ::
  "bool \<Rightarrow> nat \<Rightarrow> nat \<Rightarrow> bytes \<Rightarrow> recv_buf \<Rightarrow> nat \<times> bytes \<times> recv_buf" where
  "emit_loop copying cap len out self =
     (if 0 < cap \<and> recv_ready self then
        (case rv_data self of
           [] \<Rightarrow> (len, out, self)
         | (k, buf) # rest \<Rightarrow>
             (let n = min (buf_len buf) cap;
                  out = (if copying then out @ take n (buf_bytes buf) else out);
                  self = self\<lparr>rv_off := rv_off self + n\<rparr>
              in if n < buf_len buf
                 then (len + n, out, self\<lparr>rv_data := (k, buf_consume n buf) # rest\<rparr>)
                 else emit_loop copying (cap - n) (len + n) out (self\<lparr>rv_data := rest\<rparr>)))
      else (len, out, self))"
  by pat_completeness auto
termination
  by (relation "measure (\<lambda>(copying, cap, len, out, self). length (rv_data self))") auto

declare emit_loop.simps [simp del]

definition emit_or_discard ::
  "recv_action \<Rightarrow> recv_buf \<Rightarrow> (quic_error + nat \<times> bool) \<times> bytes \<times> recv_buf" where
  "emit_or_discard action self =
     (if \<not> recv_ready self then (Inl Done, [], self)
      else (case rv_error self of
              Some e \<Rightarrow> (Inl (StreamReset e), [], self\<lparr>rv_data := []\<rparr>)
            | None \<Rightarrow>
                (case emit_loop (case action of Emit _ \<Rightarrow> True | Discard _ \<Rightarrow> False)
                        (action_cap action) 0 [] self of
                   (len, out, self) \<Rightarrow>
                     (let self = self\<lparr>rv_flow_control := add_consumed len (rv_flow_control self)\<rparr>
                      in (Inr (len, recv_is_fin self), out, self)))))"

definition recv_emit :: "nat \<Rightarrow> recv_buf \<Rightarrow> (quic_error + nat \<times> bool) \<times> bytes \<times> recv_buf" where
  "recv_emit cap self = emit_or_discard (Emit cap) self"

record reset_return =
  max_data_delta :: nat
  consumed_flowcontrol :: nat

definition reset_return_zero :: reset_return where
  "reset_return_zero = \<lparr>max_data_delta = 0, consumed_flowcontrol = 0\<rparr>"

definition recv_reset ::
  "nat \<Rightarrow> nat \<Rightarrow> recv_buf \<Rightarrow> ((quic_error + reset_return) \<times> recv_buf) option" where
  "recv_reset error_code final_size self =
     (if (case rv_fin_off self of Some fin_off \<Rightarrow> fin_off \<noteq> final_size | None \<Rightarrow> False)
      then Some (Inl FinalSize, self)
      else if final_size < rv_len self then Some (Inl FinalSize, self)
      else if rv_error self \<noteq> None then Some (Inr reset_return_zero, self)
      else
        (let result = \<lparr>max_data_delta = final_size - rv_len self,
                       consumed_flowcontrol = final_size - rv_off self\<rparr>;
             self = self\<lparr>rv_error := Some error_code, rv_off := final_size, rv_data := []\<rparr>
         in case recv_write (range_buf_from [] final_size True) self of
              None \<Rightarrow> None
            | Some (Inl e) \<Rightarrow> Some (Inl e, self)
            | Some (Inr self) \<Rightarrow> Some (Inr result, self)))"

definition recv_shutdown :: "recv_buf \<Rightarrow> (quic_error + nat) \<times> recv_buf" where
  "recv_shutdown self =
     (if rv_drain self then (Inl Done, self)
      else (Inr (rv_len self - rv_off self),
            self\<lparr>rv_drain := True, rv_data := [], rv_off := rv_len self\<rparr>))"

definition almost_full :: "recv_buf \<Rightarrow> bool" where
  "almost_full self \<longleftrightarrow> rv_fin_off self = None \<and> should_update_max_data (rv_flow_control self)"

definition recv_update_max_data :: "nat \<Rightarrow> recv_buf \<Rightarrow> recv_buf" where
  "recv_update_max_data now self =
     self\<lparr>rv_flow_control := update_max_data now (rv_flow_control self)\<rparr>"

definition recv_autotune_window :: "nat \<Rightarrow> nat \<Rightarrow> recv_buf \<Rightarrow> recv_buf" where
  "recv_autotune_window now rtt self =
     self\<lparr>rv_flow_control := autotune_window now rtt (rv_flow_control self)\<rparr>"

subsection \<open>Well-formed chunks\<close>

definition buf_ok :: "range_buf \<Rightarrow> bool" where
  "buf_ok b \<longleftrightarrow>
     rb_start b \<le> rb_pos b \<and> rb_pos b \<le> rb_start b + rb_len b
     \<and> rb_start b + rb_len b \<le> length (rb_data b) \<and> rb_start b \<le> rb_off b"

text \<open>A chunk no byte of which was consumed.\<close>

definition whole :: "range_buf \<Rightarrow> bool" where
  "whole b \<longleftrightarrow> buf_ok b \<and> rb_pos b = rb_start b"

text \<open>A chunk of the stream whose byte at each offset is given by \<open>S\<close>.\<close>

definition carries :: "(nat \<Rightarrow> u8) \<Rightarrow> range_buf \<Rightarrow> bool" where
  "carries S b \<longleftrightarrow> buf_bytes b = map S [buf_off b..<buf_max_off b]"

lemma length_buf_bytes: "buf_ok b \<Longrightarrow> length (buf_bytes b) = buf_len b"
  by (auto simp: buf_ok_def buf_bytes_def buf_len_def)

lemma whole_views:
  assumes "whole b"
  shows "buf_off b = rb_off b" "buf_len b = rb_len b" "buf_max_off b = rb_off b + rb_len b"
    "buf_bytes b = take (rb_len b) (drop (rb_start b) (rb_data b))"
  using assms
  by (auto simp: whole_def buf_ok_def buf_off_def buf_len_def buf_max_off_def buf_bytes_def)

lemma split_off_whole:
  assumes b: "whole b" and at: "at \<le> buf_len b"
  obtains kept cut where "split_off at b = Some (kept, cut)" "whole kept" "whole cut"
    "buf_off kept = buf_off b" "buf_max_off kept = buf_off b + at"
    "buf_off cut = buf_off b + at" "buf_max_off cut = buf_max_off b"
    "\<And>S. carries S b \<Longrightarrow> carries S kept \<and> carries S cut"
proof -
  note v = whole_views [OF b]
  let ?kept = "b\<lparr>rb_pos := min (rb_pos b) (rb_start b + at), rb_len := at, rb_fin := False\<rparr>"
  let ?cut = "\<lparr>rb_data = rb_data b, rb_start = rb_start b + at,
      rb_pos = max (rb_pos b) (rb_start b + at), rb_len = rb_len b - at,
      rb_off = rb_off b + at, rb_fin = rb_fin b\<rparr>"
  have at': "at \<le> rb_len b" using at v by simp
  have kept: "whole ?kept" and cut: "whole ?cut"
    using b at' by (auto simp: whole_def buf_ok_def)
  note vk = whole_views [OF kept] and vc = whole_views [OF cut]
  have "carries S ?kept \<and> carries S ?cut" if "carries S b" for S
  proof -
    have bytes: "take (rb_len b) (drop (rb_start b) (rb_data b)) = map S [rb_off b..<rb_off b + rb_len b]"
      using that v by (simp add: carries_def)
    have "take at (drop (rb_start b) (rb_data b))
        = take at (take (rb_len b) (drop (rb_start b) (rb_data b)))"
      using at' by simp
    also have "\<dots> = map S [rb_off b..<rb_off b + at]"
      unfolding bytes using at' by (simp add: take_map)
    finally have "carries S ?kept" using vk by (simp add: carries_def)
    moreover have "take (rb_len b - at) (drop (rb_start b + at) (rb_data b))
        = drop at (take (rb_len b) (drop (rb_start b) (rb_data b)))"
      by (simp add: drop_take add.commute)
    then have "carries S ?cut"
      using vc at' unfolding bytes by (simp add: carries_def drop_map)
    ultimately show ?thesis by blast
  qed
  then show thesis
    using that [of ?kept ?cut] at' kept cut v vk vc by (simp add: split_off_def)
qed

lemma buf_len_max: "buf_len b = buf_max_off b - buf_off b" and buf_off_le: "buf_off b \<le> buf_max_off b"
  by (simp_all add: buf_max_off_def)

abbreviation span :: "range_buf \<Rightarrow> nat set" where
  "span b \<equiv> {buf_off b..<buf_max_off b}"

subsection \<open>Clipping a new chunk\<close>

text \<open>Stored chunks in order; an empty one can only stand at the end of the stream.\<close>

definition in_order :: "range_buf list \<Rightarrow> bool" where
  "in_order bs \<longleftrightarrow> sorted_wrt (\<lambda>x y. buf_max_off x \<le> buf_off y) bs"

definition apart :: "range_buf \<Rightarrow> range_buf \<Rightarrow> bool" where
  "apart x y \<longleftrightarrow> buf_max_off x \<le> buf_off y \<or> buf_max_off y \<le> buf_off x"

definition within :: "range_buf \<Rightarrow> range_buf \<Rightarrow> bool" where
  "within x y \<longleftrightarrow> buf_off y \<le> buf_off x \<and> buf_max_off x \<le> buf_max_off y"

lemma clip_far: "(\<forall>b \<in> set bs. buf_max_off buf < buf_off b) \<Longrightarrow> clip bs buf pushed = Some (Some buf, pushed)"
  by (cases bs) auto

text \<open>
  What clipping promises: the pieces lie in the new chunk and carry its bytes; together with the
  stored chunks they cover it; the piece to be stored is apart from every stored chunk; at most one
  piece is put off, and it is shorter.
\<close>

definition clip_post ::
  "(nat \<Rightarrow> u8) \<Rightarrow> range_buf list \<Rightarrow> range_buf \<Rightarrow> range_buf option \<Rightarrow> range_buf list \<Rightarrow> bool" where
  "clip_post S bs buf kept cuts \<longleftrightarrow>
     (\<forall>c \<in> set cuts. whole c \<and> carries S c \<and> buf_off buf \<le> buf_off c
        \<and> buf_off c < buf_max_off c \<and> buf_max_off c \<le> buf_max_off buf)
     \<and> (cuts = [] \<or> (\<exists>c. cuts = [c] \<and> buf_len c < buf_len buf))
     \<and> span buf \<subseteq> (case kept of None \<Rightarrow> {} | Some k \<Rightarrow> span k)
         \<union> (\<Union>b \<in> set bs. span b) \<union> (\<Union>c \<in> set cuts. span c)
     \<and> (case kept of
          None \<Rightarrow> buf_off buf = buf_max_off buf \<longrightarrow> (\<exists>b \<in> set bs. buf_max_off buf \<le> buf_max_off b)
        | Some k \<Rightarrow> whole k \<and> carries S k \<and> buf_off buf \<le> buf_off k
            \<and> buf_max_off k \<le> buf_max_off buf
            \<and> (buf_off k < buf_max_off k \<or> k = buf)
            \<and> (\<forall>b \<in> set bs. apart k b \<and> \<not> within k b))"

lemma clip_post_later:
  assumes "clip_post S bs buf' kept cuts"
    and "buf_off buf \<le> buf_off buf'" and "buf_max_off buf' = buf_max_off buf"
    and "span buf \<subseteq> span buf' \<union> span b" and "buf' = buf \<or> buf_off buf' < buf_max_off buf'"
    and "buf_max_off b \<le> buf_off buf' \<and> buf_max_off b < buf_max_off buf
         \<or> buf_max_off buf \<le> buf_off b \<and> buf_off buf' < buf_off b"
  shows "clip_post S (b # bs) buf kept cuts"
proof -
  have "apart k b \<and> \<not> within k b" if "buf_off buf' \<le> buf_off k" "buf_max_off k \<le> buf_max_off buf'"
    "buf_off k < buf_max_off k \<or> k = buf'" for k
    using that assms(3,6) buf_off_le [of k] by (auto simp: apart_def within_def)
  moreover have "buf_len buf' \<le> buf_len buf"
    using assms(2,3) by (simp add: buf_len_max)
  ultimately show ?thesis
    using assms unfolding clip_post_def
    by (cases kept) (auto simp: subset_iff)
qed

lemma clip_spec:
  assumes "in_order bs" and "whole buf" and "carries S buf"
    and "\<forall>b \<in> set bs. buf_off b < buf_max_off b \<or> buf_max_off buf \<le> buf_off b"
  shows "\<exists>kept cuts. clip bs buf pushed = Some (kept, pushed @ cuts) \<and> clip_post S bs buf kept cuts"
  using assms
proof (induction bs arbitrary: buf pushed)
  case Nil
  then show ?case by (auto simp: clip_post_def)
next
  case (Cons b bs)
  let ?lo = "buf_off buf" and ?hi = "buf_max_off buf" and ?bl = "buf_off b" and ?bh = "buf_max_off b"
  have rest: "in_order bs" "\<forall>x \<in> set bs. ?bh \<le> buf_off x"
    using Cons.prems(1) by (auto simp: in_order_def)
  have le: "?lo \<le> ?hi" "?bl \<le> ?bh" by (simp_all add: buf_off_le)
  have IH: "\<exists>kept cuts. clip bs x pushed = Some (kept, pushed @ cuts) \<and> clip_post S bs x kept cuts"
    if "whole x" "carries S x" "buf_max_off x = ?hi" for x pushed
    using Cons.IH [OF rest(1) that(1,2)] Cons.prems(4) that(3) by simp
  consider (before) "?hi < ?bl" | (inside) "?bl \<le> ?hi" "?bl \<le> ?lo" "?hi \<le> ?bh"
    | (front) "?bl \<le> ?lo" "?lo < ?bh" "?bh < ?hi" | (tail) "?lo < ?bl" "?bl < ?hi"
    | (touch) "?lo < ?bl" "?hi = ?bl" | (after) "?bh \<le> ?lo" "?bh < ?hi" "?bl \<le> ?lo"
    using le by linarith
  then show ?case
  proof cases
    case before
    moreover have "apart buf x \<and> \<not> within buf x" if "x \<in> set (b # bs)" for x
      using before rest(2) le that by (force simp: apart_def within_def)
    ultimately show ?thesis
      using Cons.prems(2,3) by (auto simp: clip_post_def)
  next
    case inside
    then show ?thesis by (auto simp: clip_post_def)
  next
    case front
    then have at: "?bh - ?lo \<le> buf_len buf" by (simp add: buf_len_max)
    obtain kept cut where s: "split_off (?bh - ?lo) buf = Some (kept, cut)" "whole cut"
      "buf_off cut = ?lo + (?bh - ?lo)" "buf_max_off cut = ?hi" "carries S cut"
      using split_off_whole [OF Cons.prems(2) at] Cons.prems(3) by metis
    have "clip (b # bs) buf pushed = clip bs cut pushed"
      using front s by (simp add: Let_def)
    moreover have "clip_post S (b # bs) buf k cs" if "clip_post S bs cut k cs" for k cs
      by (rule clip_post_later [OF that]) (use s front in auto)
    ultimately show ?thesis using IH [OF s(2,5,4), of pushed] by fastforce
  next
    case tail
    then have at: "?bl - ?lo \<le> buf_len buf" by (simp add: buf_len_max)
    obtain kept cut where s: "split_off (?bl - ?lo) buf = Some (kept, cut)" "whole kept" "whole cut"
      "buf_off kept = ?lo" "buf_max_off kept = ?lo + (?bl - ?lo)"
      "buf_off cut = ?lo + (?bl - ?lo)" "buf_max_off cut = ?hi" "carries S kept" "carries S cut"
      using split_off_whole [OF Cons.prems(2) at] Cons.prems(3) by metis
    have b: "?bl < ?bh" using Cons.prems(4) tail by auto
    have "clip bs kept (pushed @ [cut]) = Some (Some kept, pushed @ [cut])"
      by (rule clip_far) (use s(5) rest(2) b tail in auto)
    then have "clip (b # bs) buf pushed = Some (Some kept, pushed @ [cut])"
      using tail s by (simp add: Let_def)
    moreover have "apart kept x \<and> \<not> within kept x" if "x \<in> set (b # bs)" for x
      using s(4,5) rest(2) b tail that by (force simp: apart_def within_def)
    then have "clip_post S (b # bs) buf (Some kept) [cut]"
      using s tail by (auto simp: clip_post_def buf_len_max)
    ultimately show ?thesis by blast
  next
    case touch
    then have "clip (b # bs) buf pushed = clip bs buf pushed" by (simp add: Let_def)
    moreover have "clip_post S (b # bs) buf k cs" if "clip_post S bs buf k cs" for k cs
      by (rule clip_post_later [OF that]) (use touch in auto)
    ultimately show ?thesis using IH [OF Cons.prems(2,3) refl, of pushed] by fastforce
  next
    case after
    then have "clip (b # bs) buf pushed = clip bs buf pushed" using le by (auto simp: Let_def)
    moreover have "clip_post S (b # bs) buf k cs" if "clip_post S bs buf k cs" for k cs
      by (rule clip_post_later [OF that]) (use after in auto)
    ultimately show ?thesis using IH [OF Cons.prems(2,3) refl, of pushed] by fastforce
  qed
qed

subsection \<open>Storing\<close>

definition chunks :: "recv_buf \<Rightarrow> range_buf set" where
  "chunks r = snd ` set (rv_data r)"

definition received :: "recv_buf \<Rightarrow> nat set" where
  "received r = (\<Union>b \<in> chunks r. span b)"

text \<open>
  The invariant of a buffer that receives the stream \<open>S\<close>: each chunk is filed under its end,
  carries its part of the stream, starts at or after the read offset and ends at or before the
  highest offset seen; of two chunks one lies before the other; an empty chunk marks the end.
\<close>

definition recv_inv :: "(nat \<Rightarrow> u8) \<Rightarrow> recv_buf \<Rightarrow> bool" where
  "recv_inv S r \<longleftrightarrow>
     bt_ok (rv_data r)
     \<and> (\<forall>e \<in> set (rv_data r). fst e = buf_max_off (snd e))
     \<and> (\<forall>b \<in> chunks r. buf_ok b \<and> carries S b \<and> rv_off r \<le> buf_off b \<and> buf_max_off b \<le> rv_len r
          \<and> (buf_off b < buf_max_off b \<or> rv_fin_off r = Some (buf_max_off b)))
     \<and> (\<forall>x \<in> chunks r. \<forall>y \<in> chunks r. buf_max_off x < buf_max_off y \<longrightarrow> buf_max_off x \<le> buf_off y)
     \<and> rv_off r \<le> rv_len r
     \<and> (\<forall>n. rv_fin_off r = Some n \<longrightarrow> rv_len r \<le> n)
     \<and> (rv_drain r \<longrightarrow> rv_data r = [] \<and> rv_off r = rv_len r)"

lemma recv_invD:
  assumes "recv_inv S r"
  shows "bt_ok (rv_data r)"
    and "\<And>e. e \<in> set (rv_data r) \<Longrightarrow> fst e = buf_max_off (snd e)"
    and "\<And>b. b \<in> chunks r \<Longrightarrow> buf_ok b \<and> carries S b \<and> rv_off r \<le> buf_off b \<and> buf_max_off b \<le> rv_len r"
    and "\<And>b. b \<in> chunks r \<Longrightarrow> buf_off b < buf_max_off b \<or> rv_fin_off r = Some (buf_max_off b)"
    and "\<And>x y. x \<in> chunks r \<Longrightarrow> y \<in> chunks r \<Longrightarrow> buf_max_off x < buf_max_off y \<Longrightarrow> buf_max_off x \<le> buf_off y"
    and "rv_off r \<le> rv_len r"
    and "\<And>n. rv_fin_off r = Some n \<Longrightarrow> rv_len r \<le> n"
    and "rv_drain r \<Longrightarrow> rv_data r = []" and "rv_drain r \<Longrightarrow> rv_off r = rv_len r"
  using assms unfolding recv_inv_def by blast+

lemma stored_in_order:
  assumes "recv_inv S r"
  shows "in_order (map snd (rv_data r))"
proof -
  have "sorted_wrt (\<lambda>x y. fst x < fst y) (rv_data r)"
    using recv_invD(1) [OF assms] by (simp add: bt_ok_def sorted_wrt_map)
  then have "sorted_wrt (\<lambda>x y. buf_max_off (snd x) \<le> buf_off (snd y)) (rv_data r)"
  proof (rule sorted_wrt_mono_rel [rotated])
    fix x y assume "x \<in> set (rv_data r)" "y \<in> set (rv_data r)" "fst x < fst y"
    then show "buf_max_off (snd x) \<le> buf_off (snd y)"
      using recv_invD(2,5) [OF assms] by (simp add: chunks_def)
  qed
  then show ?thesis by (simp add: in_order_def sorted_wrt_map)
qed

lemma in_order_filter: "in_order (map snd m) \<Longrightarrow> in_order (map snd (filter P m))"
  by (auto simp: in_order_def sorted_wrt_map sorted_wrt_filter)

text \<open>The chunk a queue of new chunks may hold.\<close>

definition admissible :: "(nat \<Rightarrow> u8) \<Rightarrow> recv_buf \<Rightarrow> range_buf \<Rightarrow> bool" where
  "admissible S r b \<longleftrightarrow>
     whole b \<and> carries S b
     \<and> (buf_off b < buf_max_off b \<or> rv_fin_off r = Some (buf_max_off b) \<and> rv_off r \<le> buf_off b)
     \<and> (\<forall>n. rv_fin_off r = Some n \<longrightarrow> buf_max_off b \<le> n)"

lemma discard_read_spec:
  assumes "admissible S r b" and "rv_off r < buf_max_off b \<or> rv_off r \<le> buf_off b"
  shows "\<exists>b'. discard_read r b = Some b' \<and> admissible S r b' \<and> rv_off r \<le> buf_off b'
           \<and> buf_max_off b' = buf_max_off b \<and> buf_off b \<le> buf_off b' \<and> span b - {..<rv_off r} = span b'"
proof (cases "buf_off b < rv_off r")
  case True
  then have at: "rv_off r - buf_off b \<le> buf_len b" using assms(2) by (auto simp: buf_len_max)
  have b: "whole b" "carries S b" using assms(1) by (simp_all add: admissible_def)
  obtain kept cut where s: "split_off (rv_off r - buf_off b) b = Some (kept, cut)" "whole cut"
    "buf_off cut = buf_off b + (rv_off r - buf_off b)" "buf_max_off cut = buf_max_off b" "carries S cut"
    using split_off_whole [OF b(1) at] b(2) by metis
  with True assms show ?thesis
    by (auto simp: discard_read_def admissible_def)
next
  case False
  with assms show ?thesis by (auto simp: discard_read_def)
qed

lemma clip_stored_spec:
  assumes inv: "recv_inv S r" and b: "admissible S r b"
  shows "\<exists>kept cuts. clip_stored r b = Some (kept, cuts)
     \<and> (\<forall>c \<in> set cuts. admissible S r c \<and> buf_off b \<le> buf_off c \<and> buf_max_off c \<le> buf_max_off b
          \<and> buf_off c < buf_max_off c)
     \<and> (cuts = [] \<or> (\<exists>c. cuts = [c] \<and> buf_len c < buf_len b))
     \<and> span b \<subseteq> (case kept of None \<Rightarrow> {} | Some k \<Rightarrow> span k) \<union> received r \<union> (\<Union>c \<in> set cuts. span c)
     \<and> (case kept of None \<Rightarrow> True
        | Some k \<Rightarrow> whole k \<and> carries S k \<and> buf_off b \<le> buf_off k \<and> buf_max_off k \<le> buf_max_off b
            \<and> (buf_off k < buf_max_off k \<or> rv_fin_off r = Some (buf_max_off k))
            \<and> (\<forall>x \<in> chunks r. apart k x)
            \<and> (\<forall>x \<in> chunks r. buf_max_off x = buf_max_off k \<longrightarrow> buf_off x = buf_max_off x))"
proof (cases "buf_off b < rv_len r \<or> buf_is_empty b")
  case False
  then have "rv_len r \<le> buf_off b" "buf_off b < buf_max_off b"
    by (auto simp: buf_is_empty_def buf_len_max)
  moreover have "buf_max_off x \<le> buf_off b" if "x \<in> chunks r" for x
    using recv_invD(3) [OF inv that] calculation(1) by linarith
  ultimately show ?thesis
    using b False by (force simp: clip_stored_def apart_def admissible_def)
next
  case True
  let ?bs = "map snd (bt_from (buf_off b) (rv_data r))"
  have bs: "set ?bs = {x \<in> chunks r. buf_off b \<le> buf_max_off x}"
    using recv_invD(2) [OF inv] by (force simp: bt_from_def chunks_def)
  have "\<forall>x \<in> set ?bs. buf_off x < buf_max_off x \<or> buf_max_off b \<le> buf_off x"
    using recv_invD(4) [OF inv] b buf_off_le unfolding bs admissible_def
    by (metis (lifting) mem_Collect_eq order_le_less)
  then obtain kept cuts where c: "clip ?bs b [] = Some (kept, cuts)"
    and post: "clip_post S ?bs b kept cuts"
    using clip_spec [of ?bs b S "[]"] b in_order_filter [OF stored_in_order [OF inv]]
    by (auto simp: admissible_def bt_from_def)
  have sub: "(\<Union>x \<in> set ?bs. span x) \<subseteq> received r"
    unfolding bs by (auto simp: received_def)
  have far: "apart k x \<and> (buf_max_off x = buf_max_off k \<longrightarrow> buf_off x = buf_max_off x)"
    if "kept = Some k" "x \<in> chunks r" for k x
  proof (cases "x \<in> set ?bs")
    case True
    then have "apart k x" "\<not> within k x" using post that(1) by (auto simp: clip_post_def)
    then show ?thesis
      using buf_off_le [of x] buf_off_le [of k] by (auto simp: apart_def within_def)
  next
    case False
    then have "buf_max_off x < buf_off k"
      using post that unfolding bs by (auto simp: clip_post_def)
    then show ?thesis using buf_off_le [of k] by (auto simp: apart_def)
  qed
  have "\<forall>c \<in> set cuts. admissible S r c \<and> buf_off b \<le> buf_off c \<and> buf_max_off c \<le> buf_max_off b
      \<and> buf_off c < buf_max_off c"
    using post b order_trans unfolding clip_post_def admissible_def by blast
  moreover have "cuts = [] \<or> (\<exists>c. cuts = [c] \<and> buf_len c < buf_len b)"
    using post by (simp add: clip_post_def)
  moreover have "span b \<subseteq> (case kept of None \<Rightarrow> {} | Some k \<Rightarrow> span k) \<union> received r
      \<union> (\<Union>c \<in> set cuts. span c)"
    using post sub unfolding clip_post_def by blast
  moreover have "clip_stored r b = Some (kept, cuts)"
    using True c by (simp add: clip_stored_def)
  moreover have "case kept of None \<Rightarrow> True
      | Some k \<Rightarrow> whole k \<and> carries S k \<and> buf_off b \<le> buf_off k \<and> buf_max_off k \<le> buf_max_off b
          \<and> (buf_off k < buf_max_off k \<or> rv_fin_off r = Some (buf_max_off k))
          \<and> (\<forall>x \<in> chunks r. apart k x)
          \<and> (\<forall>x \<in> chunks r. buf_max_off x = buf_max_off k \<longrightarrow> buf_off x = buf_max_off x)"
  proof (cases kept)
    case (Some k)
    with post b have "whole k \<and> carries S k \<and> buf_off b \<le> buf_off k \<and> buf_max_off k \<le> buf_max_off b"
      "buf_off k < buf_max_off k \<or> rv_fin_off r = Some (buf_max_off k)"
      by (auto simp: clip_post_def admissible_def)
    with far Some show ?thesis by simp
  qed simp
  ultimately show ?thesis by blast
qed

lemma whole_ok: "whole b \<Longrightarrow> buf_ok b"
  by (simp add: whole_def)

lemma store_buf_spec:
  assumes inv: "recv_inv S r" and drain: "\<not> rv_drain r"
    and k: "whole k" "carries S k" "rv_off r \<le> buf_off k"
      "buf_off k < buf_max_off k \<or> rv_fin_off r = Some (buf_max_off k)"
      "\<forall>n. rv_fin_off r = Some n \<longrightarrow> buf_max_off k \<le> n"
    and far: "\<forall>x \<in> chunks r. apart k x"
    and same: "\<forall>x \<in> chunks r. buf_max_off x = buf_max_off k \<longrightarrow> buf_off x = buf_max_off x"
  shows "recv_inv S (store_buf k r) \<and> received (store_buf k r) = received r \<union> span k"
proof -
  note ok = recv_invD [OF inv]
  let ?r = "store_buf k r"
  have data: "rv_data ?r = bt_insert (buf_max_off k) k (rv_data r)"
    and len: "rv_len ?r = max (rv_len r) (buf_max_off k)"
    and other: "rv_off ?r = rv_off r" "rv_fin_off ?r = rv_fin_off r" "rv_drain ?r = rv_drain r"
    using drain by (simp_all add: store_buf_def Let_def)
  have entries: "set (rv_data ?r)
      = insert (buf_max_off k, k) {e \<in> set (rv_data r). fst e \<noteq> buf_max_off k}"
    by (simp add: data set_bt_insert [OF ok(1)])
  have chunks: "chunks ?r = insert k {x \<in> chunks r. buf_max_off x \<noteq> buf_max_off k}"
    using ok(2) unfolding chunks_def entries by (auto simp: image_iff)
  have "recv_inv S ?r"
    unfolding recv_inv_def
  proof (intro conjI ballI allI impI)
    show "bt_ok (rv_data ?r)" unfolding data by (rule bt_ok_insert [OF ok(1)])
    show "fst e = buf_max_off (snd e)" if "e \<in> set (rv_data ?r)" for e
      using that ok(2) unfolding entries by auto
    fix b assume b: "b \<in> chunks ?r"
    show "buf_ok b" "carries S b" "rv_off ?r \<le> buf_off b" "buf_max_off b \<le> rv_len ?r"
      "buf_off b < buf_max_off b \<or> rv_fin_off ?r = Some (buf_max_off b)"
      using b k ok(3,4) whole_ok unfolding chunks len other by (auto simp: le_max_iff_disj)
  next
    fix x y assume "x \<in> chunks ?r" "y \<in> chunks ?r" "buf_max_off x < buf_max_off y"
    then show "buf_max_off x \<le> buf_off y"
      using ok(5) [of x y] bspec [OF far, of x] bspec [OF far, of y] buf_off_le [of x] buf_off_le [of y]
      unfolding chunks apart_def by (cases "x = k"; cases "y = k") auto
  next
    show "rv_off ?r \<le> rv_len ?r" using ok(6) by (simp add: len other)
    show "rv_len ?r \<le> n" if "rv_fin_off ?r = Some n" for n
      using that ok(7) k(5) by (simp add: len other)
    show "rv_data ?r = []" "rv_off ?r = rv_len ?r" if "rv_drain ?r"
      using that drain other by simp_all
  qed
  moreover have "received ?r = received r \<union> span k"
    unfolding received_def chunks using same by (auto simp: atLeastLessThan_empty)
  ultimately show ?thesis by blast
qed

lemma store_buf_frame:
  "\<not> rv_drain r \<Longrightarrow>
   rv_off (store_buf k r) = rv_off r \<and> rv_fin_off (store_buf k r) = rv_fin_off r
   \<and> rv_drain (store_buf k r) = rv_drain r \<and> rv_error (store_buf k r) = rv_error r
   \<and> rv_flow_control (store_buf k r) = rv_flow_control r"
  by (simp add: store_buf_def Let_def)

definition same_head :: "recv_buf \<Rightarrow> recv_buf \<Rightarrow> bool" where
  "same_head r r' \<longleftrightarrow>
     rv_off r' = rv_off r \<and> rv_fin_off r' = rv_fin_off r \<and> rv_drain r' = rv_drain r
     \<and> rv_error r' = rv_error r \<and> rv_flow_control r' = rv_flow_control r"

definition queue_ok :: "(nat \<Rightarrow> u8) \<Rightarrow> recv_buf \<Rightarrow> range_buf list \<Rightarrow> bool" where
  "queue_ok S r q \<longleftrightarrow>
     (\<forall>b \<in> set q. admissible S r b \<and> (rv_off r < buf_max_off b \<or> rv_off r \<le> buf_off b))"

lemma queue_ok_same: "same_head r r' \<Longrightarrow> queue_ok S r' q = queue_ok S r q"
  by (simp add: queue_ok_def admissible_def same_head_def)

abbreviation spans :: "range_buf list \<Rightarrow> nat set" where
  "spans q \<equiv> (\<Union>b \<in> set q. span b)"

lemma covered_exactly:
  "C \<subseteq> B \<Longrightarrow> K \<subseteq> B \<Longrightarrow> B \<inter> X = {} \<Longrightarrow> B \<subseteq> K \<union> R \<union> C \<Longrightarrow> R \<union> K \<union> (C - X) = R \<union> B"
  by blast

text \<open>One turn of the loop over the queue.\<close>

lemma store_turn:
  assumes inv: "recv_inv S r" and drain: "\<not> rv_drain r" and q: "queue_ok S r (b # q)"
  shows "\<exists>r' cuts. store_all (b # q) r = store_all (q @ cuts) r'
     \<and> recv_inv S r' \<and> same_head r r' \<and> queue_ok S r' (q @ cuts)
     \<and> (cuts = [] \<or> (\<exists>c. cuts = [c] \<and> buf_len c < buf_len b))
     \<and> received r' \<union> (spans cuts - {..<rv_off r}) = received r \<union> (span b - {..<rv_off r})"
proof -
  obtain b' where b': "discard_read r b = Some b'" "admissible S r b'" "rv_off r \<le> buf_off b'"
    "buf_max_off b' = buf_max_off b" "buf_off b \<le> buf_off b'" "span b - {..<rv_off r} = span b'"
    using discard_read_spec [of S r b] q by (auto simp: queue_ok_def)
  obtain kept cuts where c: "clip_stored r b' = Some (kept, cuts)"
    and cuts: "\<forall>c \<in> set cuts. admissible S r c \<and> buf_off b' \<le> buf_off c
        \<and> buf_max_off c \<le> buf_max_off b' \<and> buf_off c < buf_max_off c"
    and one: "cuts = [] \<or> (\<exists>c. cuts = [c] \<and> buf_len c < buf_len b')"
    and cover: "span b' \<subseteq> (case kept of None \<Rightarrow> {} | Some k \<Rightarrow> span k) \<union> received r \<union> spans cuts"
    and kept: "case kept of None \<Rightarrow> True
        | Some k \<Rightarrow> whole k \<and> carries S k \<and> buf_off b' \<le> buf_off k \<and> buf_max_off k \<le> buf_max_off b'
            \<and> (buf_off k < buf_max_off k \<or> rv_fin_off r = Some (buf_max_off k))
            \<and> (\<forall>x \<in> chunks r. apart k x)
            \<and> (\<forall>x \<in> chunks r. buf_max_off x = buf_max_off k \<longrightarrow> buf_off x = buf_max_off x)"
    using clip_stored_spec [OF inv b'(2)] by blast
  define r' where "r' = (case kept of None \<Rightarrow> r | Some k \<Rightarrow> store_buf k r)"
  have step: "store_all (b # q) r = store_all (q @ cuts) r'"
    by (subst store_all.simps) (simp add: b'(1) c r'_def split: option.split)
  have head: "same_head r r'"
    using store_buf_frame [OF drain] by (auto simp: r'_def same_head_def split: option.split)
  define K where "K = (case kept of None \<Rightarrow> {} | Some k \<Rightarrow> span k)"
  have upd: "recv_inv S r' \<and> received r' = received r \<union> K"
  proof (cases kept)
    case None
    then show ?thesis using inv by (simp add: r'_def K_def)
  next
    case (Some k)
    have "\<forall>n. rv_fin_off r = Some n \<longrightarrow> buf_max_off k \<le> n"
      using kept b'(2) Some by (auto simp: admissible_def)
    then show ?thesis
      using store_buf_spec [OF inv drain, of k] kept Some b'(3) by (simp add: r'_def K_def)
  qed
  have "queue_ok S r' (q @ cuts)"
    unfolding queue_ok_same [OF head] using q cuts b'(3) by (auto simp: queue_ok_def)
  moreover have "received r' \<union> (spans cuts - {..<rv_off r}) = received r \<union> (span b - {..<rv_off r})"
  proof -
    have 1: "spans cuts \<subseteq> span b'" using cuts by fastforce
    have 2: "K \<subseteq> span b'"
      using kept by (auto simp: K_def split: option.splits)
    have 3: "span b' \<inter> {..<rv_off r} = {}" using b'(3) by auto
    have 4: "span b' \<subseteq> K \<union> received r \<union> spans cuts" using cover by (simp add: K_def)
    have 5: "received r' = received r \<union> K" using upd by blast
    show ?thesis
      unfolding 5 b'(6) by (rule covered_exactly [OF 1 2 3 4])
  qed
  moreover have "cuts = [] \<or> (\<exists>c. cuts = [c] \<and> buf_len c < buf_len b)"
    using one b'(4,5) by (auto simp: buf_len_max)
  ultimately show ?thesis
    using step head upd by (intro exI [of _ r'] exI [of _ cuts]) simp
qed

lemma store_all_spec:
  assumes "recv_inv S r" and "\<not> rv_drain r" and "queue_ok S r q"
  shows "\<exists>r'. store_all q r = Some r' \<and> recv_inv S r' \<and> same_head r r'
     \<and> received r' = received r \<union> (spans q - {..<rv_off r})"
  using assms
proof (induction "sum_list (map (\<lambda>b. 2 * buf_len b + 1) q)" arbitrary: q r rule: less_induct)
  case less
  show ?case
  proof (cases q)
    case Nil
    then show ?thesis using less.prems by (subst store_all.simps) (simp add: same_head_def)
  next
    case (Cons b rest)
    obtain r1 cuts where t: "store_all q r = store_all (rest @ cuts) r1"
      "recv_inv S r1" "same_head r r1" "queue_ok S r1 (rest @ cuts)"
      "cuts = [] \<or> (\<exists>c. cuts = [c] \<and> buf_len c < buf_len b)"
      "received r1 \<union> (spans cuts - {..<rv_off r}) = received r \<union> (span b - {..<rv_off r})"
      using store_turn [of S r b rest] less.prems Cons by blast
    have "\<not> rv_drain r1" "rv_off r1 = rv_off r"
      using t(3) less.prems(2) by (simp_all add: same_head_def)
    moreover have "sum_list (map (\<lambda>b. 2 * buf_len b + 1) (rest @ cuts))
        < sum_list (map (\<lambda>b. 2 * buf_len b + 1) q)"
      using t(5) by (auto simp: Cons)
    ultimately obtain r' where r': "store_all (rest @ cuts) r1 = Some r'" "recv_inv S r'"
      "same_head r1 r'" "received r' = received r1 \<union> (spans (rest @ cuts) - {..<rv_off r})"
      using less.hyps [of "rest @ cuts" r1] t(2,4) by auto
    have "same_head r r'" using t(3) r'(3) by (simp add: same_head_def)
    moreover have "received r' = received r \<union> (spans q - {..<rv_off r})"
      using r'(4) t(6) by (auto simp: Cons)
    ultimately show ?thesis using t(1) r'(1,2) by auto
  qed
qed

lemma store_all_drain:
  assumes inv: "recv_inv S r" and drain: "rv_drain r" and q: "queue_ok S r [b]"
  shows "\<exists>r'. store_all [b] r = Some r' \<and> recv_inv S r' \<and> rv_off r \<le> rv_off r'
           \<and> rv_drain r' \<and> rv_fin_off r' = rv_fin_off r"
proof -
  note ok = recv_invD [OF inv]
  obtain b' where b': "discard_read r b = Some b'" "admissible S r b'" "rv_off r \<le> buf_off b'"
    using discard_read_spec [of S r b] q by (auto simp: queue_ok_def)
  have "clip_stored r b' = Some (Some b', [])"
    using ok(8) [OF drain] by (simp add: clip_stored_def bt_from_def)
  then have "store_all [b] r = Some (store_buf b' r)"
    by (subst store_all.simps) (simp add: b'(1), subst store_all.simps, simp)
  moreover have "recv_inv S (store_buf b' r)"
    using inv drain b'(2) ok(8) [OF drain]
    by (auto simp: recv_inv_def store_buf_def chunks_def Let_def admissible_def)
  moreover have "rv_off r \<le> rv_off (store_buf b' r)"
    using drain ok(6) by (simp add: store_buf_def Let_def le_max_iff_disj)
  ultimately show ?thesis using drain by (simp add: store_buf_def Let_def)
qed

subsection \<open>Writing\<close>

definition known_fin :: "range_buf \<Rightarrow> recv_buf \<Rightarrow> recv_buf" where
  "known_fin b r = (if rb_fin b then r\<lparr>rv_fin_off := Some (buf_max_off b)\<rparr> else r)"

lemma recv_write_cases:
  obtains (error) e where "recv_write b r = Some (Inl e)"
    | (noop) "recv_write b r = Some (Inr r)" "buf_is_empty b"
    | (checked) "\<forall>n. rv_fin_off r = Some n \<longrightarrow> buf_max_off b \<le> n \<and> (rb_fin b \<longrightarrow> n = buf_max_off b)"
        "rb_fin b \<longrightarrow> rv_len r \<le> buf_max_off b"
        "recv_write b r = (if \<not> rb_fin b \<and> buf_is_empty b then Some (Inr (known_fin b r))
            else if buf_max_off b \<le> rv_off (known_fin b r) \<and> \<not> buf_is_empty b
            then Some (Inr (known_fin b r))
            else map_option Inr (store_all [b] (known_fin b r)))"
proof -
  let ?E1 = "fl_max_data (rv_flow_control r) < buf_max_off b"
  let ?E2 = "case rv_fin_off r of
      Some fin_off \<Rightarrow> fin_off < buf_max_off b \<or> rb_fin b \<and> fin_off \<noteq> buf_max_off b | None \<Rightarrow> False"
  let ?E3 = "rb_fin b \<and> buf_max_off b < rv_len r"
  let ?E4 = "rv_fin_off r \<noteq> None \<and> buf_is_empty b"
  note w = recv_write_def [of b r, folded known_fin_def, unfolded Let_def]
  consider "?E1 \<or> ?E2 \<or> ?E3" | "\<not> ?E1" "\<not> ?E2" "\<not> ?E3" "?E4"
    | "\<not> ?E1" "\<not> ?E2" "\<not> ?E3" "\<not> ?E4" by blast
  then show thesis
  proof cases
    case 1
    then have "recv_write b r = Some (Inl FlowControl) \<or> recv_write b r = Some (Inl FinalSize)"
      unfolding w by auto
    then show thesis using error by blast
  next
    case 2
    then show thesis by (intro noop) (simp_all add: w)
  next
    case 3
    show thesis
    proof (rule checked)
      show "\<forall>n. rv_fin_off r = Some n \<longrightarrow> buf_max_off b \<le> n \<and> (rb_fin b \<longrightarrow> n = buf_max_off b)"
        "rb_fin b \<longrightarrow> rv_len r \<le> buf_max_off b"
        using 3 by auto
    qed (unfold w, simp only: 3 if_False)
  qed
qed

lemma recv_write_spec:
  assumes inv: "recv_inv S r" and b: "whole b" "carries S b"
  shows "\<exists>res. recv_write b r = Some res
     \<and> (\<forall>r'. res = Inr r' \<longrightarrow>
          recv_inv S r' \<and> rv_drain r' = rv_drain r
          \<and> (\<not> rv_drain r \<longrightarrow> rv_off r' = rv_off r \<and> rv_error r' = rv_error r
               \<and> received r' = received r \<union> (span b - {..<rv_off r})
               \<and> (rv_fin_off r' = rv_fin_off r \<or> rb_fin b \<and> rv_fin_off r' = Some (buf_max_off b))))"
proof -
  note ok = recv_invD [OF inv]
  let ?r1 = "known_fin b r"
  show ?thesis
  proof (cases rule: recv_write_cases [of b r])
    case (error e)
    then show ?thesis by simp
  next
    case noop
    moreover have "span b = {}" using noop(2) by (simp add: buf_is_empty_def buf_len_max)
    ultimately show ?thesis using inv by simp
  next
    case checked
    have empty: "span b = {}" if "buf_is_empty b" using that by (simp add: buf_is_empty_def buf_len_max)
    have same: "rv_off ?r1 = rv_off r" "rv_drain ?r1 = rv_drain r" "rv_error ?r1 = rv_error r"
      "received ?r1 = received r" "rv_len ?r1 = rv_len r" "rv_data ?r1 = rv_data r" "chunks ?r1 = chunks r"
      by (simp_all add: known_fin_def received_def chunks_def)
    have fin1: "rv_fin_off ?r1 = (if rb_fin b then Some (buf_max_off b) else rv_fin_off r)"
      by (simp add: known_fin_def)
    have inv1: "recv_inv S ?r1"
      using inv checked(1,2) unfolding recv_inv_def same fin1 by auto
    consider (skip) "recv_write b r = Some (Inr ?r1)" "span b - {..<rv_off r} = {}"
      | (store) "recv_write b r = map_option Inr (store_all [b] ?r1)" "queue_ok S ?r1 [b]"
    proof (cases "\<not> rb_fin b \<and> buf_is_empty b \<or> buf_max_off b \<le> rv_off ?r1 \<and> \<not> buf_is_empty b")
      case True
      then have "span b - {..<rv_off r} = {}" using empty same by auto
      then show ?thesis using that(1) checked(3) True by auto
    next
      case False
      have "rv_off r \<le> buf_off b" if "buf_is_empty b"
        using that False checked(2) ok(6) by (auto simp: buf_is_empty_def buf_len_max)
      then have "queue_ok S ?r1 [b]"
        using False b checked(1) same fin1
        by (auto simp: queue_ok_def admissible_def buf_is_empty_def buf_len_max)
      then show ?thesis using that(2) checked(3) False by auto
    qed
    then show ?thesis
    proof cases
      case skip
      then show ?thesis using inv1 same fin1 by auto
    next
      case store
      show ?thesis
      proof (cases "rv_drain r")
        case True
        then show ?thesis using store_all_drain [OF inv1 _ store(2)] store(1) same by auto
      next
        case False
        then show ?thesis
          using store_all_spec [OF inv1 _ store(2)] store(1) same fin1 by (auto simp: same_head_def)
      qed
    qed
  qed
qed

subsection \<open>Reading\<close>

lemma first_chunk:
  assumes inv: "recv_inv S r" and data: "rv_data r = (key, b) # rest"
  shows "key = buf_max_off b" and "b \<in> chunks r" and "bt_ok rest"
    and "\<And>x. x \<in> snd ` set rest \<Longrightarrow> x \<in> chunks r \<and> buf_max_off b \<le> buf_off x"
    and "chunks r = insert b (snd ` set rest)"
proof -
  note ok = recv_invD [OF inv]
  show k: "key = buf_max_off b" and b: "b \<in> chunks r" using ok(2) by (auto simp: data chunks_def)
  show "bt_ok rest" using ok(1) by (simp add: data bt_ok_def)
  show "chunks r = insert b (snd ` set rest)" by (simp add: chunks_def data)
  fix x assume "x \<in> snd ` set rest"
  then obtain j where x: "(j, x) \<in> set rest" by auto
  then have "x \<in> chunks r" "j = buf_max_off x" "key < j"
    using ok(1,2) by (force simp: data chunks_def bt_ok_def)+
  with ok(5) [OF b] k show "x \<in> chunks r \<and> buf_max_off b \<le> buf_off x" by auto
qed

lemma consume_views:
  assumes "buf_ok b" and "n \<le> buf_len b"
  shows "buf_ok (buf_consume n b)" "buf_off (buf_consume n b) = buf_off b + n"
    "buf_max_off (buf_consume n b) = buf_max_off b"
    "carries S b \<Longrightarrow> carries S (buf_consume n b)"
proof -
  show 1: "buf_ok (buf_consume n b)" "buf_off (buf_consume n b) = buf_off b + n"
    "buf_max_off (buf_consume n b) = buf_max_off b"
    using assms by (auto simp: buf_consume_def buf_ok_def buf_len_def buf_off_def buf_max_off_def)
  have "buf_bytes (buf_consume n b) = drop n (buf_bytes b)"
    by (simp add: buf_bytes_def buf_consume_def drop_take add.commute)
  then show "carries S b \<Longrightarrow> carries S (buf_consume n b)"
    unfolding carries_def 1 by (simp add: drop_map)
qed

lemma read_chunk:
  assumes inv: "recv_inv S r" and data: "rv_data r = (key, b) # rest" and off: "buf_off b = rv_off r"
  defines "r' \<equiv> r\<lparr>rv_off := buf_max_off b, rv_data := rest\<rparr>"
  shows "recv_inv S r'" and "received r' = received r - {..<buf_max_off b}"
    and "span b \<subseteq> received r"
proof -
  note ok = recv_invD [OF inv] and fc = first_chunk [OF inv data]
  have ch: "chunks r' = snd ` set rest" by (simp add: r'_def chunks_def)
  show "recv_inv S r'"
    using ok(3) [OF fc(2)] ok(2-5,7) fc(3,4) recv_invD(8) [OF inv] data
    unfolding recv_inv_def ch by (auto simp: r'_def data)
  show "received r' = received r - {..<buf_max_off b}"
    unfolding received_def ch fc(5) using fc(4) by fastforce
  show "span b \<subseteq> received r" unfolding received_def using fc(2) by blast
qed

lemma read_part:
  assumes inv: "recv_inv S r" and data: "rv_data r = (key, b) # rest" and off: "buf_off b = rv_off r"
    and n: "n < buf_len b"
  defines "r' \<equiv> r\<lparr>rv_off := rv_off r + n, rv_data := (key, buf_consume n b) # rest\<rparr>"
  shows "recv_inv S r'" and "received r' = received r - {..<rv_off r + n}"
proof -
  note ok = recv_invD [OF inv] and fc = first_chunk [OF inv data]
  have b: "buf_ok b" "carries S b" using ok(3) [OF fc(2)] by blast+
  note v = consume_views [OF b(1) less_imp_le [OF n]]
  have max: "rv_off r + n < buf_max_off b" using n off by (simp add: buf_max_off_def)
  have ch: "chunks r' = insert (buf_consume n b) (snd ` set rest)"
    by (simp add: r'_def chunks_def)
  have others: "x \<in> chunks r \<and> rv_off r + n < buf_off x" if "x \<in> snd ` set rest" for x
    using fc(4) [OF that] max by linarith
  show "recv_inv S r'"
    unfolding recv_inv_def
  proof (intro conjI ballI allI impI)
    show "bt_ok (rv_data r')" using ok(1) by (simp add: r'_def data bt_ok_def)
    show "fst e = buf_max_off (snd e)" if "e \<in> set (rv_data r')" for e
      using that ok(2) [of e] v(3) fc(1) by (auto simp: r'_def data)
    fix x assume x: "x \<in> chunks r'"
    show "buf_ok x" "carries S x" "rv_off r' \<le> buf_off x" "buf_max_off x \<le> rv_len r'"
      "buf_off x < buf_max_off x \<or> rv_fin_off r' = Some (buf_max_off x)"
    proof -
      have "x = buf_consume n b \<or> x \<in> chunks r \<and> rv_off r + n < buf_off x"
        using x others [of x] by (simp add: ch) blast
      then show "buf_ok x" "carries S x" "rv_off r' \<le> buf_off x" "buf_max_off x \<le> rv_len r'"
        "buf_off x < buf_max_off x \<or> rv_fin_off r' = Some (buf_max_off x)"
        using v(1,2,3) v(4) [OF b(2)] max off ok(3) [OF fc(2)] ok(3) [of x] ok(4) [of x]
        by (auto simp: r'_def)
    qed
  next
    fix x y assume xy: "x \<in> chunks r'" "y \<in> chunks r'" "buf_max_off x < buf_max_off y"
    have after: "z = buf_consume n b \<or> z \<in> chunks r \<and> buf_max_off b \<le> buf_off z"
      if "z \<in> chunks r'" for z
      using that fc(4) [of z] by (simp add: ch) blast
    show "buf_max_off x \<le> buf_off y"
      using ok(5) [of x y] after [OF xy(1)] after [OF xy(2)] v(3) xy(3) buf_off_le [of x] by auto
  next
    show "rv_off r' \<le> rv_len r'" using max ok(3) [OF fc(2)] by (simp add: r'_def)
    show "rv_len r' \<le> k" if "rv_fin_off r' = Some k" for k using that ok(7) by (simp add: r'_def)
    show "rv_data r' = []" "rv_off r' = rv_len r'" if "rv_drain r'"
      using that ok(8) data by (simp_all add: r'_def)
  qed
  show "received r' = received r - {..<rv_off r + n}"
    unfolding received_def ch fc(5) using others v(2,3) off max by fastforce
qed

text \<open>
  Reading takes the longest run of received bytes at the read offset, up to the capacity, and
  leaves the rest.
\<close>

definition emit_post :: "(nat \<Rightarrow> u8) \<Rightarrow> nat \<Rightarrow> nat \<Rightarrow> recv_buf \<Rightarrow> recv_buf \<Rightarrow> bool" where
  "emit_post S cap k r r' \<longleftrightarrow>
     k \<le> cap \<and> {rv_off r..<rv_off r + k} \<subseteq> received r
     \<and> (k < cap \<longrightarrow> rv_off r + k \<notin> received r)
     \<and> recv_inv S r' \<and> rv_off r' = rv_off r + k \<and> received r' = received r - {..<rv_off r + k}
     \<and> rv_drain r' = rv_drain r \<and> rv_error r' = rv_error r \<and> rv_fin_off r' = rv_fin_off r
     \<and> rv_flow_control r' = rv_flow_control r"

lemma not_ready_gap:
  assumes inv: "recv_inv S r" and "\<not> recv_ready r"
  shows "rv_off r \<notin> received r"
proof (cases "rv_data r")
  case Nil
  then show ?thesis by (simp add: received_def chunks_def)
next
  case (Cons e rest)
  obtain key b where e: "e = (key, b)" by (cases e)
  note fc = first_chunk [OF inv Cons [unfolded e]]
  have "rv_off r < buf_off b"
    using assms(2) recv_invD(3) [OF inv fc(2)] by (auto simp: recv_ready_def Cons e)
  moreover have "rv_off r < buf_off x" if "x \<in> snd ` set rest" for x
    using fc(4) [OF that] calculation buf_off_le [of b] by linarith
  ultimately have "\<forall>x \<in> chunks r. rv_off r < buf_off x" unfolding fc(5) by blast
  then show ?thesis unfolding received_def by auto
qed

lemma emit_post_more:
  assumes post: "emit_post S (cap - n) k r1 r'" and "n \<le> cap"
    and r1: "rv_off r1 = rv_off r + n" "received r1 = received r - {..<rv_off r + n}"
      "rv_drain r1 = rv_drain r" "rv_error r1 = rv_error r" "rv_fin_off r1 = rv_fin_off r"
      "rv_flow_control r1 = rv_flow_control r"
    and sub: "{rv_off r..<rv_off r + n} \<subseteq> received r"
  shows "emit_post S cap (n + k) r r'"
proof -
  let ?o = "rv_off r"
  have "{?o..<?o + (n + k)} = {?o..<?o + n} \<union> {?o + n..<?o + n + k}" by auto
  moreover have "{?o + n..<?o + n + k} \<subseteq> received r"
    using post unfolding emit_post_def r1 by blast
  ultimately have "{?o..<?o + (n + k)} \<subseteq> received r" using sub by blast
  moreover have "?o + (n + k) \<notin> received r" if "n + k < cap"
    using post that unfolding emit_post_def r1 by (auto simp: add.assoc)
  moreover have "received r' = received r - {..<?o + (n + k)}"
    using post unfolding emit_post_def r1 by auto
  moreover have "n + k \<le> cap" using post assms(2) unfolding emit_post_def by linarith
  ultimately show ?thesis
    using post unfolding emit_post_def r1 by (simp add: add.assoc)
qed

lemma emit_loop_spec:
  assumes "recv_inv S r"
  shows "\<exists>k r'. emit_loop copying cap len out r
            = (len + k, if copying then out @ map S [rv_off r..<rv_off r + k] else out, r')
          \<and> emit_post S cap k r r'"
  using assms
proof (induction "length (rv_data r)" arbitrary: cap len out r rule: less_induct)
  case less
  show ?case
  proof (cases "0 < cap \<and> recv_ready r")
    case False
    moreover have "0 < cap \<longrightarrow> rv_off r \<notin> received r"
      using False not_ready_gap [OF less.prems] by blast
    moreover have "received r - {..<rv_off r} = received r"
      using recv_invD(3) [OF less.prems] by (fastforce simp: received_def)
    ultimately show ?thesis
      using less.prems by (subst emit_loop.simps) (auto simp: emit_post_def)
  next
    case True
    then obtain key b rest where data: "rv_data r = (key, b) # rest" and off: "buf_off b = rv_off r"
      by (auto simp: recv_ready_def split: list.splits prod.splits)
    note b = recv_invD(3) [OF less.prems first_chunk(2) [OF less.prems data]]
    have bytes: "take n (buf_bytes b) = map S [rv_off r..<rv_off r + n]" if "n \<le> buf_len b" for n
      using b that by (simp add: carries_def take_map off buf_max_off_def)
    show ?thesis
    proof (cases "cap < buf_len b")
      case part: True
      let ?r = "r\<lparr>rv_off := rv_off r + cap, rv_data := (key, buf_consume cap b) # rest\<rparr>"
      note rp = read_part [OF less.prems data off part] and sub = read_chunk(3) [OF less.prems data off]
      have "emit_post S cap cap r ?r"
        using rp sub part off by (auto simp: emit_post_def buf_max_off_def)
      moreover have "emit_loop copying cap len out r
          = (len + cap, if copying then out @ map S [rv_off r..<rv_off r + cap] else out, ?r)"
        using True part by (subst emit_loop.simps) (simp add: data Let_def bytes)
      ultimately show ?thesis by blast
    next
      case False
      let ?n = "buf_len b"
      let ?r = "r\<lparr>rv_off := rv_off r + ?n, rv_data := rest\<rparr>"
        and ?out = "if copying then out @ map S [rv_off r..<rv_off r + ?n] else out"
      have max: "buf_max_off b = rv_off r + ?n" by (simp add: buf_max_off_def off)
      note rc = read_chunk [OF less.prems data off, unfolded max]
      obtain k r' where IH: "emit_loop copying (cap - ?n) (len + ?n) ?out ?r
          = (len + ?n + k, if copying then ?out @ map S [rv_off ?r..<rv_off ?r + k] else ?out, r')"
        and post: "emit_post S (cap - ?n) k ?r r'"
        using less.hyps [of ?r "cap - ?n" "len + ?n" ?out] rc(1) data by auto
      have "emit_loop copying cap len out r = emit_loop copying (cap - ?n) (len + ?n) ?out ?r"
        using True False by (subst emit_loop.simps) (simp add: data Let_def bytes min_absorb1)
      moreover have "emit_post S cap (?n + k) r r'"
        using rc(2,3) False off max by (intro emit_post_more [OF post]) auto
      moreover have "map S [rv_off r..<rv_off r + ?n] @ map S [rv_off r + ?n..<rv_off r + ?n + k]
          = map S [rv_off r..<rv_off r + (?n + k)]"
        using upt_add_eq_append [of "rv_off r" "rv_off r + ?n" k] by (simp add: add.assoc)
      ultimately show ?thesis
        using IH by (intro exI [of _ "?n + k"] exI [of _ r']) (simp add: add.assoc)
    qed
  qed
qed

lemma recv_emit_spec:
  assumes inv: "recv_inv S r"
  obtains (nothing_to_read) "recv_emit cap r = (Inl Done, [], r)" "rv_off r \<notin> received r"
  | (was_reset) e where "recv_emit cap r = (Inl (StreamReset e), [], r\<lparr>rv_data := []\<rparr>)"
      "rv_error r = Some e"
  | (bytes_read) k r1 where
      "recv_emit cap r = (Inr (k, rv_fin_off r = Some (rv_off r + k)),
         map S [rv_off r..<rv_off r + k],
         r1\<lparr>rv_flow_control := add_consumed k (rv_flow_control r1)\<rparr>)"
      "emit_post S cap k r r1" "rv_error r = None"
proof (cases "recv_ready r")
  case False
  then show thesis
    using nothing_to_read not_ready_gap [OF inv] by (simp add: recv_emit_def emit_or_discard_def)
next
  case True
  show thesis
  proof (cases "rv_error r")
    case (Some e)
    then show thesis
      using was_reset True by (simp add: recv_emit_def emit_or_discard_def)
  next
    case None
    obtain k r1 where "emit_loop True cap 0 [] r = (k, map S [rv_off r..<rv_off r + k], r1)"
      "emit_post S cap k r r1"
      using emit_loop_spec [OF inv, of True cap 0 "[]"] by auto
    then show thesis
      using bytes_read None True
      by (auto simp: recv_emit_def emit_or_discard_def recv_is_fin_def Let_def emit_post_def)
  qed
qed

lemma recv_inv_flow: "recv_inv S (r\<lparr>rv_flow_control := fl\<rparr>) = recv_inv S r"
  by (simp add: recv_inv_def chunks_def)

lemma received_flow: "received (r\<lparr>rv_flow_control := fl\<rparr>) = received r"
  by (simp add: received_def chunks_def)

lemma recv_inv_clear: "recv_inv S r \<Longrightarrow> recv_inv S (r\<lparr>rv_data := []\<rparr>)"
  by (simp add: recv_inv_def chunks_def bt_ok_def)

lemma recv_inv_new: "recv_inv S (recv_buf_new max_data window max_window)"
  by (simp add: recv_inv_def recv_buf_new_def chunks_def bt_ok_def)

lemma range_buf_from_whole:
  "whole (range_buf_from data off fin)" "buf_off (range_buf_from data off fin) = off"
  "buf_max_off (range_buf_from data off fin) = off + length data"
  "carries S (range_buf_from data off fin) \<longleftrightarrow> data = map S [off..<off + length data]"
  by (simp_all add: whole_def buf_ok_def range_buf_from_def buf_off_def buf_max_off_def buf_len_def
      carries_def buf_bytes_def)

subsection \<open>A stream from the peer to the application\<close>

text \<open>
  Events on the receive side: a frame of the stream arrives (a refused one changes nothing), the
  application reads up to a number of bytes, the limit is raised.
\<close>

datatype stream_event = Arrive nat bytes bool | Read nat | RaiseLimit nat

fun stream_run :: "stream_event list \<Rightarrow> recv_buf \<Rightarrow> (bytes \<times> recv_buf) option" where
  "stream_run [] r = Some ([], r)"
| "stream_run (Arrive off data fin # es) r =
     (case recv_write (range_buf_from data off fin) r of
        None \<Rightarrow> None
      | Some (Inl _) \<Rightarrow> stream_run es r
      | Some (Inr r') \<Rightarrow> stream_run es r')"
| "stream_run (Read cap # es) r =
     (case recv_emit cap r of
        (_, out, r') \<Rightarrow> map_option (\<lambda>(rest, r). (out @ rest, r)) (stream_run es r'))"
| "stream_run (RaiseLimit now # es) r = stream_run es (recv_update_max_data now r)"

text \<open>Every frame that arrives is a piece of the stream \<open>S\<close>.\<close>

fun frame_of :: "(nat \<Rightarrow> u8) \<Rightarrow> stream_event \<Rightarrow> bool" where
  "frame_of S (Arrive off data fin) \<longleftrightarrow> data = map S [off..<off + length data]"
| "frame_of S _ \<longleftrightarrow> True"

lemma stream_run_spec:
  assumes "recv_inv S r" and "\<not> rv_drain r" and "list_all (frame_of S) es"
  shows "\<exists>out r'. stream_run es r = Some (out, r') \<and> recv_inv S r' \<and> \<not> rv_drain r'
           \<and> rv_off r \<le> rv_off r' \<and> out = map S [rv_off r..<rv_off r']"
  using assms
proof (induction es arbitrary: r)
  case Nil
  then show ?case by simp
next
  case (Cons ev es)
  show ?case
  proof (cases ev)
    case (Arrive off data fin)
    obtain res where w: "recv_write (range_buf_from data off fin) r = Some res"
      and res: "\<forall>r'. res = Inr r' \<longrightarrow> recv_inv S r' \<and> \<not> rv_drain r' \<and> rv_off r' = rv_off r"
      using recv_write_spec [OF Cons.prems(1), of "range_buf_from data off fin"] Cons.prems(2,3)
      by (auto simp: Arrive range_buf_from_whole)
    show ?thesis
    proof (cases res)
      case (Inl e)
      then show ?thesis
        using Cons.IH [of r] Cons.prems w by (simp add: Arrive)
    next
      case (Inr r1)
      then show ?thesis
        using Cons.IH [of r1] Cons.prems w res by (simp add: Arrive)
    qed
  next
    case (Read cap)
    obtain out r1 res where e: "recv_emit cap r = (res, out, r1)" by (cases "recv_emit cap r")
    have r1: "recv_inv S r1 \<and> \<not> rv_drain r1 \<and> rv_off r \<le> rv_off r1 \<and> out = map S [rv_off r..<rv_off r1]"
      using Cons.prems(1,2) e
      by (cases rule: recv_emit_spec [OF Cons.prems(1), of cap])
         (auto simp: recv_inv_clear recv_inv_flow emit_post_def)
    then obtain rest r' where IH: "stream_run es r1 = Some (rest, r')" "recv_inv S r'" "\<not> rv_drain r'"
      "rv_off r1 \<le> rv_off r'" "rest = map S [rv_off r1..<rv_off r']"
      using Cons.IH [of r1] Cons.prems(3) by auto
    have "map S [rv_off r..<rv_off r1] @ map S [rv_off r1..<rv_off r'] = map S [rv_off r..<rv_off r']"
      using r1 IH(4) upt_add_eq_append [of "rv_off r" "rv_off r1" "rv_off r' - rv_off r1"]
      by simp
    then show ?thesis using r1 IH e by (auto simp: Read)
  next
    case (RaiseLimit now)
    then show ?thesis
      using Cons.IH [of "recv_update_max_data now r"] Cons.prems
      by (simp add: recv_update_max_data_def recv_inv_flow)
  qed
qed

subsection \<open>Properties\<close>

text \<open>
  C9: However the frames of a stream are cut, repeated, overlapped, reordered or interleaved with
  reads, and whichever of them flow control or the final size refuses, no assertion fails, the
  loops end, and the bytes the application has read are the bytes of the stream from offset zero
  up to the read offset, in order and without gaps.
\<close>

theorem application_reads_the_stream:
  assumes "list_all (frame_of S) events"
  shows "\<exists>out r. stream_run events (recv_buf_new max_data window max_window) = Some (out, r)
           \<and> out = map S [0..<rv_off r] \<and> recv_inv S r"
proof -
  have "\<not> rv_drain (recv_buf_new max_data window max_window)"
    "rv_off (recv_buf_new max_data window max_window) = 0" by (simp_all add: recv_buf_new_def)
  with stream_run_spec [OF recv_inv_new _ assms, of max_data window max_window] show ?thesis by auto
qed

definition sample_stream :: "nat \<Rightarrow> u8" where
  "sample_stream n = of_nat (n * n + 7)"

definition sample_events :: "stream_event list" where
  "sample_events =
     (let frame = (\<lambda>lo hi fin. Arrive lo (map sample_stream [lo..<hi]) fin)
      in [frame 4 7 False, frame 2 5 False, Read 10, frame 0 3 False, Read 2, frame 6 9 True,
          frame 0 9 True, frame 5 30 False, Read 100, Read 1])"

theorem application_reads_the_stream_witness:
  "\<exists>out r. stream_run sample_events (recv_buf_new 20 20 20) = Some (out, r)
      \<and> out = map sample_stream [0..<rv_off r]"
proof -
  have "list_all (frame_of sample_stream) sample_events" by code_simp
  from application_reads_the_stream [OF this, of 20 20 20] show ?thesis by blast
qed

text \<open>
  C21: Nothing that arrived is withheld: once a frame is accepted and the bytes from the read offset
  on are there without a gap, one read with enough room returns all of them, and stops exactly at
  the first byte that has not arrived.
\<close>

theorem accepted_bytes_are_readable:
  assumes "recv_inv S r" and "\<not> rv_drain r" and "rv_error r = None"
    and "frame_of S (Arrive off data fin)"
    and "recv_write (range_buf_from data off fin) r = Some (Inr r')"
    and "rv_off r \<in> received r \<union> {off..<off + length data}"
  shows "\<exists>k done r2. recv_emit cap r' = (Inr (k, done), map S [rv_off r..<rv_off r + k], r2)
           \<and> k \<le> cap \<and> {rv_off r..<rv_off r + k} \<subseteq> received r \<union> {off..<off + length data}
           \<and> (k < cap \<longrightarrow> rv_off r + k \<notin> received r \<union> {off..<off + length data})"
proof -
  let ?b = "range_buf_from data off fin"
  have r': "recv_inv S r'" "rv_off r' = rv_off r" "rv_error r' = None"
    and rec: "received r' = received r \<union> ({off..<off + length data} - {..<rv_off r})"
    using recv_write_spec [OF assms(1), of ?b] assms(2-5) by (auto simp: range_buf_from_whole)
  have "rv_off r' \<in> received r'" using assms(6) r'(2) rec by auto
  show ?thesis
  proof (rule recv_emit_spec [OF r'(1), of cap])
    fix k r1
    assume bytes_read: "recv_emit cap r' = (Inr (k, rv_fin_off r' = Some (rv_off r' + k)),
        map S [rv_off r'..<rv_off r' + k], r1\<lparr>rv_flow_control := add_consumed k (rv_flow_control r1)\<rparr>)"
      "emit_post S cap k r' r1"
    have "{rv_off r..<rv_off r + k} \<subseteq> received r'" "k < cap \<longrightarrow> rv_off r + k \<notin> received r'" "k \<le> cap"
      using bytes_read(2) by (auto simp: emit_post_def r'(2))
    then show ?thesis using bytes_read(1) rec r'(2) by auto
  qed (use r' \<open>rv_off r' \<in> received r'\<close> in auto)
qed

theorem accepted_bytes_are_readable_witness:
  "\<exists>k done r2. recv_emit 5 (recv_buf_new 20 20 20\<lparr>rv_len := 3,
        rv_data := [(3, range_buf_from (map sample_stream [0..<3]) 0 False)]\<rparr>)
      = (Inr (k, done), map sample_stream [0..<k], r2) \<and> k = 3"
proof -
  let ?r = "recv_buf_new 20 20 20"
    and ?r' = "recv_buf_new 20 20 20\<lparr>rv_len := 3,
        rv_data := [(3, range_buf_from (map sample_stream [0..<3]) 0 False)]\<rparr>"
  have w: "recv_write (range_buf_from (map sample_stream [0..<3]) 0 False) ?r = Some (Inr ?r')"
    by code_simp
  have "received ?r = {}" by (simp add: received_def chunks_def recv_buf_new_def)
  with accepted_bytes_are_readable [OF recv_inv_new _ _ _ w, where S = sample_stream and cap = 5]
  show ?thesis
    by (fastforce simp: recv_buf_new_def)
qed

text \<open>
  C38: A reset that comes after the final size is known is not seen by the application: the buffered
  data is dropped, the marker that would make the stream readable is not queued, and a read reports
  that there is nothing yet instead of the reset.
\<close>

theorem reset_after_fin_is_silent:
  assumes "rv_fin_off r = Some n" and "rv_len r \<le> n" and "rv_error r = None"
    and "n \<le> fl_max_data (rv_flow_control r)"
  shows "\<exists>ret r'. recv_reset e n r = Some (Inr ret, r') \<and> rv_error r' = Some e
           \<and> \<not> recv_ready r' \<and> fst (recv_emit cap r') = Inl Done"
proof -
  let ?r = "r\<lparr>rv_error := Some e, rv_off := n, rv_data := []\<rparr>"
  have "recv_write (range_buf_from [] n True) ?r = Some (Inr ?r)"
    using assms by (simp add: recv_write_def range_buf_from_whole buf_is_empty_def
        range_buf_from_def buf_len_def buf_max_off_def buf_off_def)
  then show ?thesis
    using assms by (simp add: recv_reset_def recv_ready_def recv_emit_def emit_or_discard_def)
qed

theorem reset_after_fin_is_silent_witness:
  "\<exists>ret r'. recv_reset 42 5 (recv_buf_new 20 20 20\<lparr>rv_fin_off := Some 5, rv_len := 5\<rparr>)
        = Some (Inr ret, r') \<and> rv_error r' = Some 42 \<and> fst (recv_emit 10 r') = Inl Done"
  using reset_after_fin_is_silent [of "recv_buf_new 20 20 20\<lparr>rv_fin_off := Some 5, rv_len := 5\<rparr>" 5 42 10]
  by (auto simp: recv_buf_new_def flow_control_new_def)

subsection \<open>The advertised limit\<close>

text \<open>
  What the connection does with a flow controller: bytes are consumed, within the limit and within
  the 62 bits of a stream offset; a limit frame is sent because the window asks for it, with the
  window tuned before, or once more after an earlier one was lost; the window is tuned and the frame
  does not fit into the packet; the window is lifted to a lower bound.
\<close>

inductive flow_step :: "flow_control \<Rightarrow> flow_control \<Rightarrow> bool" where
  consume: "fl_consumed fl + n \<le> fl_max_data fl \<Longrightarrow> fl_consumed fl + n < 2 ^ 62 \<Longrightarrow>
    flow_step fl (add_consumed n fl)"
| advertise: "should_update_max_data fl \<Longrightarrow>
    flow_step fl (update_max_data now (autotune_window now rtt fl))"
| repeat_lost: "fl_last_update fl \<noteq> None \<Longrightarrow> flow_step fl (update_max_data now fl)"
| tune: "should_update_max_data fl \<Longrightarrow> flow_step fl (autotune_window now rtt fl)"
| lift: "flow_step fl (ensure_window_lower_bound min_window fl)"

definition flow_inv :: "flow_control \<Rightarrow> bool" where
  "flow_inv fl \<longleftrightarrow>
     fl_consumed fl \<le> fl_max_data fl \<and> fl_consumed fl < 2 ^ 62 \<and> fl_max_data fl < 2 ^ 63
     \<and> fl_window fl \<le> fl_max_window fl \<and> fl_max_window fl < 2 ^ 62
     \<and> (fl_last_update fl \<noteq> None \<longrightarrow> fl_max_data fl \<le> fl_consumed fl + fl_window fl)"

lemma flow_inv_exact:
  assumes "flow_inv fl"
  shows "max_data_next fl = fl_consumed fl + fl_window fl"
    and "should_update_max_data fl \<longleftrightarrow> fl_max_data fl < fl_consumed fl + fl_window fl div 2"
  using assms u64_exact(1) [of "fl_consumed fl" "fl_window fl"]
    u64_exact(3) [of "fl_consumed fl" "fl_max_data fl"]
  by (auto simp: flow_inv_def max_data_next_def should_update_max_data_def)

lemma autotune_cases:
  assumes "flow_inv fl"
  obtains w where "autotune_window now rtt fl = fl\<lparr>fl_window := w\<rparr>" "fl_window fl \<le> w" "w \<le> fl_max_window fl"
proof -
  have "u64_mul (fl_window fl) WINDOW_INCREASE_FACTOR = fl_window fl * 2"
    using assms u64_exact(2) [of "fl_window fl" 2] by (auto simp: flow_inv_def WINDOW_INCREASE_FACTOR_def)
  then have "autotune_window now rtt fl = fl
      \<or> autotune_window now rtt fl = fl\<lparr>fl_window := min (fl_window fl * 2) (fl_max_window fl)\<rparr>"
    by (simp add: autotune_window_def set_window_def split: option.split)
  moreover have "fl = fl\<lparr>fl_window := fl_window fl\<rparr>" by simp
  moreover have "fl_window fl \<le> fl_max_window fl" using assms by (simp add: flow_inv_def)
  ultimately show thesis
    using that [of "fl_window fl"] that [of "min (fl_window fl * 2) (fl_max_window fl)"] by auto
qed

lemma flow_inv_window:
  "flow_inv fl \<Longrightarrow> fl_window fl \<le> w \<Longrightarrow> w \<le> fl_max_window fl \<Longrightarrow> flow_inv (fl\<lparr>fl_window := w\<rparr>)"
  by (auto simp: flow_inv_def)

lemma flow_inv_update:
  assumes "flow_inv fl" and "fl_max_data fl \<le> fl_consumed fl + fl_window fl"
  shows "flow_inv (update_max_data now fl)" "fl_max_data fl \<le> fl_max_data (update_max_data now fl)"
  using assms flow_inv_exact(1) [OF assms(1)] by (auto simp: flow_inv_def update_max_data_def)

text \<open>One step keeps the invariant and lowers neither the limit nor the window.\<close>

lemma flow_step_inv:
  assumes "flow_step fl fl'" and inv: "flow_inv fl"
  shows "flow_inv fl' \<and> fl_max_data fl \<le> fl_max_data fl' \<and> fl_window fl \<le> fl_window fl'"
  using assms(1)
proof cases
  case (consume n)
  then show ?thesis using inv u64_exact(1) [of "fl_consumed fl" n] by (auto simp: flow_inv_def add_consumed_def)
next
  case (advertise now rtt)
  obtain w where w: "autotune_window now rtt fl = fl\<lparr>fl_window := w\<rparr>" "fl_window fl \<le> w" "w \<le> fl_max_window fl"
    by (rule autotune_cases [OF inv])
  note tuned = flow_inv_window [OF inv w(2,3)]
  have "fl_max_data fl \<le> fl_consumed fl + w"
    using advertise(2) w(2) flow_inv_exact(2) [OF inv] by simp
  then show ?thesis
    using flow_inv_update [OF tuned, of now] w advertise(1) by (simp add: update_max_data_def)
next
  case (repeat_lost now)
  then show ?thesis using flow_inv_update [OF inv, of now] inv by (auto simp: flow_inv_def update_max_data_def)
next
  case (tune now rtt)
  obtain w where "autotune_window now rtt fl = fl\<lparr>fl_window := w\<rparr>" "fl_window fl \<le> w" "w \<le> fl_max_window fl"
    by (rule autotune_cases [OF inv])
  then show ?thesis using tune(1) flow_inv_window [OF inv] by simp
next
  case (lift n)
  show ?thesis
  proof (cases "fl_window fl < n")
    case True
    then show ?thesis
      using lift flow_inv_window [OF inv, of "min n (fl_max_window fl)"] inv
      by (simp add: ensure_window_lower_bound_def set_window_def flow_inv_def)
  next
    case False
    then show ?thesis using lift inv by (simp add: ensure_window_lower_bound_def)
  qed
qed

lemma flow_inv_new: "max_data < 2 ^ 63 \<Longrightarrow> max_window < 2 ^ 62 \<Longrightarrow> flow_inv (flow_control_new max_data window max_window)"
  by (simp add: flow_inv_def flow_control_new_def)

lemma flow_steps_inv: "flow_step\<^sup>*\<^sup>* fl fl' \<Longrightarrow> flow_inv fl \<Longrightarrow> flow_inv fl'"
  by (induction rule: rtranclp_induct) (simp_all add: flow_step_inv)

text \<open>
  C36: The limit a flow controller advertises never falls, also when a limit frame is sent again
  after a loss: after any history of consumption, limit frames and changes of the window, every
  further step keeps or raises limit and window, the window stays within its maximum and the
  consumed bytes within the limit.  A limit frame sent because the window asks for it raises the
  limit by more than half a window.
\<close>

theorem advertised_limit_never_falls:
  assumes "max_data < 2 ^ 63" and "max_window < 2 ^ 62"
    and "flow_step\<^sup>*\<^sup>* (flow_control_new max_data window max_window) fl" and "flow_step fl fl'"
  shows "fl_max_data fl \<le> fl_max_data fl' \<and> fl_window fl \<le> fl_window fl'
    \<and> fl_window fl' \<le> fl_max_window fl' \<and> fl_consumed fl' \<le> fl_max_data fl'
    \<and> (should_update_max_data fl \<longrightarrow>
         fl_max_data fl + fl_window fl div 2 < fl_max_data (update_max_data now (autotune_window now rtt fl)))"
proof -
  have inv: "flow_inv fl" using flow_steps_inv [OF assms(3)] flow_inv_new [OF assms(1,2)] by blast
  obtain w where w: "autotune_window now rtt fl = fl\<lparr>fl_window := w\<rparr>" "fl_window fl \<le> w" "w \<le> fl_max_window fl"
    by (rule autotune_cases [OF inv])
  have "fl_max_data (update_max_data now (autotune_window now rtt fl)) = fl_consumed fl + w"
    using flow_inv_exact(1) [OF flow_inv_window [OF inv w(2,3)]] w(1) by (simp add: update_max_data_def)
  then show ?thesis
    using flow_step_inv [OF assms(4) inv] flow_inv_exact(2) [OF inv] w(2) by (auto simp: flow_inv_def)
qed

theorem advertised_limit_never_falls_witness:
  "fl_max_data (add_consumed 80 (flow_control_new 100 60 90))
     \<le> fl_max_data (update_max_data 7 (autotune_window 7 1 (add_consumed 80 (flow_control_new 100 60 90))))
   \<and> fl_max_data (update_max_data 7 (autotune_window 7 1 (add_consumed 80 (flow_control_new 100 60 90)))) = 140"
proof -
  let ?fl = "add_consumed 80 (flow_control_new 100 60 90)"
  have should: "should_update_max_data ?fl" by code_simp
  have "flow_step (flow_control_new 100 60 90) ?fl"
    by (rule consume) (simp_all add: flow_control_new_def)
  then have "fl_max_data ?fl \<le> fl_max_data (update_max_data 7 (autotune_window 7 1 ?fl))"
    using advertised_limit_never_falls [of 100 90 60 ?fl "update_max_data 7 (autotune_window 7 1 ?fl)"]
      advertise [OF should] by auto
  moreover have "fl_max_data (update_max_data 7 (autotune_window 7 1 ?fl)) = 140" by code_simp
  ultimately show ?thesis by blast
qed

end
