(* ===== verification/Send_Buf.thy ===== *)
theory Send_Buf
  imports Range_Set Recv_Buf
begin

text \<open>
  The send side of a QUIC stream: \<open>engine/quiche/quiche/src/stream/send_buf.rs\<close>.  Data the
  application has written waits in chunks, in order of their offsets, until it is acknowledged;
  the read position of a chunk tells how much of it has been sent, and a loss moves it back.  The
  chunks are those of \<open>Recv_Buf\<close>, the acknowledged offsets the range set of \<open>Range_Set\<close>.  An
  assertion that fails, an index out of range and a subtraction below zero are panics.
\<close>

definition SEND_BUFFER_SIZE :: nat where "SEND_BUFFER_SIZE = 4096"

record send_buf =
  sd_data :: "range_buf list"
  sd_pos :: nat
  sd_off :: nat
  sd_emit_off :: nat
  sd_buffered_bytes :: nat
  sd_max_data :: nat
  sd_blocked_at :: "nat option"
  sd_fin_off :: "nat option"
  sd_shutdown :: bool
  sd_acked :: range_set
  sd_error :: "nat option"

definition send_buf_new :: "nat \<Rightarrow> send_buf" where
  "send_buf_new max_data =
     \<lparr>sd_data = [], sd_pos = 0, sd_off = 0, sd_emit_off = 0, sd_buffered_bytes = 0,
      sd_max_data = max_data, sd_blocked_at = None, sd_fin_off = None, sd_shutdown = False,
      sd_acked = range_set_new (2 ^ 64 - 1), sd_error = None\<rparr>"

definition sub_checked :: "nat \<Rightarrow> nat \<Rightarrow> nat quic_result" where
  "sub_checked a b = (if b \<le> a then Inr (a - b) else Inl Panic)"

subsection \<open>Views\<close>

definition off_front :: "send_buf \<Rightarrow> nat" where
  "off_front self =
     (case dropWhile buf_is_empty (drop (sd_pos self) (sd_data self)) of
        [] \<Rightarrow> sd_off self | b # _ \<Rightarrow> buf_off b)"

definition send_is_fin :: "send_buf \<Rightarrow> bool" where
  "send_is_fin self \<longleftrightarrow> sd_fin_off self = Some (sd_off self)"

definition send_is_complete :: "send_buf \<Rightarrow> bool" where
  "send_is_complete self \<longleftrightarrow>
     (case sd_fin_off self of
        Some fin_off \<Rightarrow> range_set_eq_range (sd_acked self) (0, fin_off) | None \<Rightarrow> False)"

definition ack_off :: "send_buf \<Rightarrow> nat" where
  "ack_off self =
     (case range_set_iter (sd_acked self) of
        [] \<Rightarrow> 0 | (s, e) # _ \<Rightarrow> if s = 0 then e else 0)"

definition send_cap :: "send_buf \<Rightarrow> nat quic_result" where
  "send_cap self =
     (case sd_error self of
        Some e \<Rightarrow> Inl (Error (StreamStopped e))
      | None \<Rightarrow> sub_checked (sd_max_data self) (sd_off self))"

subsection \<open>Writing\<close>

text \<open>How many bytes may be queued, whether the last of them ends the stream, and the buffer.\<close>

definition reserve_for_write ::
  "nat \<Rightarrow> bool \<Rightarrow> send_buf \<Rightarrow> (nat \<times> bool \<times> send_buf) quic_result" where
  "reserve_for_write len fin self =
     (let max_off = sd_off self + len
      in outcome_bind (send_cap self) (\<lambda>cap.
           let (len, fin) = (if cap < len then (cap, False) else (len, fin))
           in if (case sd_fin_off self of
                    Some fin_off \<Rightarrow> fin_off < max_off \<or> max_off = fin_off \<and> \<not> fin
                  | None \<Rightarrow> False)
              then Inl (Error FinalSize)
              else
                (let self = (if fin then self\<lparr>sd_fin_off := Some max_off\<rparr> else self)
                 in if max_off \<le> ack_off self then Inr (0, fin, self) else Inr (len, fin, self))))"

text \<open>The reservation takes a chunk.\<close>

definition reserve_append ::
  "bytes \<Rightarrow> nat \<times> bool \<times> send_buf \<Rightarrow> (nat \<times> bool \<times> send_buf) quic_result" where
  "reserve_append buf reserve =
     (case reserve of (reserved, fin, inner) \<Rightarrow>
        if reserved < length buf then Inl (Error BufferTooShort)
        else
          Inr (reserved - length buf, fin,
               inner\<lparr>sd_data := sd_data inner
                       @ [range_buf_from buf (sd_off inner) (reserved = length buf \<and> fin)],
                     sd_off := sd_off inner + length buf,
                     sd_buffered_bytes := sd_buffered_bytes inner + length buf\<rparr>))"

text \<open>\<open>slice::chunks\<close>, and the loop over the chunks.\<close>

function slice_chunks :: "nat \<Rightarrow> 'a list \<Rightarrow> 'a list list" where
  "slice_chunks n xs = (if xs = [] \<or> n = 0 then [] else take n xs # slice_chunks n (drop n xs))"
  by pat_completeness auto
termination
  by (relation "measure (\<lambda>(n, xs). length xs)") auto

declare slice_chunks.simps [simp del]

fun append_chunks ::
  "bytes list \<Rightarrow> nat \<times> bool \<times> send_buf \<Rightarrow> (nat \<times> bool \<times> send_buf) quic_result" where
  "append_chunks [] reserve = Inr reserve"
| "append_chunks (chunk # rest) reserve =
     outcome_bind (reserve_append chunk reserve) (append_chunks rest)"

text \<open>Dropping a reservation that was not used up is an assertion failure.\<close>

definition drop_reserve :: "nat \<times> bool \<times> send_buf \<Rightarrow> send_buf quic_result" where
  "drop_reserve reserve =
     (case reserve of (reserved, _, inner) \<Rightarrow> if reserved = 0 then Inr inner else Inl Panic)"

definition send_write :: "bytes \<Rightarrow> bool \<Rightarrow> send_buf \<Rightarrow> (nat \<times> send_buf) quic_result" where
  "send_write data fin self =
     outcome_bind (reserve_for_write (length data) fin self) (\<lambda>(reserved, fin, self).
       if reserved = 0 then Inr (0, self)
       else
         outcome_bind
           (append_chunks (slice_chunks SEND_BUFFER_SIZE (take reserved data)) (reserved, fin, self))
           (\<lambda>reserve. outcome_bind (drop_reserve reserve) (\<lambda>self. Inr (reserved, self))))"

definition send_append_buf ::
  "bytes \<Rightarrow> nat \<Rightarrow> bool \<Rightarrow> send_buf \<Rightarrow> (nat \<times> bytes option \<times> send_buf) quic_result" where
  "send_append_buf data cap fin self =
     outcome_bind (reserve_for_write (min cap (length data)) fin self) (\<lambda>(reserved, fin, self).
       if reserved = 0 then Inr (0, Some data, self)
       else
         (let (data, remainder) =
                (if reserved < length data then (take reserved data, Some (drop reserved data))
                 else (data, None))
          in outcome_bind (reserve_append data (reserved, fin, self)) (\<lambda>reserve.
               outcome_bind (drop_reserve reserve) (\<lambda>self. Inr (reserved, remainder, self)))))"

subsection \<open>Sending\<close>

definition copy_into :: "bytes \<Rightarrow> nat \<Rightarrow> bytes \<Rightarrow> bytes quic_result" where
  "copy_into out at src =
     (if at + length src \<le> length out
      then Inr (take at out @ src @ drop (at + length src) out) else Inl Panic)"

text \<open>The loop: room left in the output, the offset to continue at, the output and the buffer.\<close>

function send_loop ::
  "nat \<Rightarrow> nat \<Rightarrow> nat \<Rightarrow> bytes \<Rightarrow> send_buf \<Rightarrow> (nat \<times> nat \<times> bytes \<times> send_buf) quic_result" where
  "send_loop out_off out_len next_off out self =
     (if 0 < out_len
         \<and> \<not> (sd_data self = [] \<or> sd_off self \<le> off_front self \<or> off_front self \<noteq> next_off
              \<or> sd_max_data self \<le> off_front self)
         \<and> sd_pos self < length (sd_data self)
      then
        (let buf = sd_data self ! sd_pos self
         in if buf_is_empty buf
            then send_loop out_off out_len next_off out (self\<lparr>sd_pos := sd_pos self + 1\<rparr>)
            else
              (let buf_len = min (Recv_Buf.buf_len buf) out_len;
                   partial = buf_len < Recv_Buf.buf_len buf;
                   out_pos = next_off - out_off
               in outcome_bind (copy_into out out_pos (take buf_len (buf_bytes buf))) (\<lambda>out.
                  outcome_bind (sub_checked (sd_buffered_bytes self) buf_len) (\<lambda>buffered_bytes.
                    let self = self\<lparr>sd_buffered_bytes := buffered_bytes,
                                    sd_data := (sd_data self)[sd_pos self := buf_consume buf_len buf]\<rparr>;
                        out_len = out_len - buf_len;
                        next_off = buf_off buf + buf_len
                    in if partial then Inr (out_len, next_off, out, self)
                       else send_loop out_off out_len next_off out
                              (self\<lparr>sd_pos := sd_pos self + 1\<rparr>)))))
      else Inr (out_len, next_off, out, self))"
  by pat_completeness auto
termination
  by (relation "measure (\<lambda>(out_off, out_len, next_off, out, self). length (sd_data self) - sd_pos self)")
     (auto simp: Let_def)

declare send_loop.simps [simp del]

text \<open>The number of bytes written to \<open>out\<close> and whether the last of them ends the stream.\<close>

definition send_emit :: "bytes \<Rightarrow> send_buf \<Rightarrow> (nat \<times> bool \<times> bytes \<times> send_buf) quic_result" where
  "send_emit out self =
     (let out_off = off_front self
      in outcome_bind (send_loop out_off (length out) out_off out self)
           (\<lambda>(out_len, next_off, out, self).
              let fin = (sd_fin_off self = Some next_off);
                  self = self\<lparr>sd_emit_off := max (sd_emit_off self) next_off\<rparr>
              in Inr (length out - out_len, fin, out, self)))"

definition send_update_max_data :: "nat \<Rightarrow> send_buf \<Rightarrow> send_buf" where
  "send_update_max_data max_data self = self\<lparr>sd_max_data := max (sd_max_data self) max_data\<rparr>"

definition update_blocked_at :: "nat option \<Rightarrow> send_buf \<Rightarrow> send_buf" where
  "update_blocked_at blocked_at self = self\<lparr>sd_blocked_at := blocked_at\<rparr>"

subsection \<open>Acknowledgement and loss\<close>

definition send_ack :: "nat \<Rightarrow> nat \<Rightarrow> send_buf \<Rightarrow> send_buf quic_result" where
  "send_ack off len self =
     (case range_set_insert off (off + len) (sd_acked self) of
        None \<Rightarrow> Inl Panic | Some acked \<Rightarrow> Inr (self\<lparr>sd_acked := acked\<rparr>))"

text \<open>The index of the last chunk that is acknowledged together with all chunks before it.\<close>

fun drop_until :: "nat \<Rightarrow> nat \<Rightarrow> nat option \<Rightarrow> range_buf list \<Rightarrow> nat option" where
  "drop_until acked_to i found [] = found"
| "drop_until acked_to i found (buf # bufs) =
     (if acked_to \<le> rb_off buf then found
      else if rb_off buf < acked_to \<and> acked_to < buf_max_off buf then found
      else drop_until acked_to (i + 1) (Some i) bufs)"

definition ack_and_drop :: "nat \<Rightarrow> nat \<Rightarrow> send_buf \<Rightarrow> (nat \<times> send_buf) quic_result" where
  "ack_and_drop off len self =
     outcome_bind (send_ack off len self) (\<lambda>self.
       let acked_to = ack_off self
       in if sd_data self = [] then Inr (0, self)
          else if acked_to < off then Inr (0, self)
          else
            (case drop_until acked_to 0 None (sd_data self) of
               Some i \<Rightarrow>
                 (let dropped_len = sum_list (map buf_len (take (i + 1) (sd_data self)))
                  in Inr (dropped_len,
                       self\<lparr>sd_buffered_bytes := sd_buffered_bytes self - dropped_len,
                            sd_data := drop (i + 1) (sd_data self),
                            sd_pos := sd_pos self - (i + 1)\<rparr>))
             | None \<Rightarrow> Inr (0, self)))"

text \<open>The read position goes back to \<open>off\<close>, or to the start of the chunk.\<close>

definition rewound :: "nat \<Rightarrow> range_buf \<Rightarrow> range_buf" where
  "rewound off buf =
     buf\<lparr>rb_pos :=
       (if rb_off buf < off \<and> off \<le> buf_max_off buf
        then min (rb_pos buf) (rb_start buf + (off - rb_off buf)) else rb_start buf)\<rparr>"

text \<open>A chunk that a lost range meets: the part to be sent again, what is cut off behind it, and the gain.\<close>

definition rewind :: "nat \<Rightarrow> nat \<Rightarrow> range_buf \<Rightarrow> (nat \<times> range_buf \<times> range_buf list) quic_result" where
  "rewind off max_off buf =
     outcome_bind
       (if rb_off buf < max_off \<and> max_off < buf_max_off buf
        then (case split_off (max_off - rb_off buf) buf of
                None \<Rightarrow> Inl Panic | Some (buf, new_buf) \<Rightarrow> Inr (buf, [new_buf]))
        else Inr (buf, []))
       (\<lambda>(buf, new_buf).
          let prev_pos = rb_pos buf; buf = rewound off buf
          in outcome_bind (sub_checked prev_pos (rb_pos buf)) (\<lambda>retransmitted.
               Inr (retransmitted, buf, new_buf)))"

text \<open>The loop over the indices \<open>i\<close> below the number of chunks at its start.\<close>

fun retransmit_loop ::
  "nat \<Rightarrow> nat \<Rightarrow> nat \<Rightarrow> nat \<Rightarrow> nat \<Rightarrow> send_buf \<Rightarrow> (nat \<times> send_buf) quic_result" where
  "retransmit_loop 0 i off max_off gained self = Inr (gained, self)"
| "retransmit_loop (Suc n) i off max_off gained self =
     (case slice_at (sd_data self) i of
        None \<Rightarrow> Inl Panic
      | Some buf \<Rightarrow>
          if max_off \<le> rb_off buf then Inr (gained, self)
          else if buf_max_off buf < off then retransmit_loop n (i + 1) off max_off gained self
          else
            outcome_bind (rewind off max_off buf) (\<lambda>(retransmitted, buf, new_buf).
              retransmit_loop n (i + 1) off max_off (gained + retransmitted)
                (self\<lparr>sd_pos := min (sd_pos self) i,
                      sd_buffered_bytes := sd_buffered_bytes self + retransmitted,
                      sd_data := take i (sd_data self) @ buf # new_buf @ drop (i + 1) (sd_data self)\<rparr>)))"

definition retransmit :: "nat \<Rightarrow> nat \<Rightarrow> send_buf \<Rightarrow> (nat \<times> send_buf) quic_result" where
  "retransmit off len self =
     (let max_off = off + len
      in if sd_data self = [] then Inr (0, self)
         else if max_off \<le> ack_off self then Inr (0, self)
         else retransmit_loop (length (sd_data self)) 0 off max_off 0 self)"

subsection \<open>Giving up\<close>

definition send_reset :: "send_buf \<Rightarrow> ((nat \<times> nat) \<times> send_buf) quic_result" where
  "send_reset self =
     (let unsent_off = max (off_front self) (sd_emit_off self);
          unsent_len = sd_off self - unsent_off;
          self = self\<lparr>sd_fin_off := Some unsent_off, sd_data := [], sd_off := unsent_off\<rparr>
      in outcome_bind (send_ack 0 (sd_off self) self) (\<lambda>self.
           let self = self\<lparr>sd_pos := 0, sd_buffered_bytes := 0\<rparr>
           in Inr ((sd_emit_off self, unsent_len), self)))"

definition send_stop :: "nat \<Rightarrow> send_buf \<Rightarrow> ((nat \<times> nat) \<times> send_buf) quic_result" where
  "send_stop error_code self =
     (if sd_error self \<noteq> None then Inl (Error Done)
      else
        outcome_bind (send_reset self) (\<lambda>(sizes, self).
          Inr (sizes, self\<lparr>sd_error := Some error_code\<rparr>)))"

definition send_shutdown :: "send_buf \<Rightarrow> ((nat \<times> nat) \<times> send_buf) quic_result" where
  "send_shutdown self =
     (if sd_shutdown self then Inl (Error Done)
      else send_reset (self\<lparr>sd_shutdown := True\<rparr>))"

text \<open>What \<open>stream/mod.rs\<close> asks of the send side.\<close>

definition is_writable :: "nat \<Rightarrow> send_buf \<Rightarrow> bool" where
  "is_writable send_lowat send \<longleftrightarrow>
     \<not> sd_shutdown send \<and> \<not> send_is_fin send \<and> sd_off send + send_lowat < sd_max_data send"

definition is_flushable :: "send_buf \<Rightarrow> bool" where
  "is_flushable send \<longleftrightarrow>
     sd_data send \<noteq> [] \<and> off_front send < sd_off send \<and> off_front send < sd_max_data send"

subsection \<open>The queue of chunks\<close>

text \<open>The chunks tile the offsets from \<open>lo\<close> to \<open>hi\<close>.\<close>

fun tiles :: "nat \<Rightarrow> range_buf list \<Rightarrow> nat \<Rightarrow> bool" where
  "tiles lo [] hi \<longleftrightarrow> lo = hi"
| "tiles lo (b # bs) hi \<longleftrightarrow>
     rb_off b = lo \<and> 0 < rb_len b \<and> buf_ok b \<and> tiles (lo + rb_len b) bs hi"

text \<open>A chunk of the stream \<open>S\<close>, sent or not.\<close>

definition piece :: "(nat \<Rightarrow> u8) \<Rightarrow> range_buf \<Rightarrow> bool" where
  "piece S b \<longleftrightarrow>
     take (rb_len b) (drop (rb_start b) (rb_data b)) = map S [rb_off b..<rb_off b + rb_len b]"

text \<open>The offsets that wait to be sent, for the first time or again.\<close>

definition pending :: "range_buf list \<Rightarrow> nat set" where
  "pending bs = (\<Union>b \<in> set bs. {buf_off b..<buf_max_off b})"

lemma pending_simps [simp]:
  "pending [] = {}"
  "pending (b # bs) = {buf_off b..<buf_max_off b} \<union> pending bs"
  "pending (xs @ ys) = pending xs \<union> pending ys"
  by (auto simp: pending_def)

lemma buf_views:
  assumes "buf_ok b"
  shows "buf_off b = rb_off b + (rb_pos b - rb_start b)" "buf_max_off b = rb_off b + rb_len b"
    "buf_off b + buf_len b = rb_off b + rb_len b" "buf_off b \<le> rb_off b + rb_len b"
  using assms by (auto simp: buf_ok_def buf_off_def buf_max_off_def buf_len_def)

lemma tiles_append [simp]: "tiles lo (xs @ ys) hi \<longleftrightarrow> (\<exists>mid. tiles lo xs mid \<and> tiles mid ys hi)"
  by (induction xs arbitrary: lo) auto

lemma tiles_le: "tiles lo bs hi \<Longrightarrow> lo \<le> hi"
  by (induction bs arbitrary: lo) force+

lemma tiles_ok: "tiles lo bs hi \<Longrightarrow> b \<in> set bs \<Longrightarrow> buf_ok b"
  by (induction bs arbitrary: lo) auto

lemma pending_bounds: "tiles lo bs hi \<Longrightarrow> pending bs \<subseteq> {lo..<hi}"
proof (induction bs arbitrary: lo)
  case Nil
  then show ?case by simp
next
  case (Cons b bs)
  then have "pending bs \<subseteq> {lo + rb_len b..<hi}" "lo + rb_len b \<le> hi" by (auto dest: tiles_le)
  with Cons.prems show ?case by (auto simp: buf_views)
qed

lemma pending_empty: "list_all buf_is_empty bs \<Longrightarrow> pending bs = {}"
  by (induction bs) (auto simp: buf_is_empty_def buf_max_off_def)

lemma piece_bytes:
  assumes "piece S b" and "buf_ok b"
  shows "buf_bytes b = map S [buf_off b..<buf_max_off b]"
proof -
  let ?k = "rb_pos b - rb_start b"
  have k: "?k \<le> rb_len b" "rb_pos b = rb_start b + ?k" using assms(2) by (auto simp: buf_ok_def)
  have "buf_bytes b = drop ?k (take (rb_len b) (drop (rb_start b) (rb_data b)))"
    using k by (simp add: buf_bytes_def drop_take add.commute)
  also have "\<dots> = map S [rb_off b + ?k..<rb_off b + rb_len b]"
    using assms(1) by (simp add: piece_def drop_map)
  finally show ?thesis using assms(2) by (simp add: buf_views)
qed

definition chunk_queue ::
  "(nat \<Rightarrow> u8) \<Rightarrow> nat \<Rightarrow> nat \<Rightarrow> range_buf list \<Rightarrow> nat \<Rightarrow> nat \<Rightarrow> bool" where
  "chunk_queue S lo hi data pos buffered \<longleftrightarrow>
     tiles lo data hi \<and> list_all (piece S) data \<and> pos \<le> length data
     \<and> list_all buf_is_empty (take pos data) \<and> buffered = sum_list (map buf_len data)"

text \<open>The next offset to be sent is the lowest one that waits.\<close>

lemma off_front_cases:
  assumes "tiles lo (sd_data self) hi" and "list_all buf_is_empty (take (sd_pos self) (sd_data self))"
    and "sd_off self = hi"
  obtains (all_sent) "pending (sd_data self) = {}" "off_front self = hi"
  | (waiting) "off_front self \<in> pending (sd_data self)" "pending (sd_data self) \<subseteq> {off_front self..<hi}"
proof -
  let ?d = "drop (sd_pos self) (sd_data self)"
  have split: "sd_data self = take (sd_pos self) (sd_data self) @ takeWhile buf_is_empty ?d @ dropWhile buf_is_empty ?d"
    by simp
  have "list_all buf_is_empty (takeWhile buf_is_empty ?d)" by (auto simp: list_all_iff dest: set_takeWhileD)
  then have p: "pending (sd_data self) = pending (dropWhile buf_is_empty ?d)"
    by (subst split, simp only: pending_simps) (simp add: pending_empty assms(2))
  obtain mid where t: "tiles mid (dropWhile buf_is_empty ?d) hi"
    using assms(1) by (subst (asm) split, unfold tiles_append) blast
  show thesis
  proof (cases "dropWhile buf_is_empty ?d")
    case Nil
    show thesis
      by (rule all_sent) (unfold p off_front_def Nil, simp_all add: assms(3))
  next
    case (Cons b bs)
    then have ne: "\<not> buf_is_empty b" using hd_dropWhile [of buf_is_empty ?d] by simp
    have f: "off_front self = buf_off b" using Cons by (simp add: off_front_def)
    have ok: "buf_ok b" and rest: "pending bs \<subseteq> {buf_max_off b..<hi}" "buf_max_off b \<le> hi"
      using t pending_bounds [of "rb_off b + rb_len b" bs hi] Cons by (auto simp: buf_views dest: tiles_le)
    have "buf_off b < buf_max_off b" using ne by (simp add: buf_is_empty_def buf_max_off_def)
    with rest show thesis by (intro waiting) (auto simp: p Cons f)
  qed
qed

lemma chunk_queue_split:
  assumes "chunk_queue S lo hi data pos buffered" and "pos < length data"
  obtains xs b ys where "data = xs @ b # ys" "length xs = pos" "pending xs = {}" "data ! pos = b"
    "buf_ok b" "piece S b" "0 < rb_len b" "tiles lo xs (rb_off b)" "tiles (rb_off b + rb_len b) ys hi"
    "list_all buf_is_empty xs" "list_all (piece S) xs" "list_all (piece S) ys"
    "buffered = sum_list (map buf_len xs) + buf_len b + sum_list (map buf_len ys)"
proof -
  obtain xs b ys where d: "data = xs @ b # ys" and n: "length xs = pos"
    using id_take_nth_drop [OF assms(2)] assms(2) by (metis length_take min.absorb2 less_imp_le)
  moreover have "list_all buf_is_empty xs" using assms(1) d n by (auto simp: chunk_queue_def)
  ultimately show thesis
    using assms(1) pending_empty [of xs] by (intro that [of xs b ys]) (auto simp: chunk_queue_def nth_append)
qed

lemma consumed_chunk:
  assumes "buf_ok b" and "n \<le> buf_len b"
  shows "buf_ok (buf_consume n b)" "buf_off (buf_consume n b) = buf_off b + n"
    "buf_len (buf_consume n b) = buf_len b - n" "buf_max_off (buf_consume n b) = buf_max_off b"
    "piece S (buf_consume n b) = piece S b"
    "rb_off (buf_consume n b) = rb_off b" "rb_len (buf_consume n b) = rb_len b"
  using assms by (auto simp: buf_consume_def buf_ok_def buf_off_def buf_len_def buf_max_off_def piece_def)

subsection \<open>Sending takes what waits\<close>

definition same_but_queue :: "send_buf \<Rightarrow> send_buf \<Rightarrow> bool" where
  "same_but_queue self self' \<longleftrightarrow>
     sd_off self' = sd_off self \<and> sd_emit_off self' = sd_emit_off self
     \<and> sd_max_data self' = sd_max_data self \<and> sd_blocked_at self' = sd_blocked_at self
     \<and> sd_fin_off self' = sd_fin_off self \<and> sd_shutdown self' = sd_shutdown self
     \<and> sd_acked self' = sd_acked self \<and> sd_error self' = sd_error self"

abbreviation queue_of :: "(nat \<Rightarrow> u8) \<Rightarrow> nat \<Rightarrow> send_buf \<Rightarrow> bool" where
  "queue_of S lo self \<equiv>
     chunk_queue S lo (sd_off self) (sd_data self) (sd_pos self) (sd_buffered_bytes self)"

lemma same_but_queue_refl: "same_but_queue self self"
  by (simp add: same_but_queue_def)

text \<open>After the loop: \<open>k\<close> bytes from \<open>next_off\<close> on were copied and wait no longer.\<close>

definition sent_post where
  "sent_post S lo out_off out_len next_off out self res \<longleftrightarrow>
     (\<exists>k self'. res = Inr (out_len - k, next_off + k,
            take (next_off - out_off) out @ map S [next_off..<next_off + k]
              @ drop (next_off - out_off + k) out, self')
        \<and> k \<le> out_len \<and> queue_of S lo self' \<and> same_but_queue self self'
        \<and> {next_off..<next_off + k} \<subseteq> pending (sd_data self)
        \<and> pending (sd_data self') = pending (sd_data self) - {next_off..<next_off + k}
        \<and> (0 < out_len \<and> next_off \<in> pending (sd_data self) \<and> off_front self = next_off \<longrightarrow> 0 < k))"

lemma sent_post_none:
  assumes "queue_of S lo self"
    and "\<not> (0 < out_len \<and> next_off \<in> pending (sd_data self) \<and> off_front self = next_off)"
  shows "sent_post S lo out_off out_len next_off out self (Inr (out_len, next_off, out, self))"
  unfolding sent_post_def using assms
  by (intro exI [of _ 0] exI [of _ self]) (auto simp: same_but_queue_refl)

lemma same_but_queue_trans:
  "same_but_queue a b \<Longrightarrow> same_but_queue b c \<Longrightarrow> same_but_queue a c"
  by (simp add: same_but_queue_def)

lemma same_but_queue_upd:
  "same_but_queue self (self\<lparr>sd_pos := p\<rparr>)"
  "same_but_queue self (self\<lparr>sd_buffered_bytes := n, sd_data := d\<rparr>)"
  "same_but_queue self (self\<lparr>sd_pos := p, sd_buffered_bytes := n, sd_data := d\<rparr>)"
  by (simp_all add: same_but_queue_def)

lemma sent_post_more:
  assumes n: "0 < n" "n \<le> out_len" and p: "out_off \<le> next_off" "next_off - out_off + out_len = length out"
    and pend: "{next_off..<next_off + n} \<subseteq> pending (sd_data self)"
      "pending (sd_data self2) = pending (sd_data self) - {next_off..<next_off + n}"
    and same: "same_but_queue self self2"
    and rest: "sent_post S lo out_off (out_len - n) (next_off + n)
      (take (next_off - out_off) out @ map S [next_off..<next_off + n] @ drop (next_off - out_off + n) out)
      self2 res"
  shows "sent_post S lo out_off out_len next_off out self res"
proof -
  let ?p = "next_off - out_off"
  let ?out = "take ?p out @ map S [next_off..<next_off + n] @ drop (?p + n) out"
  obtain k self' where k: "res = Inr (out_len - n - k, next_off + n + k,
      take (next_off + n - out_off) ?out @ map S [next_off + n..<next_off + n + k]
        @ drop (next_off + n - out_off + k) ?out, self')"
    "k \<le> out_len - n" "queue_of S lo self'" "same_but_queue self2 self'"
    "{next_off + n..<next_off + n + k} \<subseteq> pending (sd_data self2)"
    "pending (sd_data self') = pending (sd_data self2) - {next_off + n..<next_off + n + k}"
    using rest unfolding sent_post_def by blast
  have at: "next_off + n - out_off = ?p + n" using p(1) by simp
  have t: "take (?p + n) ?out = take ?p out @ map S [next_off..<next_off + n]"
    "drop (?p + n + k) ?out = drop (?p + (n + k)) out"
    using n p by (simp_all add: ac_simps)
  have m: "map S [next_off..<next_off + n] @ map S [next_off + n..<next_off + n + k] @ z
      = map S [next_off..<next_off + (n + k)] @ z" for z
    using upt_add_eq_append [of next_off "next_off + n" k] by (simp add: add.assoc)
  have "res = Inr (out_len - (n + k), next_off + (n + k),
      take ?p out @ map S [next_off..<next_off + (n + k)] @ drop (?p + (n + k)) out, self')"
    unfolding k(1) at t append_assoc m diff_diff_left by (simp only: add.assoc)
  moreover have "{next_off..<next_off + (n + k)} = {next_off..<next_off + n} \<union> {next_off + n..<next_off + n + k}"
    by auto
  then have "{next_off..<next_off + (n + k)} \<subseteq> pending (sd_data self)"
    "pending (sd_data self') = pending (sd_data self) - {next_off..<next_off + (n + k)}"
    using k(5,6) pend by blast+
  ultimately show ?thesis
    unfolding sent_post_def
    using n k(2,3) same_but_queue_trans [OF same k(4)]
    by (intro exI [of _ "n + k"] exI [of _ self'] conjI) simp_all
qed

lemma sent_post_skip:
  assumes "same_but_queue self self2" "pending (sd_data self2) = pending (sd_data self)"
    "off_front self2 = off_front self" "sent_post S lo out_off out_len next_off out self2 res"
  shows "sent_post S lo out_off out_len next_off out self res"
proof -
  obtain k self' where "res = Inr (out_len - k, next_off + k,
      take (next_off - out_off) out @ map S [next_off..<next_off + k] @ drop (next_off - out_off + k) out, self')"
    "k \<le> out_len" "queue_of S lo self'" "same_but_queue self2 self'"
    "{next_off..<next_off + k} \<subseteq> pending (sd_data self2)"
    "pending (sd_data self') = pending (sd_data self2) - {next_off..<next_off + k}"
    "0 < out_len \<and> next_off \<in> pending (sd_data self2) \<and> off_front self2 = next_off \<longrightarrow> 0 < k"
    using assms(4) unfolding sent_post_def by blast
  with same_but_queue_trans [OF assms(1) this(4)] show ?thesis
    unfolding sent_post_def assms(2,3) by blast
qed

lemma off_front_here:
  assumes "sd_pos self < length (sd_data self)"
  shows "buf_is_empty (sd_data self ! sd_pos self) \<Longrightarrow> off_front (self\<lparr>sd_pos := sd_pos self + 1\<rparr>) = off_front self"
    and "\<not> buf_is_empty (sd_data self ! sd_pos self) \<Longrightarrow> off_front self = buf_off (sd_data self ! sd_pos self)"
  by (simp_all add: off_front_def cong: list.case_cong flip: Cons_nth_drop_Suc [OF assms])

lemma chunk_queue_next:
  assumes "chunk_queue S lo hi data pos buffered" and "pos < length data" and "buf_is_empty (data ! pos)"
  shows "chunk_queue S lo hi data (pos + 1) buffered"
  using assms by (simp add: chunk_queue_def take_Suc_conv_app_nth)

lemma chunk_queue_take:
  assumes "chunk_queue S lo hi data pos buffered" and "pos < length data" and "n \<le> buf_len (data ! pos)"
  shows "chunk_queue S lo hi (data[pos := buf_consume n (data ! pos)]) pos (buffered - n)"
    and "pending (data[pos := buf_consume n (data ! pos)])
      = pending data - {buf_off (data ! pos)..<buf_off (data ! pos) + n}"
    and "n \<le> buffered" and "{buf_off (data ! pos)..<buf_off (data ! pos) + n} \<subseteq> pending data"
proof -
  obtain xs b ys where d: "data = xs @ b # ys" "length xs = pos" "pending xs = {}" "data ! pos = b"
    and b: "buf_ok b" "piece S b" "0 < rb_len b" "tiles lo xs (rb_off b)" "tiles (rb_off b + rb_len b) ys hi"
    "list_all buf_is_empty xs" "list_all (piece S) xs" "list_all (piece S) ys"
    "buffered = sum_list (map buf_len xs) + buf_len b + sum_list (map buf_len ys)"
    using chunk_queue_split [OF assms(1,2)] by metis
  have n: "n \<le> buf_len b" using assms(3) d(4) by simp
  note c = consumed_chunk [OF b(1) n]
  have upd: "data[pos := buf_consume n b] = xs @ buf_consume n b # ys" by (simp add: d(1) flip: d(2))
  show "chunk_queue S lo hi (data[pos := buf_consume n (data ! pos)]) pos (buffered - n)"
    unfolding d(4) upd using b c n d(2) by (auto simp: chunk_queue_def)
  have "pending ys \<subseteq> {buf_max_off b..<hi}"
    using pending_bounds [OF b(5)] by (simp add: buf_views [OF b(1)])
  moreover have "buf_off b + n \<le> buf_max_off b" using n by (simp add: buf_max_off_def)
  ultimately show "pending (data[pos := buf_consume n (data ! pos)])
      = pending data - {buf_off (data ! pos)..<buf_off (data ! pos) + n}"
    "{buf_off (data ! pos)..<buf_off (data ! pos) + n} \<subseteq> pending data"
    unfolding d(4) upd using d(1,3) c by auto
  show "n \<le> buffered" using n b(9) by simp
qed

lemma send_loop_spec:
  assumes "queue_of S lo self" and "out_off \<le> next_off" and "next_off - out_off + out_len = length out"
    and "sd_off self \<le> sd_max_data self"
  shows "sent_post S lo out_off out_len next_off out self (send_loop out_off out_len next_off out self)"
  using assms
proof (induction out_off out_len next_off out self rule: send_loop.induct)
  case (1 out_off out_len next_off out self)
  note q = 1(3) and p = 1(4,5)
  let ?b = "sd_data self ! sd_pos self"
  let ?go = "0 < out_len
    \<and> \<not> (sd_data self = [] \<or> sd_off self \<le> off_front self \<or> off_front self \<noteq> next_off
         \<or> sd_max_data self \<le> off_front self)
    \<and> sd_pos self < length (sd_data self)"
  show ?case
  proof (cases ?go)
    case False
    have "\<not> (0 < out_len \<and> next_off \<in> pending (sd_data self) \<and> off_front self = next_off)"
    proof
      assume *: "0 < out_len \<and> next_off \<in> pending (sd_data self) \<and> off_front self = next_off"
      moreover have "next_off < sd_off self"
        using * q pending_bounds [of lo "sd_data self" "sd_off self"] by (auto simp: chunk_queue_def)
      moreover have "sd_pos self < length (sd_data self)"
      proof (rule ccontr)
        assume "\<not> sd_pos self < length (sd_data self)"
        then show False using * q pending_empty [of "sd_data self"] by (simp add: chunk_queue_def)
      qed
      ultimately show False using False 1(6) by auto
    qed
    with q show ?thesis by (subst send_loop.simps, subst if_not_P [OF False]) (rule sent_post_none)
  next
    case True
    then have pos: "sd_pos self < length (sd_data self)" by blast
    show ?thesis
    proof (cases "buf_is_empty ?b")
      case empty: True
      have "sent_post S lo out_off out_len next_off out (self\<lparr>sd_pos := sd_pos self + 1\<rparr>)
          (send_loop out_off out_len next_off out (self\<lparr>sd_pos := sd_pos self + 1\<rparr>))"
        using 1(1) [OF True refl empty] chunk_queue_next [OF q pos empty] p 1(6) by simp
      then have "sent_post S lo out_off out_len next_off out self
          (send_loop out_off out_len next_off out (self\<lparr>sd_pos := sd_pos self + 1\<rparr>))"
        by (rule sent_post_skip [OF same_but_queue_upd(1) _ off_front_here(1) [OF pos empty], rotated]) simp
      then show ?thesis
        by (subst send_loop.simps, subst if_P [OF True]) (simp only: Let_def empty if_True)
    next
      case full: False
      let ?n = "min (buf_len ?b) out_len"
      let ?self = "self\<lparr>sd_buffered_bytes := sd_buffered_bytes self - ?n,
          sd_data := (sd_data self)[sd_pos self := buf_consume ?n ?b]\<rparr>"
      let ?out = "take (next_off - out_off) out @ map S [next_off..<next_off + ?n]
          @ drop (next_off - out_off + ?n) out"
      note got = chunk_queue_take [OF q pos, of ?n]
      have at: "buf_off ?b = next_off" using off_front_here(2) [OF pos full] True by simp
      have "buf_ok ?b" "piece S ?b" using chunk_queue_split [OF q pos] by metis+
      then have "take ?n (buf_bytes ?b) = map S [next_off..<next_off + ?n]"
        using piece_bytes [of S ?b] by (simp add: at take_map buf_max_off_def min_def)
      then have copy: "copy_into out (next_off - out_off) (take ?n (buf_bytes ?b)) = Inr ?out"
        using p by (simp add: copy_into_def)
      have n: "0 < ?n" using full True by (simp add: buf_is_empty_def)
      have queue: "queue_of S lo ?self" "same_but_queue self ?self"
        using got(1) by (simp_all add: same_but_queue_upd)
      have more: "sent_post S lo out_off out_len next_off out self res"
        if "sent_post S lo out_off (out_len - ?n) (next_off + ?n) ?out ?self res" for res
        using sent_post_more [OF n min.cobounded2 p _ _ queue(2) that] got(2,4) by (simp add: at)
      have step: "send_loop out_off out_len next_off out self =
          (if ?n < buf_len ?b then Inr (out_len - ?n, next_off + ?n, ?out, ?self)
           else send_loop out_off (out_len - ?n) (next_off + ?n) ?out (?self\<lparr>sd_pos := sd_pos ?self + 1\<rparr>))"
        using got(3) by (subst send_loop.simps, subst if_P [OF True])
          (simp only: Let_def full if_False copy outcome_bind.simps sub_checked_def min.cobounded1 if_True at)
      show ?thesis
      proof (cases "?n < buf_len ?b")
        case True
        then have "out_len - ?n = 0" by simp
        then show ?thesis
          unfolding step if_P [OF True] by (intro more sent_post_none queue(1)) simp
      next
        case False
        let ?next = "?self\<lparr>sd_pos := sd_pos ?self + 1\<rparr>"
        have sub: "sub_checked (sd_buffered_bytes self) ?n = Inr (sd_buffered_bytes self - ?n)"
          using got(3) by (simp add: sub_checked_def)
        have gone: "buf_is_empty (sd_data ?self ! sd_pos ?self)"
          using False pos consumed_chunk(3) [OF \<open>buf_ok ?b\<close>, of ?n] by (simp add: buf_is_empty_def)
        have pos': "sd_pos ?self < length (sd_data ?self)" using pos by simp
        have "queue_of S lo ?next" using chunk_queue_next [OF queue(1) pos' gone] by simp
        then have "sent_post S lo out_off (out_len - ?n) (next_off + ?n) ?out ?next
            (send_loop out_off (out_len - ?n) (next_off + ?n) ?out ?next)"
          using 1(2) [OF \<open>?go\<close> refl full refl refl refl copy sub refl refl refl False] p 1(6)
          by (simp add: at)
        then have "sent_post S lo out_off (out_len - ?n) (next_off + ?n) ?out ?self
            (send_loop out_off (out_len - ?n) (next_off + ?n) ?out ?next)"
          by (rule sent_post_skip [OF same_but_queue_upd(1) _ off_front_here(1) [OF pos' gone], rotated]) simp
        then show ?thesis unfolding step if_not_P [OF False] by (rule more)
      qed
    qed
  qed
qed

subsection \<open>What has been acknowledged\<close>

definition acked_ok :: "range_set \<Rightarrow> nat \<Rightarrow> bool" where
  "acked_ok rs n \<longleftrightarrow>
     range_set_sep rs \<and> range_set_capacity rs = 2 ^ 64 - 1 \<and> (\<forall>r \<in> set (range_set_iter rs). snd r \<le> n)"

lemma ranges_sep_length: "ranges_sep rs \<Longrightarrow> \<forall>r \<in> set rs. snd r \<le> n \<Longrightarrow> length rs \<le> Suc n"
proof -
  assume sep: "ranges_sep rs" and le: "\<forall>r \<in> set rs. snd r \<le> n"
  have "sorted_wrt (<) (map fst rs)"
    using ranges_sorted [OF sep] by (simp add: bt_ok_def)
  then have "distinct (map fst rs)" by (simp add: strict_sorted_iff)
  moreover have "set (map fst rs) \<subseteq> {..n}"
    using le ranges_sep_le [OF sep] by fastforce
  ultimately show ?thesis
    using card_mono [of "{..n}" "set (map fst rs)"] distinct_card [of "map fst rs"] by simp
qed

lemma acked_insert:
  assumes "acked_ok rs n" and "n < 2 ^ 62" and "a \<le> b" and "b \<le> n"
  shows "\<exists>rs'. range_set_insert a b rs = Some rs' \<and> acked_ok rs' n \<and> members rs' = members rs \<union> {a..<b}"
proof -
  have sep: "range_set_sep rs" "ranges_sep (range_set_iter rs)"
    using assms(1) by (simp_all add: acked_ok_def range_set_sep_def)
  have "range_set_len rs < range_set_capacity rs"
    using ranges_sep_length [OF sep(2), of n] assms(1,2) by (simp add: acked_ok_def range_set_len_def)
  then obtain rs' where rs': "range_set_insert a b rs = Some rs'" "range_set_sep rs'"
    "range_set_capacity rs' = range_set_capacity rs" "range_set_iter rs' = rinsert a b (range_set_iter rs)"
    using range_set_insert_sep [OF sep(1) assms(3)] by blast
  moreover have "\<forall>r \<in> set (range_set_iter rs'). snd r \<le> n"
    unfolding rs'(4) using rinsert_below [of "range_set_iter rs" n b] assms(1,4) by (auto simp: acked_ok_def)
  moreover have "members rs' = members rs \<union> {a..<b}"
    using rinsert_ok [OF sep(2) assms(3)] by (auto simp: rs'(4))
  ultimately show ?thesis using assms(1) by (auto simp: acked_ok_def)
qed

lemma acked_members: "acked_ok rs n \<Longrightarrow> members rs \<subseteq> {..<n}"
  by (force simp: acked_ok_def covered_def)

text \<open>The acknowledged offset is the first one that is not acknowledged.\<close>

lemma ack_off_spec:
  assumes "acked_ok (sd_acked self) n"
  shows "{..<ack_off self} \<subseteq> members (sd_acked self)" and "ack_off self \<notin> members (sd_acked self)"
    and "ack_off self \<le> n"
proof -
  have sep: "ranges_sep (range_set_iter (sd_acked self))" and le: "\<forall>r \<in> set (range_set_iter (sd_acked self)). snd r \<le> n"
    using assms by (simp_all add: acked_ok_def range_set_sep_def)
  have "{..<ack_off self} \<subseteq> members (sd_acked self) \<and> ack_off self \<notin> members (sd_acked self)
      \<and> ack_off self \<le> n"
  proof (cases "range_set_iter (sd_acked self)")
    case Nil
    then show ?thesis by (simp add: ack_off_def)
  next
    case (Cons r rs)
    obtain s e where r: "r = (s, e)" by (cases r)
    have "x \<notin> covered rs" if "x \<le> e" for x using sep that by (force simp: Cons r covered_def)
    then show ?thesis using le by (auto simp: ack_off_def Cons r)
  qed
  then show "{..<ack_off self} \<subseteq> members (sd_acked self)" "ack_off self \<notin> members (sd_acked self)"
    "ack_off self \<le> n" by auto
qed

subsection \<open>The invariant\<close>

definition send_inv :: "(nat \<Rightarrow> u8) \<Rightarrow> send_buf \<Rightarrow> bool" where
  "send_inv S self \<longleftrightarrow>
     (\<exists>lo. queue_of S lo self \<and> {..<lo} \<subseteq> members (sd_acked self))
     \<and> sd_off self \<le> sd_max_data self \<and> sd_max_data self < 2 ^ 62 \<and> sd_emit_off self \<le> sd_off self
     \<and> (sd_fin_off self = None \<or> sd_fin_off self = Some (sd_off self))
     \<and> acked_ok (sd_acked self) (sd_emit_off self)
     \<and> {sd_emit_off self..<sd_off self} \<subseteq> pending (sd_data self)"

lemma send_invE:
  assumes "send_inv S self"
  obtains lo where "queue_of S lo self" "{..<lo} \<subseteq> members (sd_acked self)"
    "sd_off self \<le> sd_max_data self" "sd_max_data self < 2 ^ 62" "sd_emit_off self \<le> sd_off self"
    "sd_fin_off self = None \<or> sd_fin_off self = Some (sd_off self)"
    "acked_ok (sd_acked self) (sd_emit_off self)" "{sd_emit_off self..<sd_off self} \<subseteq> pending (sd_data self)"
    "pending (sd_data self) \<subseteq> {lo..<sd_off self}"
  using assms pending_bounds by (force simp: send_inv_def chunk_queue_def)

lemma send_inv_new: "max_data < 2 ^ 62 \<Longrightarrow> send_inv S (send_buf_new max_data)"
  by (simp add: send_inv_def send_buf_new_def chunk_queue_def acked_ok_def range_set_sep_def
      range_set_new_def range_set_len_def MAX_INLINE_CAPACITY_def)

lemma off_front_spec:
  assumes "send_inv S self"
  shows "off_front self \<le> sd_emit_off self"
    and "pending (sd_data self) = {} \<Longrightarrow> off_front self = sd_off self"
    and "pending (sd_data self) \<noteq> {} \<Longrightarrow> off_front self \<in> pending (sd_data self)"
    and "pending (sd_data self) \<subseteq> {off_front self..<sd_off self}"
proof -
  obtain lo where q: "queue_of S lo self" and e: "sd_emit_off self \<le> sd_off self"
    "{sd_emit_off self..<sd_off self} \<subseteq> pending (sd_data self)"
    using assms by (rule send_invE)
  have "off_front self \<le> sd_emit_off self \<and> (pending (sd_data self) = {} \<longrightarrow> off_front self = sd_off self)
      \<and> (pending (sd_data self) \<noteq> {} \<longrightarrow> off_front self \<in> pending (sd_data self))
      \<and> pending (sd_data self) \<subseteq> {off_front self..<sd_off self}"
    by (rule off_front_cases [of lo self "sd_off self"]) (use q e in \<open>force simp: chunk_queue_def\<close>)+
  then show "off_front self \<le> sd_emit_off self"
    "pending (sd_data self) = {} \<Longrightarrow> off_front self = sd_off self"
    "pending (sd_data self) \<noteq> {} \<Longrightarrow> off_front self \<in> pending (sd_data self)"
    "pending (sd_data self) \<subseteq> {off_front self..<sd_off self}" by blast+
qed

subsection \<open>Every operation keeps it\<close>

lemma acked_ok_mono: "acked_ok rs n \<Longrightarrow> n \<le> m \<Longrightarrow> acked_ok rs m"
  by (auto simp: acked_ok_def)

lemma send_emit_spec:
  assumes "send_inv S self"
  obtains k out' self' where
    "send_emit out self = Inr (k, sd_fin_off self = Some (off_front self + k), out', self')"
    "k \<le> length out" "take k out' = map S [off_front self..<off_front self + k]"
    "send_inv S self'" "sd_off self' = sd_off self" "sd_acked self' = sd_acked self"
    "sd_fin_off self' = sd_fin_off self" "sd_error self' = sd_error self"
    "sd_emit_off self' = max (sd_emit_off self) (off_front self + k)"
    "{off_front self..<off_front self + k} \<subseteq> pending (sd_data self)"
    "pending (sd_data self') = pending (sd_data self) - {off_front self..<off_front self + k}"
    "out \<noteq> [] \<and> pending (sd_data self) \<noteq> {} \<longrightarrow> 0 < k"
proof -
  let ?f = "off_front self"
  obtain lo where q: "queue_of S lo self" "{..<lo} \<subseteq> members (sd_acked self)"
    and b: "sd_off self \<le> sd_max_data self" "sd_max_data self < 2 ^ 62" "sd_emit_off self \<le> sd_off self"
    "sd_fin_off self = None \<or> sd_fin_off self = Some (sd_off self)"
    and a: "acked_ok (sd_acked self) (sd_emit_off self)"
    and e: "{sd_emit_off self..<sd_off self} \<subseteq> pending (sd_data self)"
    "pending (sd_data self) \<subseteq> {lo..<sd_off self}"
    using assms by (rule send_invE)
  note front = off_front_spec [OF assms]
  obtain k self1 where k: "send_loop ?f (length out) ?f out self
      = Inr (length out - k, ?f + k, map S [?f..<?f + k] @ drop k out, self1)"
    "k \<le> length out" "queue_of S lo self1" "same_but_queue self self1"
    "{?f..<?f + k} \<subseteq> pending (sd_data self)"
    "pending (sd_data self1) = pending (sd_data self) - {?f..<?f + k}"
    "0 < length out \<and> ?f \<in> pending (sd_data self) \<longrightarrow> 0 < k"
    using send_loop_spec [where out_off = ?f and next_off = ?f and out = out and out_len = "length out",
        OF q(1) le_refl _ b(1)] unfolding sent_post_def by auto
  let ?self = "self1\<lparr>sd_emit_off := max (sd_emit_off self1) (?f + k)\<rparr>"
  have same: "sd_off self1 = sd_off self" "sd_acked self1 = sd_acked self" "sd_fin_off self1 = sd_fin_off self"
    "sd_max_data self1 = sd_max_data self" "sd_emit_off self1 = sd_emit_off self" "sd_error self1 = sd_error self"
    using k(4) by (simp_all add: same_but_queue_def)
  have run: "send_emit out self = Inr (k, sd_fin_off self = Some (?f + k), map S [?f..<?f + k] @ drop k out, ?self)"
    using k(1,2) by (simp add: send_emit_def Let_def same)
  have "?f + k \<le> sd_off self"
  proof (cases "k = 0")
    case False
    then have "?f + k - 1 \<in> {?f..<?f + k}" by auto
    then show ?thesis using k(5) e(2) False by fastforce
  qed (use front(1) b(3) in simp)
  moreover have "{sd_emit_off ?self..<sd_off self} \<subseteq> pending (sd_data self1)"
    using e(1) k(6) by (auto simp: same)
  ultimately have "send_inv S ?self"
    unfolding send_inv_def using q(2) k(3) b same acked_ok_mono [OF a]
    by (intro conjI exI [of _ lo]) simp_all
  then show thesis
    using k run front(3) by (intro that [OF run]) (auto simp: same)
qed

lemma send_inv_ack:
  assumes "send_inv S self" and "off + len \<le> sd_emit_off self"
  obtains self' where "send_ack off len self = Inr self'" "send_inv S self'"
    "members (sd_acked self') = members (sd_acked self) \<union> {off..<off + len}"
    "self' = self\<lparr>sd_acked := sd_acked self'\<rparr>"
proof -
  obtain lo where q: "queue_of S lo self" "{..<lo} \<subseteq> members (sd_acked self)"
    and b: "sd_off self \<le> sd_max_data self" "sd_max_data self < 2 ^ 62" "sd_emit_off self \<le> sd_off self"
    and a: "acked_ok (sd_acked self) (sd_emit_off self)"
    using assms(1) by (rule send_invE)
  have "sd_emit_off self < 2 ^ 62" using b by linarith
  then obtain acked where ins: "range_set_insert off (off + len) (sd_acked self) = Some acked"
    "acked_ok acked (sd_emit_off self)" "members acked = members (sd_acked self) \<union> {off..<off + len}"
    using acked_insert [OF a, of off "off + len"] assms(2) by auto
  show thesis
    by (rule that [of "self\<lparr>sd_acked := acked\<rparr>"])
       (use assms(1) ins q(2) in \<open>auto simp: send_ack_def send_inv_def\<close>)
qed

text \<open>The chunks dropped from the front are acknowledged completely.\<close>

lemma drop_until_spec:
  assumes "tiles lo bs hi"
  obtains (none) "drop_until a i found bs = found"
  | (some) n where "0 < n" "n \<le> length bs" "drop_until a i found bs = Some (i + n - 1)"
      "\<exists>mid \<le> a. tiles lo (take n bs) mid \<and> tiles mid (drop n bs) hi"
  using assms
proof (induction bs arbitrary: lo i found thesis)
  case Nil
  then show ?case by simp
next
  case (Cons b bs)
  have b: "rb_off b = lo" "buf_ok b" and t: "tiles (lo + rb_len b) bs hi" using Cons.prems(3) by auto
  show ?case
  proof (cases "a \<le> rb_off b \<or> a < buf_max_off b")
    case True
    then show ?thesis using Cons.prems(1) by (auto simp: not_le)
  next
    case False
    then have step: "drop_until a i found (b # bs) = drop_until a (i + 1) (Some i) bs"
      and mid: "lo + rb_len b \<le> a" using b by (auto simp: buf_views)
    show ?thesis
    proof (rule Cons.IH [OF _ _ t, of "i + 1" "Some i"])
      assume "drop_until a (i + 1) (Some i) bs = Some i"
      then show ?thesis using step mid Cons.prems(3) by (intro Cons.prems(2) [of 1]) auto
    next
      fix n
      assume "0 < n" "n \<le> length bs" "drop_until a (i + 1) (Some i) bs = Some (i + 1 + n - 1)"
        "\<exists>mid\<le>a. tiles (lo + rb_len b) (take n bs) mid \<and> tiles mid (drop n bs) hi"
      then show ?thesis using step Cons.prems(3) by (intro Cons.prems(2) [of "Suc n"]) auto
    qed
  qed
qed

lemma ack_and_drop_spec:
  assumes "send_inv S self" and "off + len \<le> sd_emit_off self"
  obtains n self' where "ack_and_drop off len self = Inr (n, self')" "send_inv S self'"
    "sd_off self' = sd_off self" "sd_emit_off self' = sd_emit_off self" "sd_fin_off self' = sd_fin_off self"
    "members (sd_acked self') = members (sd_acked self) \<union> {off..<off + len}"
    "pending (sd_data self') \<subseteq> pending (sd_data self)"
    "pending (sd_data self) - pending (sd_data self') \<subseteq> members (sd_acked self')"
proof -
  note result = that
  obtain s where s: "send_ack off len self = Inr s" "send_inv S s"
    "members (sd_acked s) = members (sd_acked self) \<union> {off..<off + len}"
    and same: "s = self\<lparr>sd_acked := sd_acked s\<rparr>"
    using assms by (rule send_inv_ack)
  have fields: "sd_off s = sd_off self" "sd_emit_off s = sd_emit_off self" "sd_fin_off s = sd_fin_off self"
    "sd_data s = sd_data self"
    by (subst same, simp)+
  obtain lo where q: "queue_of S lo s" "{..<lo} \<subseteq> members (sd_acked s)"
    and b: "sd_off s \<le> sd_max_data s" "sd_max_data s < 2 ^ 62" "sd_emit_off s \<le> sd_off s"
    "sd_fin_off s = None \<or> sd_fin_off s = Some (sd_off s)"
    and a: "acked_ok (sd_acked s) (sd_emit_off s)" and e: "{sd_emit_off s..<sd_off s} \<subseteq> pending (sd_data s)"
    using s(2) by (rule send_invE)
  have t: "tiles lo (sd_data s) (sd_off s)" using q(1) by (simp add: chunk_queue_def)
  have stay: thesis if "ack_and_drop off len self = Inr (0, s)"
    by (rule result [OF that]) (use s fields in auto)
  show thesis
  proof (cases "sd_data s = [] \<or> ack_off s < off")
    case True
    then show thesis using s(1) by (intro stay) (auto simp: ack_and_drop_def Let_def)
  next
    case False
    from t show thesis
    proof (cases rule: drop_until_spec [where a = "ack_off s" and i = 0 and found = None])
      case none
      then show thesis using s(1) False by (intro stay) (auto simp: ack_and_drop_def Let_def)
    next
      case (some n)
      let ?d = "sd_data s"
      let ?k = "sum_list (map buf_len (take n ?d))"
      let ?s = "s\<lparr>sd_buffered_bytes := sd_buffered_bytes s - ?k, sd_data := drop n ?d, sd_pos := sd_pos s - n\<rparr>"
      obtain mid where mid: "mid \<le> ack_off s" "tiles lo (take n ?d) mid" "tiles mid (drop n ?d) (sd_off s)"
        using some(4) by blast
      have run: "ack_and_drop off len self = Inr (?k, ?s)"
        using s(1) False some(1,3) by (simp add: ack_and_drop_def Let_def not_less)
      have acked: "{..<mid} \<subseteq> members (sd_acked s)" using ack_off_spec(1) [OF a] mid(1) by auto
      have pend: "pending ?d = pending (take n ?d) \<union> pending (drop n ?d)"
        by (metis append_take_drop_id pending_simps(3))
      have front: "pending (take n ?d) \<subseteq> members (sd_acked s)"
        using pending_bounds [OF mid(2)] acked by force
      have "list_all buf_is_empty (drop n (take (sd_pos s) ?d))" "list_all (piece S) (drop n ?d)"
        using q(1) by (auto simp: chunk_queue_def list_all_iff dest: in_set_dropD)
      moreover have "sum_list (map buf_len ?d) = ?k + sum_list (map buf_len (drop n ?d))"
        by (metis append_take_drop_id map_append sum_list_append)
      ultimately have "chunk_queue S mid (sd_off s) (drop n ?d) (sd_pos s - n) (sd_buffered_bytes s - ?k)"
        using q(1) mid(3) by (simp add: chunk_queue_def drop_take diff_le_mono)
      moreover have "{sd_emit_off s..<sd_off s} \<subseteq> pending (drop n ?d)"
        using e front acked_members [OF a] unfolding pend by fastforce
      ultimately have "send_inv S ?s"
        unfolding send_inv_def using b a acked by (intro conjI exI [of _ mid]) simp_all
      then show thesis
        by (rule result [OF run]) (use s(3) front pend fields in auto)
    qed
  qed
qed

lemma piece_parts:
  assumes "piece S b" and "at \<le> rb_len b"
  shows "take at (drop (rb_start b) (rb_data b)) = map S [rb_off b..<rb_off b + at]"
    and "take (rb_len b - at) (drop (rb_start b + at) (rb_data b)) = map S [rb_off b + at..<rb_off b + rb_len b]"
proof -
  have w: "take (rb_len b) (drop (rb_start b) (rb_data b)) = map S [rb_off b..<rb_off b + rb_len b]"
    using assms(1) by (simp add: piece_def)
  from arg_cong [OF w, of "take at"] show "take at (drop (rb_start b) (rb_data b)) = map S [rb_off b..<rb_off b + at]"
    using assms(2) by (simp add: take_map min_def)
  from arg_cong [OF w, of "drop at"] show "take (rb_len b - at) (drop (rb_start b + at) (rb_data b))
      = map S [rb_off b + at..<rb_off b + rb_len b]"
    by (simp add: drop_map drop_take add.commute)
qed

lemma rewound_chunk:
  assumes "buf_ok b" and "off \<le> buf_max_off b"
  shows "sub_checked (rb_pos b) (rb_pos (rewound off b)) = Inr (rb_pos b - rb_pos (rewound off b))"
    "buf_ok (rewound off b)" "rb_off (rewound off b) = rb_off b" "rb_len (rewound off b) = rb_len b"
    "piece S (rewound off b) = piece S b"
    "buf_len (rewound off b) = buf_len b + (rb_pos b - rb_pos (rewound off b))"
    "buf_max_off (rewound off b) = buf_max_off b"
    "buf_off (rewound off b) = min (buf_off b) (max off (rb_off b))"
  using assms
  by (auto simp: rewound_def sub_checked_def buf_ok_def buf_off_def buf_len_def buf_max_off_def piece_def)

lemma rewound_set:
  fixes x m r :: nat
  assumes "r \<le> x" and "x \<le> m"
  shows "m \<le> hi \<Longrightarrow> {min x (max lo r)..<m} = {x..<m} \<union> ({lo..<hi} \<inter> {r..<m})"
    and "hi < m \<Longrightarrow> r < hi \<Longrightarrow> {min (min x hi) (max lo r)..<hi} \<union> {max x hi..<m} = {x..<m} \<union> ({lo..<hi} \<inter> {r..<m})"
  using assms by (auto simp: min_def max_def split: if_splits)

lemma split_chunk:
  assumes "buf_ok b" and "piece S b" and "at < rb_len b"
  obtains b1 c where "split_off at b = Some (b1, c)"
    "buf_ok b1" "piece S b1" "rb_off b1 = rb_off b" "rb_len b1 = at" "buf_off b1 = min (buf_off b) (rb_off b + at)"
    "buf_ok c" "piece S c" "rb_off c = rb_off b + at" "rb_len c = rb_len b - at"
    "buf_off c = max (buf_off b) (rb_off b + at)" "buf_len b1 + buf_len c = buf_len b"
proof -
  let ?b1 = "b\<lparr>rb_pos := min (rb_pos b) (rb_start b + at), rb_len := at, rb_fin := False\<rparr>"
    and ?c = "\<lparr>rb_data = rb_data b, rb_start = rb_start b + at, rb_pos = max (rb_pos b) (rb_start b + at),
      rb_len = rb_len b - at, rb_off = rb_off b + at, rb_fin = rb_fin b\<rparr>"
  have "piece S ?b1" "piece S ?c"
    using piece_parts [OF assms(2), of at] assms(3) by (simp_all add: piece_def)
  moreover have "buf_off ?b1 = min (buf_off b) (rb_off b + at)" "buf_off ?c = max (buf_off b) (rb_off b + at)"
    "buf_len ?b1 + buf_len ?c = buf_len b" "buf_ok ?b1" "buf_ok ?c"
    using assms(1,3) unfolding buf_ok_def buf_off_def buf_len_def
    by (simp_all add: min_def max_def) arith+
  ultimately show thesis
    using assms(3) by (intro that [of ?b1 ?c]) (simp_all add: split_off_def)
qed

lemma rewind_spec:
  assumes "buf_ok b" and "0 < rb_len b" and "piece S b" and "rb_off b < max_off" and "off \<le> buf_max_off b"
    and "off \<le> max_off"
  obtains g b' new where "rewind off max_off b = Inr (g, b', new)"
    "tiles (rb_off b) (b' # new) (rb_off b + rb_len b)" "list_all (piece S) (b' # new)"
    "pending (b' # new) = {buf_off b..<buf_max_off b} \<union> ({off..<max_off} \<inter> {rb_off b..<rb_off b + rb_len b})"
    "sum_list (map buf_len (b' # new)) = buf_len b + g"
    "new = [] \<or> (\<exists>c. new = [c] \<and> rb_off c = max_off)"
proof -
  note v = buf_views [OF assms(1)]
  have x: "rb_off b \<le> buf_off b" "buf_off b \<le> rb_off b + rb_len b" using v by simp_all
  show thesis
  proof (cases "max_off < buf_max_off b")
    case False
    note r = rewound_chunk [OF assms(1,5)]
    from False have run: "rewind off max_off b = Inr (rb_pos b - rb_pos (rewound off b), rewound off b, [])"
      using r(1) by (simp add: rewind_def Let_def)
    show thesis
      by (rule that [OF run])
         (use r assms(2,3) rewound_set(1) [OF x, of max_off off] False in \<open>simp_all add: v(2)\<close>)
  next
    case True
    let ?at = "max_off - rb_off b"
    have at: "?at < rb_len b" "0 < ?at" "rb_off b + ?at = max_off" using True assms(4) v(2) by auto
    obtain b1 c where split: "split_off ?at b = Some (b1, c)" and b1: "buf_ok b1" "piece S b1" "rb_off b1 = rb_off b"
      "rb_len b1 = ?at" "buf_off b1 = min (buf_off b) max_off" and c: "buf_ok c" "piece S c" "rb_off c = max_off"
      "rb_len c = rb_len b - ?at" "buf_off c = max (buf_off b) max_off" and lens: "buf_len b1 + buf_len c = buf_len b"
      using split_chunk [OF assms(1,3) at(1)] unfolding at(3) by blast
    have ends: "buf_max_off b1 = max_off" "buf_max_off c = rb_off b + rb_len b"
      using buf_views(2) [OF b1(1)] buf_views(2) [OF c(1)] b1(3,4) c(3,4) at by simp_all
    have "off \<le> buf_max_off b1" using assms(6) ends(1) by simp
    note r = rewound_chunk [OF b1(1) this]
    have run: "rewind off max_off b = Inr (rb_pos b1 - rb_pos (rewound off b1), rewound off b1, [c])"
      using r(1) split True assms(4) by (simp add: rewind_def Let_def)
    have pend: "pending [rewound off b1, c] = {buf_off b..<buf_max_off b} \<union> ({off..<max_off} \<inter> {rb_off b..<rb_off b + rb_len b})"
      using rewound_set(2) [OF x, of max_off off] True assms(4) r(7,8) b1(3,5) c(5) ends
      by (simp only: pending_simps v(2) Un_empty_right)
    show thesis
      by (rule that [OF run _ _ pend]) (use r(2-6) b1 c lens at in simp_all)
  qed
qed

text \<open>
  The loop from index \<open>i\<close> on: what it marks to be sent again is the lost range, as far as chunks are
  left from \<open>mid\<close> on.
\<close>

lemma retransmit_loop_spec:
  assumes "queue_of S lo self" and "tiles lo (take i (sd_data self)) mid"
    and "tiles mid (drop i (sd_data self)) (sd_off self)"
    and "length (sd_data self) = i + n \<or> max_off \<le> mid \<and> i < length (sd_data self)" and "off \<le> max_off"
  shows "\<exists>g self'. retransmit_loop n i off max_off gained self = Inr (g, self') \<and> queue_of S lo self'
    \<and> same_but_queue self self'
    \<and> pending (sd_data self') = pending (sd_data self) \<union> ({off..<max_off} \<inter> {mid..<sd_off self})"
  using assms
proof (induction n arbitrary: i gained self mid)
  case 0
  then have "{off..<max_off} \<inter> {mid..<sd_off self} = {}" by auto
  with 0 show ?case by (simp add: same_but_queue_refl del: Int_atLeastLessThan)
next
  case (Suc n)
  let ?d = "sd_data self"
  have i: "i < length ?d" using Suc.prems(4) by auto
  define b xs ys where "b = ?d ! i" and "xs = take i ?d" and "ys = drop (Suc i) ?d"
  have d: "?d = xs @ b # ys" "length xs = i" and at: "slice_at ?d i = Some b"
    using i by (simp_all add: b_def xs_def ys_def id_take_nth_drop slice_at_def)
  have b: "rb_off b = mid" "0 < rb_len b" "buf_ok b" "tiles (mid + rb_len b) ys (sd_off self)" "tiles lo xs mid"
    using Suc.prems(2,3) i by (auto simp: b_def ys_def xs_def simp flip: Cons_nth_drop_Suc)
  have p: "piece S b" "list_all (piece S) xs" "list_all (piece S) ys" "list_all buf_is_empty (take (sd_pos self) ?d)"
    "sd_buffered_bytes self = sum_list (map buf_len xs) + buf_len b + sum_list (map buf_len ys)"
    using Suc.prems(1) by (simp_all add: chunk_queue_def d(1))
  note v = buf_views [OF b(3)]
  have hi: "mid + rb_len b \<le> sd_off self" using b(4) by (rule tiles_le)
  consider (over) "max_off \<le> mid" | (skip) "mid < max_off" "buf_max_off b < off" | (hit) "mid < max_off" "off \<le> buf_max_off b"
    by linarith
  then show ?case
  proof cases
    case over
    then have "{off..<max_off} \<inter> {mid..<sd_off self} = {}" by auto
    with over Suc.prems(1) at b(1) show ?thesis by (simp add: same_but_queue_refl del: Int_atLeastLessThan)
  next
    case skip
    have "tiles lo (take (i + 1) ?d) (mid + rb_len b)" "tiles (mid + rb_len b) (drop (i + 1) ?d) (sd_off self)"
      "length ?d = i + 1 + n"
      using b d(2) skip(1) Suc.prems(4) by (simp_all add: d(1))
    moreover have "{off..<max_off} \<inter> {mid..<sd_off self} = {off..<max_off} \<inter> {mid + rb_len b..<sd_off self}"
      using skip(2) by (auto simp: v b(1))
    ultimately show ?thesis
      using Suc.IH [OF Suc.prems(1), of "i + 1" "mid + rb_len b" gained] Suc.prems(5) skip at b(1) by simp
  next
    case hit
    obtain g b' new where r: "rewind off max_off b = Inr (g, b', new)"
      "tiles (rb_off b) (b' # new) (rb_off b + rb_len b)" "list_all (piece S) (b' # new)"
      "pending (b' # new) = {buf_off b..<buf_max_off b} \<union> ({off..<max_off} \<inter> {rb_off b..<rb_off b + rb_len b})"
      "sum_list (map buf_len (b' # new)) = buf_len b + g" "new = [] \<or> (\<exists>c. new = [c] \<and> rb_off c = max_off)"
      using rewind_spec [OF b(3,2) p(1), of max_off off] hit Suc.prems(5) b(1) by auto
    let ?new = "xs @ b' # new @ ys"
    let ?self = "self\<lparr>sd_pos := min (sd_pos self) i, sd_buffered_bytes := sd_buffered_bytes self + g, sd_data := ?new\<rparr>"
    have run: "retransmit_loop (Suc n) i off max_off gained self = retransmit_loop n (i + 1) off max_off (gained + g) ?self"
      using at hit b(1) r(1) d(2) by (simp add: d(1))
    have "list_all buf_is_empty (take (min (sd_pos self) i) ?new)"
      using p(4) d(2) by (auto simp: d(1) list_all_iff min_def split: if_splits)
    moreover have "tiles lo ?new (sd_off self)" using b(4,5) r(2) b(1) by auto
    ultimately have q: "queue_of S lo ?self"
      using p r(3,5) d(2) by (auto simp: chunk_queue_def)
    let ?mid = "rb_off b' + rb_len b'"
    have mid: "tiles lo (take (i + 1) ?new) ?mid" "tiles ?mid (drop (i + 1) ?new) (sd_off self)"
      using r(2) b d(2) by auto
    have len: "length ?d = i + Suc n" using Suc.prems(4) hit(1) by auto
    have "length ?new = i + 1 + n \<and> ?mid = mid + rb_len b
        \<or> max_off = ?mid \<and> i + 1 < length ?new \<and> max_off < mid + rb_len b"
      using r(2,6) len d(2) b(1) by (auto simp: d(1))
    moreover from this have "{off..<max_off} \<inter> {mid..<sd_off self}
        = ({off..<max_off} \<inter> {mid..<mid + rb_len b}) \<union> ({off..<max_off} \<inter> {?mid..<sd_off self})"
      using hi b(2) by auto
    moreover have "pending ?new = pending ?d \<union> ({off..<max_off} \<inter> {mid..<mid + rb_len b})"
      using r(4) b(1) by (auto simp: d(1))
    moreover have "same_but_queue self ?self" by (rule same_but_queue_upd)
    ultimately show ?thesis
      using Suc.IH [OF q, of "i + 1" ?mid "gained + g"] mid Suc.prems(5) same_but_queue_trans [of self ?self]
      unfolding run by (auto simp: Un_assoc)
  qed
qed

lemma retransmit_spec:
  assumes "send_inv S self" and "off + len \<le> sd_emit_off self"
  obtains n self' where "retransmit off len self = Inr (n, self')" "send_inv S self'" "same_but_queue self self'"
    "pending (sd_data self) \<subseteq> pending (sd_data self')"
    "{off..<off + len} \<subseteq> pending (sd_data self') \<union> members (sd_acked self')"
proof -
  note result = that
  obtain lo where q: "queue_of S lo self" "{..<lo} \<subseteq> members (sd_acked self)"
    and b: "sd_off self \<le> sd_max_data self" "sd_max_data self < 2 ^ 62" "sd_emit_off self \<le> sd_off self"
    "sd_fin_off self = None \<or> sd_fin_off self = Some (sd_off self)"
    and a: "acked_ok (sd_acked self) (sd_emit_off self)" and e: "{sd_emit_off self..<sd_off self} \<subseteq> pending (sd_data self)"
    using assms(1) by (rule send_invE)
  have t: "tiles lo (sd_data self) (sd_off self)" using q(1) by (simp add: chunk_queue_def)
  consider (none) "sd_data self = []" | (old) "off + len \<le> ack_off self"
    | (lost) "sd_data self \<noteq> []" "ack_off self < off + len" by linarith
  then show thesis
  proof cases
    case none
    then have "retransmit off len self = Inr (0, self)" "lo = sd_off self" using t by (simp_all add: retransmit_def Let_def)
    then show thesis
      using assms b(3) q(2) by (intro result [of 0 self]) (auto simp: same_but_queue_refl subset_eq)
  next
    case old
    then have "retransmit off len self = Inr (0, self)" by (simp add: retransmit_def Let_def)
    then show thesis
      using assms(1) old ack_off_spec(1) [OF a] by (intro result [of 0 self]) (auto simp: same_but_queue_refl subset_eq)
  next
    case lost
    obtain g self' where r: "retransmit_loop (length (sd_data self)) 0 off (off + len) 0 self = Inr (g, self')"
      "queue_of S lo self'" "same_but_queue self self'"
      "pending (sd_data self') = pending (sd_data self) \<union> ({off..<off + len} \<inter> {lo..<sd_off self})"
      using retransmit_loop_spec [OF q(1), of 0 lo "length (sd_data self)" "off + len" off 0] t by auto
    have "retransmit off len self = Inr (g, self')" using r(1) lost by (simp add: retransmit_def Let_def)
    moreover have "send_inv S self'"
      unfolding send_inv_def using q(2) r(2,3,4) b a e
      by (intro conjI exI [of _ lo]) (auto simp: same_but_queue_def)
    moreover have "{off..<off + len} \<subseteq> pending (sd_data self') \<union> members (sd_acked self')"
      using r(3,4) q(2) assms(2) b(3) by (auto simp: same_but_queue_def not_le lessThan_def subset_eq)
    ultimately show thesis using r(3,4) by (intro result) auto
  qed
qed

lemma slice_chunks_spec:
  "0 < n \<Longrightarrow> concat (slice_chunks n xs) = xs \<and> list_all (\<lambda>c. c \<noteq> []) (slice_chunks n xs)"
proof (induction n xs rule: slice_chunks.induct)
  case (1 n xs)
  then show ?case by (subst (1 2) slice_chunks.simps) auto
qed

lemma chunk_queue_append:
  assumes "chunk_queue S lo hi data pos buffered" and "buf \<noteq> []" and "buf = map S [hi..<hi + length buf]"
  shows "chunk_queue S lo (hi + length buf) (data @ [range_buf_from buf hi fin]) pos (buffered + length buf)"
    and "pending (data @ [range_buf_from buf hi fin]) = pending data \<union> {hi..<hi + length buf}"
proof -
  let ?b = "range_buf_from buf hi fin"
  have b: "buf_ok ?b" "piece S ?b" "rb_off ?b = hi" "rb_len ?b = length buf" "buf_len ?b = length buf"
    "buf_off ?b = hi" "buf_max_off ?b = hi + length buf"
    using assms(3) by (simp_all add: range_buf_from_def buf_ok_def piece_def buf_len_def buf_off_def buf_max_off_def)
  show "chunk_queue S lo (hi + length buf) (data @ [?b]) pos (buffered + length buf)"
    using assms(1,2) b by (simp add: chunk_queue_def)
  show "pending (data @ [?b]) = pending data \<union> {hi..<hi + length buf}" using b by simp
qed

text \<open>Everything but the queue and the end of the buffered data.\<close>

definition same_but_data :: "send_buf \<Rightarrow> send_buf \<Rightarrow> bool" where
  "same_but_data self self' \<longleftrightarrow>
     sd_emit_off self' = sd_emit_off self \<and> sd_max_data self' = sd_max_data self
     \<and> sd_fin_off self' = sd_fin_off self \<and> sd_shutdown self' = sd_shutdown self
     \<and> sd_acked self' = sd_acked self \<and> sd_error self' = sd_error self"

lemma append_chunks_spec:
  assumes "list_all (\<lambda>c. c \<noteq> []) cs" and "length (concat cs) \<le> reserved"
  shows "\<exists>self'. append_chunks cs (reserved, fin, self) = Inr (reserved - length (concat cs), fin, self')
    \<and> sd_off self' = sd_off self + length (concat cs) \<and> same_but_data self self'
    \<and> (\<forall>S lo. queue_of S lo self \<and> concat cs = map S [sd_off self..<sd_off self + length (concat cs)]
         \<longrightarrow> queue_of S lo self'
           \<and> pending (sd_data self') = pending (sd_data self) \<union> {sd_off self..<sd_off self + length (concat cs)})"
  using assms
proof (induction cs arbitrary: reserved self)
  case Nil
  then show ?case by (simp add: same_but_data_def)
next
  case (Cons c cs)
  let ?self = "self\<lparr>sd_data := sd_data self @ [range_buf_from c (sd_off self) (reserved = length c \<and> fin)],
      sd_off := sd_off self + length c, sd_buffered_bytes := sd_buffered_bytes self + length c\<rparr>"
  have c: "c \<noteq> []" "list_all (\<lambda>c. c \<noteq> []) cs" "length (concat cs) \<le> reserved - length c" "length c \<le> reserved"
    using Cons.prems by simp_all
  obtain self' where self': "append_chunks cs (reserved - length c, fin, ?self)
      = Inr (reserved - length c - length (concat cs), fin, self')"
    "sd_off self' = sd_off ?self + length (concat cs)" "same_but_data ?self self'"
    and q': "\<And>S lo. queue_of S lo ?self \<Longrightarrow> concat cs = map S [sd_off ?self..<sd_off ?self + length (concat cs)]
         \<Longrightarrow> queue_of S lo self'
           \<and> pending (sd_data self') = pending (sd_data ?self) \<union> {sd_off ?self..<sd_off ?self + length (concat cs)}"
    using Cons.IH [OF c(2,3), of ?self] by auto
  have run: "append_chunks (c # cs) (reserved, fin, self) = Inr (reserved - length (concat (c # cs)), fin, self')"
    using self'(1) c(4) by (simp add: reserve_append_def)
  have queue: "queue_of S lo self' \<and> pending (sd_data self')
      = pending (sd_data self) \<union> {sd_off self..<sd_off self + length (concat (c # cs))}"
    if q: "queue_of S lo self" and w: "concat (c # cs) = map S [sd_off self..<sd_off self + length (concat (c # cs))]" for S lo
  proof -
    have split: "map S [sd_off self..<sd_off self + length (concat (c # cs))]
        = map S [sd_off self..<sd_off self + length c] @ map S [sd_off self + length c..<sd_off self + length c + length (concat cs)]"
      using upt_add_eq_append [of "sd_off self" "sd_off self + length c" "length (concat cs)"] by (simp add: add.assoc)
    have "c @ concat cs = map S [sd_off self..<sd_off self + length c]
        @ map S [sd_off self + length c..<sd_off self + length c + length (concat cs)]"
      using w unfolding split by simp
    then have parts: "c = map S [sd_off self..<sd_off self + length c]"
      "concat cs = map S [sd_off self + length c..<sd_off self + length c + length (concat cs)]"
      by (simp_all add: append_eq_append_conv)
    note new = chunk_queue_append [OF q c(1) parts(1), of "reserved = length c \<and> fin"]
    have "{sd_off self..<sd_off self + length c} \<union> {sd_off self + length c..<sd_off self + length c + length (concat cs)}
        = {sd_off self..<sd_off self + length (concat (c # cs))}" by auto
    then show ?thesis
      using q' [of S lo] new(1) parts(2) by (simp add: new(2) Un_assoc del: pending_simps)
  qed
  have "sd_off self' = sd_off self + length (concat (c # cs))" "same_but_data self self'"
    using self'(2,3) by (simp_all add: same_but_data_def)
  with run queue show ?case by blast
qed


text \<open>What a write may queue.\<close>

lemma reserve_spec:
  assumes "send_inv S self"
  obtains (stopped) e where "reserve_for_write len fin self = Inl (Error (StreamStopped e))" "sd_error self = Some e"
  | (final) "reserve_for_write len fin self = Inl (Error FinalSize)" "sd_fin_off self \<noteq> None" "0 < len \<or> \<not> fin"
  | (reserved) n fin' self' where "reserve_for_write len fin self = Inr (n, fin', self')"
      "n = min len (sd_max_data self - sd_off self)" "fin' = (fin \<and> n = len)"
      "self' = self\<lparr>sd_fin_off := (if fin' then Some (sd_off self + n) else sd_fin_off self)\<rparr>"
      "sd_fin_off self = None \<or> n = 0" "sd_error self = None"
proof (cases "sd_error self")
  case (Some e)
  then show thesis by (intro stopped) (simp_all add: reserve_for_write_def send_cap_def Let_def)
next
  case None
  let ?cap = "sd_max_data self - sd_off self"
  obtain lo where b: "sd_off self \<le> sd_max_data self" "sd_emit_off self \<le> sd_off self"
    "sd_fin_off self = None \<or> sd_fin_off self = Some (sd_off self)" and a: "acked_ok (sd_acked self) (sd_emit_off self)"
    using assms by (rule send_invE)
  have cap: "send_cap self = Inr ?cap" using None b(1) by (simp add: send_cap_def sub_checked_def)
  show thesis
  proof (cases "sd_fin_off self \<noteq> None \<and> (0 < len \<or> \<not> fin)")
    case True
    then have "reserve_for_write len fin self = Inl (Error FinalSize)"
      using b(3) cap by (auto simp: reserve_for_write_def Let_def)
    then show thesis using True by (intro final) auto
  next
    case False
    let ?self = "self\<lparr>sd_fin_off := (if fin \<and> len \<le> ?cap then Some (sd_off self + len) else sd_fin_off self)\<rparr>"
    have "ack_off ?self \<le> sd_off self" using ack_off_spec(3) [OF a] b(2) by (simp add: ack_off_def)
    then have "reserve_for_write len fin self = Inr (min len ?cap, fin \<and> len \<le> ?cap, ?self)"
      using False cap b(3) by (auto simp: reserve_for_write_def Let_def min_def not_le ack_off_def)
    then show thesis
      using False b(3) None by (intro reserved [of "min len ?cap" "fin \<and> len \<le> ?cap" ?self]) (auto simp: min_def)
  qed
qed

text \<open>A write of \<open>data\<close> that queued its first \<open>n\<close> bytes.\<close>

definition queued :: "bytes \<Rightarrow> nat \<Rightarrow> bool \<Rightarrow> send_buf \<Rightarrow> send_buf \<Rightarrow> bool" where
  "queued data n fin self self' \<longleftrightarrow>
     n \<le> length data \<and> n = min (length data) (sd_max_data self - sd_off self)
     \<and> sd_off self' = sd_off self + n \<and> sd_acked self' = sd_acked self
     \<and> sd_emit_off self' = sd_emit_off self \<and> sd_error self' = sd_error self
     \<and> sd_max_data self' = sd_max_data self \<and> sd_shutdown self' = sd_shutdown self
     \<and> sd_fin_off self' = (if fin \<and> n = length data then Some (sd_off self + n) else sd_fin_off self)
     \<and> (sd_fin_off self = None \<or> n = 0)
     \<and> (\<forall>S. send_inv S self \<and> take n data = map S [sd_off self..<sd_off self + n] \<longrightarrow>
          send_inv S self' \<and> pending (sd_data self') = pending (sd_data self) \<union> {sd_off self..<sd_off self + n})"

lemma append_reserved:
  assumes "send_inv S0 self" and n: "n = min (length data) (sd_max_data self - sd_off self)"
    and self1: "self1 = self\<lparr>sd_fin_off := (if fin \<and> n = length data then Some (sd_off self + n) else sd_fin_off self)\<rparr>"
    and fin0: "sd_fin_off self = None \<or> n = 0"
    and cs: "list_all (\<lambda>c. c \<noteq> []) cs" "concat cs = take n data"
  shows "\<exists>self'. append_chunks cs (n, fin', self1) = Inr (0, fin', self') \<and> queued data n fin self self'"
proof -
  have len: "length (concat cs) = n" using cs(2) n by simp
  obtain self' where self': "append_chunks cs (n, fin', self1) = Inr (0, fin', self')"
    "sd_off self' = sd_off self1 + n" "same_but_data self1 self'"
    and q: "\<And>S lo. queue_of S lo self1 \<Longrightarrow> take n data = map S [sd_off self1..<sd_off self1 + n] \<Longrightarrow>
        queue_of S lo self' \<and> pending (sd_data self') = pending (sd_data self1) \<union> {sd_off self1..<sd_off self1 + n}"
    using append_chunks_spec [OF cs(1) eq_refl [OF len], of fin' self1, unfolded len, unfolded cs(2) diff_self_eq_0]
    by blast
  have "send_inv S self' \<and> pending (sd_data self') = pending (sd_data self) \<union> {sd_off self..<sd_off self + n}"
    if inv: "send_inv S self" and w: "take n data = map S [sd_off self..<sd_off self + n]" for S
  proof -
    obtain lo where i: "queue_of S lo self" "{..<lo} \<subseteq> members (sd_acked self)"
      "sd_off self \<le> sd_max_data self" "sd_max_data self < 2 ^ 62" "sd_emit_off self \<le> sd_off self"
      "sd_fin_off self = None \<or> sd_fin_off self = Some (sd_off self)"
      "acked_ok (sd_acked self) (sd_emit_off self)" "{sd_emit_off self..<sd_off self} \<subseteq> pending (sd_data self)"
      using inv by (rule send_invE)
    have new: "queue_of S lo self'" "pending (sd_data self') = pending (sd_data self) \<union> {sd_off self..<sd_off self + n}"
      using q [of S lo] i(1) w self1 by simp_all
    moreover have "{sd_emit_off self..<sd_off self + n} \<subseteq> {sd_emit_off self..<sd_off self} \<union> {sd_off self..<sd_off self + n}"
      by auto
    ultimately have "{sd_emit_off self..<sd_off self + n} \<subseteq> pending (sd_data self')" using i(8) by blast
    moreover have "sd_off self + n \<le> sd_max_data self" using i(3) n by simp
    ultimately have "send_inv S self'"
      unfolding send_inv_def using new(1) i(2,4,5,6,7) self'(2,3) fin0 self1
      by (intro conjI exI [of _ lo]) (auto simp: same_but_data_def)
    with new show ?thesis by blast
  qed
  moreover have "n \<le> length data" "sd_off self' = sd_off self + n" "sd_acked self' = sd_acked self"
    "sd_emit_off self' = sd_emit_off self" "sd_error self' = sd_error self" "sd_max_data self' = sd_max_data self"
    "sd_shutdown self' = sd_shutdown self"
    "sd_fin_off self' = (if fin \<and> n = length data then Some (sd_off self + n) else sd_fin_off self)"
    using self'(2,3) n by (simp_all add: self1 same_but_data_def)
  ultimately show ?thesis unfolding queued_def using self'(1) n fin0 by blast
qed

lemma send_write_spec:
  assumes "send_inv S0 self"
  obtains (stopped) e where "send_write data fin self = Inl (Error (StreamStopped e))" "sd_error self = Some e"
  | (final) "send_write data fin self = Inl (Error FinalSize)" "sd_fin_off self \<noteq> None"
  | (written) n self' where "send_write data fin self = Inr (n, self')" "queued data n fin self self'"
proof (rule reserve_spec [OF assms, of "length data" fin])
  fix n fin' self1
  assume r: "reserve_for_write (length data) fin self = Inr (n, fin', self1)"
    "n = min (length data) (sd_max_data self - sd_off self)" "fin' = (fin \<and> n = length data)"
    "self1 = self\<lparr>sd_fin_off := (if fin' then Some (sd_off self + n) else sd_fin_off self)\<rparr>"
    "sd_fin_off self = None \<or> n = 0"
  let ?cs = "slice_chunks SEND_BUFFER_SIZE (take n data)"
  have cs: "concat ?cs = take n data" "list_all (\<lambda>c. c \<noteq> []) ?cs"
    using slice_chunks_spec [of SEND_BUFFER_SIZE "take n data"] by (simp_all add: SEND_BUFFER_SIZE_def)
  obtain self' where self': "append_chunks ?cs (n, fin', self1) = Inr (0, fin', self')" "queued data n fin self self'"
    using append_reserved [OF assms r(2) _ r(5) cs(2,1)] r(3,4) by blast
  show thesis
  proof (cases "n = 0")
    case True
    then have "?cs = []" by (simp add: slice_chunks.simps)
    then show thesis using self' True r(1) by (intro written [of 0 self']) (simp_all add: send_write_def)
  next
    case False
    then show thesis using self' r(1) by (intro written [of n self']) (simp_all add: send_write_def drop_reserve_def)
  qed
qed (use stopped final in \<open>auto simp: send_write_def\<close>)

lemma send_append_buf_spec:
  assumes "send_inv S0 self"
  obtains (stopped) e where "send_append_buf data cap fin self = Inl (Error (StreamStopped e))" "sd_error self = Some e"
  | (final) "send_append_buf data cap fin self = Inl (Error FinalSize)" "sd_fin_off self \<noteq> None"
  | (written) n rest self' where "send_append_buf data cap fin self = Inr (n, rest, self')"
      "queued (take cap data) n fin self self'" "take n data @ (case rest of None \<Rightarrow> [] | Some d \<Rightarrow> d) = data"
proof (rule reserve_spec [OF assms, of "min cap (length data)" fin])
  fix n fin' self1
  let ?data = "take cap data"
  assume r: "reserve_for_write (min cap (length data)) fin self = Inr (n, fin', self1)"
    "n = min (min cap (length data)) (sd_max_data self - sd_off self)" "fin' = (fin \<and> n = min cap (length data))"
    "self1 = self\<lparr>sd_fin_off := (if fin' then Some (sd_off self + n) else sd_fin_off self)\<rparr>"
    "sd_fin_off self = None \<or> n = 0"
  let ?cs = "if n = 0 then [] else [take n ?data]"
  have n: "n = min (length ?data) (sd_max_data self - sd_off self)" "length ?data = min cap (length data)"
    "take n ?data = take n data"
    using r(2) by (simp_all add: min.commute)
  have self1: "self1 = self\<lparr>sd_fin_off := (if fin \<and> n = length ?data then Some (sd_off self + n) else sd_fin_off self)\<rparr>"
    using r(3,4) n(2) by simp
  have cs: "list_all (\<lambda>c. c \<noteq> []) ?cs" "concat ?cs = take n ?data"
    using n(1) by auto
  obtain self' where self': "append_chunks ?cs (n, fin', self1) = Inr (0, fin', self')" "queued ?data n fin self self'"
    using append_reserved [OF assms n(1) self1 r(5) cs, of fin'] by blast
  show thesis
  proof (cases "n = 0")
    case True
    then show thesis using self' r(1) by (intro written [of 0 "Some data" self']) (simp_all add: send_append_buf_def)
  next
    case False
    have app: "append_chunks [take n data] (n, fin', self1) = Inr (0, fin', self')"
      using self'(1) False n(3) by simp
    then have "send_append_buf data cap fin self
        = Inr (n, if n < length data then Some (drop n data) else None, self')"
      using r(1) False by (auto simp: send_append_buf_def drop_reserve_def Let_def)
    then show thesis using self'(2) by (rule written) simp
  qed
qed (use stopped final in \<open>auto simp: send_append_buf_def\<close>)

lemma send_reset_spec:
  assumes "send_inv S self"
  obtains self' where "send_reset self = Inr ((sd_emit_off self, sd_off self - sd_emit_off self), self')"
    "send_inv S self'" "sd_off self' = sd_emit_off self" "sd_emit_off self' = sd_emit_off self"
    "sd_fin_off self' = Some (sd_emit_off self)" "sd_data self' = []" "members (sd_acked self') = {..<sd_emit_off self}"
proof -
  let ?e = "sd_emit_off self"
  obtain lo where b: "sd_off self \<le> sd_max_data self" "sd_max_data self < 2 ^ 62" "?e \<le> sd_off self"
    and a: "acked_ok (sd_acked self) ?e"
    using assms by (rule send_invE)
  have m: "max (off_front self) ?e = ?e" using off_front_spec(1) [OF assms] by simp
  obtain acked where ack: "range_set_insert 0 ?e (sd_acked self) = Some acked" "acked_ok acked ?e"
    "members acked = members (sd_acked self) \<union> {0..<?e}"
    using acked_insert [OF a, of 0 ?e] b by auto
  have all_acked: "members acked = {..<?e}"
    using ack(3) acked_members [OF a] by (auto simp: atLeast0LessThan)
  let ?self = "self\<lparr>sd_fin_off := Some ?e, sd_data := [], sd_off := ?e, sd_acked := acked, sd_pos := 0, sd_buffered_bytes := 0\<rparr>"
  have "send_inv S ?self"
    using b ack(2) all_acked by (simp add: send_inv_def chunk_queue_def)
  then show thesis
    by (intro that [of ?self]) (simp_all add: send_reset_def send_ack_def Let_def m ack(1) all_acked)
qed

lemma send_inv_upd:
  "send_inv S (self\<lparr>sd_error := e\<rparr>) = send_inv S self"
  "send_inv S (self\<lparr>sd_shutdown := d\<rparr>) = send_inv S self"
  by (simp_all add: send_inv_def)

lemma send_inv_raise: "send_inv S self \<Longrightarrow> max_data < 2 ^ 62 \<Longrightarrow> send_inv S (send_update_max_data max_data self)"
  by (auto simp: send_inv_def send_update_max_data_def)

text \<open>Only the bytes below the end of the buffered data matter.\<close>

lemma send_inv_cong:
  assumes "send_inv S self" and "\<And>n. n < sd_off self \<Longrightarrow> S n = S' n"
  shows "send_inv S' self"
proof -
  have piece: "list_all (piece S') bs" if "list_all (piece S) bs" "tiles lo bs (sd_off self)" for lo bs
    using that
  proof (induction bs arbitrary: lo)
    case (Cons b bs)
    then have "lo + rb_len b \<le> sd_off self" by (auto dest: tiles_le)
    then have "map S [rb_off b..<rb_off b + rb_len b] = map S' [rb_off b..<rb_off b + rb_len b]"
      using Cons.prems(2) assms(2) by auto
    then show ?case using Cons by (auto simp: piece_def)
  qed simp
  show ?thesis using assms(1) piece unfolding send_inv_def chunk_queue_def by blast
qed

subsection \<open>A sender and the frames it has sent\<close>

datatype fate = InFlight | Acked | Lost

record stream_frame =
  sf_off :: nat
  sf_data :: bytes
  sf_fin :: bool

record source =
  sn_buf :: send_buf
  sn_written :: bytes
  sn_frames :: "(stream_frame \<times> fate) list"

datatype source_event =
    Write bytes bool
  | Append bytes nat bool
  | Transmit nat
  | Acknowledge nat
  | Lose nat
  | Grant nat
  | Stop nat
  | Shutdown

text \<open>
  What the connection does with a send buffer.  An operation that fails with an error leaves the
  stream as it is; \<open>None\<close> is a panic.  Acknowledgements and losses refer to frames sent before;
  an acknowledgement may come after the frame was declared lost.
\<close>

definition attempt :: "'a quic_result \<Rightarrow> 'b \<Rightarrow> ('a \<Rightarrow> 'b) \<Rightarrow> 'b option" where
  "attempt r failed f =
     (case r of Inr x \<Rightarrow> Some (f x) | Inl (Error _) \<Rightarrow> Some failed | Inl Panic \<Rightarrow> None)"

fun source_do :: "source_event \<Rightarrow> source \<Rightarrow> source option" where
  "source_do (Write data fin) s =
     attempt (send_write data fin (sn_buf s)) s (\<lambda>(n, b).
       s\<lparr>sn_buf := b, sn_written := sn_written s @ take n data\<rparr>)"
| "source_do (Append data cap fin) s =
     attempt (send_append_buf data cap fin (sn_buf s)) s (\<lambda>(n, _, b).
       s\<lparr>sn_buf := b, sn_written := sn_written s @ take n data\<rparr>)"
| "source_do (Transmit room) s =
     attempt (send_emit (replicate room 0) (sn_buf s)) s (\<lambda>(n, fin, out, b).
       s\<lparr>sn_buf := b,
         sn_frames := sn_frames s
           @ [(\<lparr>sf_off = off_front (sn_buf s), sf_data = take n out, sf_fin = fin\<rparr>, InFlight)]\<rparr>)"
| "source_do (Acknowledge i) s =
     (case slice_at (sn_frames s) i of
        None \<Rightarrow> Some s
      | Some (f, _) \<Rightarrow>
          attempt (ack_and_drop (sf_off f) (length (sf_data f)) (sn_buf s)) s (\<lambda>(_, b).
            s\<lparr>sn_buf := b, sn_frames := (sn_frames s)[i := (f, Acked)]\<rparr>))"
| "source_do (Lose i) s =
     (case slice_at (sn_frames s) i of
        Some (f, InFlight) \<Rightarrow>
          attempt (retransmit (sf_off f) (length (sf_data f)) (sn_buf s)) s (\<lambda>(_, b).
            s\<lparr>sn_buf := b, sn_frames := (sn_frames s)[i := (f, Lost)]\<rparr>)
      | _ \<Rightarrow> Some s)"
| "source_do (Grant max_data) s = Some (s\<lparr>sn_buf := send_update_max_data max_data (sn_buf s)\<rparr>)"
| "source_do (Stop e) s =
     attempt (send_stop e (sn_buf s)) s (\<lambda>((final_size, _), b).
       s\<lparr>sn_buf := b, sn_written := take final_size (sn_written s)\<rparr>)"
| "source_do Shutdown s =
     attempt (send_shutdown (sn_buf s)) s (\<lambda>((final_size, _), b).
       s\<lparr>sn_buf := b, sn_written := take final_size (sn_written s)\<rparr>)"

fun source_run :: "source_event list \<Rightarrow> source \<Rightarrow> source option" where
  "source_run [] s = Some s"
| "source_run (e # es) s = Option.bind (source_do e s) (source_run es)"

definition source_new :: "nat \<Rightarrow> source" where
  "source_new max_data = \<lparr>sn_buf = send_buf_new max_data, sn_written = [], sn_frames = []\<rparr>"

text \<open>The limits a peer announces are variable-length integers.\<close>

fun grant_ok :: "source_event \<Rightarrow> bool" where
  "grant_ok (Grant max_data) \<longleftrightarrow> max_data < 2 ^ 62"
| "grant_ok _ \<longleftrightarrow> True"

definition stream_of :: "bytes \<Rightarrow> nat \<Rightarrow> u8" where
  "stream_of w n = (if n < length w then w ! n else 0)"

definition in_flight :: "source \<Rightarrow> nat set" where
  "in_flight s = (\<Union>(f, st) \<in> set (sn_frames s).
     if st = InFlight then {sf_off f..<sf_off f + length (sf_data f)} else {})"

definition frame_true :: "source \<Rightarrow> stream_frame \<Rightarrow> bool" where
  "frame_true s f \<longleftrightarrow>
     sf_off f + length (sf_data f) \<le> sd_emit_off (sn_buf s)
     \<and> sf_data f = map (stream_of (sn_written s)) [sf_off f..<sf_off f + length (sf_data f)]
     \<and> (sf_fin f \<longrightarrow> sd_fin_off (sn_buf s) = Some (sf_off f + length (sf_data f)))"

definition source_inv :: "source \<Rightarrow> bool" where
  "source_inv s \<longleftrightarrow>
     send_inv (stream_of (sn_written s)) (sn_buf s) \<and> sd_off (sn_buf s) = length (sn_written s)
     \<and> (\<forall>(f, st) \<in> set (sn_frames s). frame_true s f)
     \<and> {..<sd_off (sn_buf s)} \<subseteq> members (sd_acked (sn_buf s)) \<union> pending (sd_data (sn_buf s)) \<union> in_flight s"

lemma stream_of_append: "n < length w \<Longrightarrow> stream_of (w @ d) n = stream_of w n"
  by (simp add: stream_of_def nth_append)

lemma stream_of_take: "n < k \<Longrightarrow> k \<le> length w \<Longrightarrow> stream_of (take k w) n = stream_of w n"
  by (simp add: stream_of_def)

lemma map_stream_of: "map (stream_of (w @ d)) [length w..<length w + length d] = d"
  by (rule nth_equalityI) (simp_all add: stream_of_def nth_append)

lemma frame_true_keep:
  assumes "frame_true s f" and "sd_emit_off (sn_buf s) \<le> sd_emit_off (sn_buf s')"
    and "\<And>n. n < sd_emit_off (sn_buf s) \<Longrightarrow> stream_of (sn_written s') n = stream_of (sn_written s) n"
    and "\<And>x. sf_fin f \<Longrightarrow> sd_fin_off (sn_buf s) = Some x \<Longrightarrow> x \<le> sd_emit_off (sn_buf s) \<Longrightarrow> sd_fin_off (sn_buf s') = Some x"
  shows "frame_true s' f"
proof -
  have "map (stream_of (sn_written s)) [sf_off f..<sf_off f + length (sf_data f)]
      = map (stream_of (sn_written s')) [sf_off f..<sf_off f + length (sf_data f)]"
    by (intro map_cong refl, rule assms(3) [symmetric]) (use assms(1) in \<open>simp add: frame_true_def\<close>)
  then show ?thesis using assms unfolding frame_true_def by (metis order_trans)
qed

lemma in_flight_simps:
  "in_flight (s\<lparr>sn_buf := b\<rparr>) = in_flight s" "in_flight (s\<lparr>sn_buf := b, sn_written := w\<rparr>) = in_flight s"
  by (simp_all add: in_flight_def)

lemma source_written:
  assumes inv: "source_inv s" and q: "queued data n fin (sn_buf s) b"
  shows "source_inv (s\<lparr>sn_buf := b, sn_written := sn_written s @ take n data\<rparr>)"
proof -
  let ?b = "sn_buf s" and ?w = "sn_written s @ take n data"
  let ?s = "s\<lparr>sn_buf := b, sn_written := ?w\<rparr>"
  have i: "send_inv (stream_of (sn_written s)) ?b" "sd_off ?b = length (sn_written s)"
    "\<forall>(f, st) \<in> set (sn_frames s). frame_true s f"
    "{..<sd_off ?b} \<subseteq> members (sd_acked ?b) \<union> pending (sd_data ?b) \<union> in_flight s"
    using inv unfolding source_inv_def by blast+
  have n: "n \<le> length data" and same: "sd_off b = sd_off ?b + n" "sd_emit_off b = sd_emit_off ?b" "sd_acked b = sd_acked ?b"
    "sd_fin_off b = (if fin \<and> n = length data then Some (sd_off ?b + n) else sd_fin_off ?b)" "sd_fin_off ?b = None \<or> n = 0"
    by - (insert q, unfold queued_def, elim conjE, assumption)+
  have "send_inv (stream_of ?w) ?b"
    using send_inv_cong [OF i(1)] by (simp add: i(2) stream_of_append)
  moreover have "take n data = map (stream_of ?w) [sd_off ?b..<sd_off ?b + n]"
    using map_stream_of [of "sn_written s" "take n data"] n by (simp add: i(2))
  ultimately have new: "send_inv (stream_of ?w) b"
    "pending (sd_data b) = pending (sd_data ?b) \<union> {sd_off ?b..<sd_off ?b + n}"
    using q unfolding queued_def by blast+
  have e: "sd_emit_off ?b \<le> length (sn_written s)" "sd_fin_off ?b = None \<or> sd_fin_off ?b = Some (sd_off ?b)"
    using i(1,2) by (auto simp: send_inv_def)
  have "frame_true ?s f" if "frame_true s f" for f
    by (rule frame_true_keep [OF that]) (use same e in \<open>auto simp: stream_of_append split: if_splits\<close>)
  moreover have "{..<sd_off b} \<subseteq> members (sd_acked b) \<union> pending (sd_data b) \<union> in_flight ?s"
    unfolding same(1,3) new(2) in_flight_simps using i(4) by (auto simp: subset_eq)
  ultimately show ?thesis
    using i(2,3) new(1) same(1) n by (fastforce simp: source_inv_def)
qed


lemma source_transmitted:
  assumes inv: "source_inv s"
  shows "\<exists>s'. source_do (Transmit room) s = Some s' \<and> source_inv s'"
proof -
  let ?b = "sn_buf s" and ?S = "stream_of (sn_written s)"
  have i: "send_inv ?S ?b" "sd_off ?b = length (sn_written s)"
    "\<forall>(f, st) \<in> set (sn_frames s). frame_true s f"
    "{..<sd_off ?b} \<subseteq> members (sd_acked ?b) \<union> pending (sd_data ?b) \<union> in_flight s"
    using inv unfolding source_inv_def by blast+
  obtain k out b where r: "send_emit (replicate room 0) ?b = Inr (k, sd_fin_off ?b = Some (off_front ?b + k), out, b)"
    "take k out = map ?S [off_front ?b..<off_front ?b + k]" "send_inv ?S b" "sd_off b = sd_off ?b"
    "sd_acked b = sd_acked ?b" "sd_fin_off b = sd_fin_off ?b" "sd_emit_off b = max (sd_emit_off ?b) (off_front ?b + k)"
    "pending (sd_data b) = pending (sd_data ?b) - {off_front ?b..<off_front ?b + k}"
    using send_emit_spec [OF i(1), of "replicate room 0"] by metis
  let ?f = "\<lparr>sf_off = off_front ?b, sf_data = take k out, sf_fin = (sd_fin_off ?b = Some (off_front ?b + k))\<rparr>"
  let ?s = "s\<lparr>sn_buf := b, sn_frames := sn_frames s @ [(?f, InFlight)]\<rparr>"
  have len: "length (take k out) = k" unfolding r(2) by simp
  have "frame_true ?s ?f" using r(2,6,7) len by (simp add: frame_true_def)
  moreover have "frame_true ?s f" if "frame_true s f" for f
    by (rule frame_true_keep [OF that]) (use r(6,7) in auto)
  moreover have "in_flight ?s = in_flight s \<union> {off_front ?b..<off_front ?b + k}"
    using len by (auto simp: in_flight_def)
  then have "{..<sd_off b} \<subseteq> members (sd_acked b) \<union> pending (sd_data b) \<union> in_flight ?s"
    using i(4) unfolding r(4,5,8) by blast
  ultimately have "source_inv ?s"
    using i(2,3) r(3,4) by (auto simp: source_inv_def)
  then show ?thesis by (simp add: r(1) attempt_def)
qed

text \<open>The fate of a frame changes: its bytes must be accounted for by the buffer.\<close>

lemma source_fate:
  assumes inv: "source_inv s" and i: "slice_at (sn_frames s) i = Some (f, st)" and st': "st' \<noteq> InFlight"
    and b: "send_inv (stream_of (sn_written s)) b" "sd_off b = sd_off (sn_buf s)"
      "sd_emit_off b = sd_emit_off (sn_buf s)" "sd_fin_off b = sd_fin_off (sn_buf s)"
    and acc: "members (sd_acked (sn_buf s)) \<union> pending (sd_data (sn_buf s)) \<union> {sf_off f..<sf_off f + length (sf_data f)}
      \<subseteq> members (sd_acked b) \<union> pending (sd_data b)"
  shows "source_inv (s\<lparr>sn_buf := b, sn_frames := (sn_frames s)[i := (f, st')]\<rparr>)"
proof -
  let ?s = "s\<lparr>sn_buf := b, sn_frames := (sn_frames s)[i := (f, st')]\<rparr>"
  have f: "(f, st) \<in> set (sn_frames s)" "i < length (sn_frames s)" "sn_frames s ! i = (f, st)"
    using i by (auto simp: slice_at_Some_iff in_set_conv_nth)
  have s: "sd_off (sn_buf s) = length (sn_written s)" "\<forall>(f, st) \<in> set (sn_frames s). frame_true s f"
    "{..<sd_off (sn_buf s)} \<subseteq> members (sd_acked (sn_buf s)) \<union> pending (sd_data (sn_buf s)) \<union> in_flight s"
    using inv unfolding source_inv_def by blast+
  have "frame_true ?s g" if "frame_true s g" for g
    by (rule frame_true_keep [OF that]) (use b in auto)
  then have "\<forall>(g, st) \<in> set (sn_frames ?s). frame_true ?s g"
    using s(2) f(1) set_update_subset_insert [of "sn_frames s" i "(f, st')"] by fastforce
  moreover have "in_flight s \<subseteq> in_flight ?s \<union> {sf_off f..<sf_off f + length (sf_data f)}"
  proof
    fix x assume "x \<in> in_flight s"
    then obtain g j where g: "j < length (sn_frames s)" "sn_frames s ! j = (g, InFlight)"
      "x \<in> {sf_off g..<sf_off g + length (sf_data g)}"
      by (auto simp: in_flight_def in_set_conv_nth split: if_splits)
    show "x \<in> in_flight ?s \<union> {sf_off f..<sf_off f + length (sf_data f)}"
    proof (cases "j = i")
      case False
      then have "(g, InFlight) \<in> set (sn_frames ?s)" using g by (auto simp: in_set_conv_nth intro!: exI [of _ j])
      then show ?thesis using g(3) by (force simp: in_flight_def)
    qed (use g f in auto)
  qed
  then have "{..<sd_off b} \<subseteq> members (sd_acked b) \<union> pending (sd_data b) \<union> in_flight ?s"
    using s(3) acc unfolding b(2) by blast
  ultimately show ?thesis
    using b(1,2) s(1) by (simp add: source_inv_def)
qed


lemma source_reset:
  assumes inv: "source_inv s" and "\<And>S. send_inv S (sn_buf s) \<Longrightarrow> send_inv S b0"
    and same: "sd_off b0 = sd_off (sn_buf s)" "sd_emit_off b0 = sd_emit_off (sn_buf s)"
  obtains b where "send_reset b0 = Inr ((sd_emit_off (sn_buf s), sd_off (sn_buf s) - sd_emit_off (sn_buf s)), b)"
    "\<And>e. source_inv (s\<lparr>sn_buf := b\<lparr>sd_error := e\<rparr>, sn_written := take (sd_emit_off (sn_buf s)) (sn_written s)\<rparr>)"
    "source_inv (s\<lparr>sn_buf := b, sn_written := take (sd_emit_off (sn_buf s)) (sn_written s)\<rparr>)"
proof -
  let ?e = "sd_emit_off (sn_buf s)" and ?S = "stream_of (sn_written s)"
  have i: "send_inv ?S (sn_buf s)" "sd_off (sn_buf s) = length (sn_written s)"
    "\<forall>(f, st) \<in> set (sn_frames s). frame_true s f"
    using inv unfolding source_inv_def by blast+
  have e: "?e \<le> length (sn_written s)" "sd_fin_off (sn_buf s) = None \<or> sd_fin_off (sn_buf s) = Some (length (sn_written s))"
    using i(1,2) by (auto simp: send_inv_def)
  obtain b where b: "send_reset b0 = Inr ((?e, sd_off (sn_buf s) - ?e), b)" "send_inv ?S b" "sd_off b = ?e"
    "sd_emit_off b = ?e" "sd_fin_off b = Some ?e" "members (sd_acked b) = {..<?e}"
    using send_reset_spec [OF assms(2) [OF i(1)]] same by metis
  have "send_inv (stream_of (take ?e (sn_written s))) b"
    using send_inv_cong [OF b(2)] b(3) e(1) by (simp add: stream_of_take)
  moreover have "frame_true (s\<lparr>sn_buf := b\<lparr>sd_error := x\<rparr>, sn_written := take ?e (sn_written s)\<rparr>) f"
    "frame_true (s\<lparr>sn_buf := b, sn_written := take ?e (sn_written s)\<rparr>) f" if "frame_true s f" for f x
    by (rule frame_true_keep [OF that]; use b(4,5) e in \<open>auto simp: stream_of_take\<close>)+
  ultimately show thesis
    using b e(1) i(3)
    by (intro that [of b]) (auto simp: source_inv_def send_inv_upd in_flight_simps min_absorb2)
qed

lemma source_do_inv:
  assumes inv: "source_inv s" and "grant_ok ev"
  shows "\<exists>s'. source_do ev s = Some s' \<and> source_inv s'"
proof -
  let ?b = "sn_buf s" and ?S = "stream_of (sn_written s)"
  have b: "send_inv ?S ?b" and frames: "\<And>f st. (f, st) \<in> set (sn_frames s) \<Longrightarrow> frame_true s f"
    using inv unfolding source_inv_def by blast+
  have sent: "sf_off f + length (sf_data f) \<le> sd_emit_off ?b" if "slice_at (sn_frames s) i = Some (f, st)" for i f st
    using frames [of f st] that by (auto simp: slice_at_Some_iff in_set_conv_nth frame_true_def)
  show ?thesis
  proof (cases ev)
    case (Write data fin)
    from b show ?thesis
      by (cases rule: send_write_spec [where data = data and fin = fin])
         (auto simp: Write attempt_def inv intro: source_written)
  next
    case (Append data cap fin)
    show ?thesis
    proof (rule send_append_buf_spec [OF b, of data cap fin])
      fix n rest b'
      assume r: "send_append_buf data cap fin ?b = Inr (n, rest, b')" "queued (take cap data) n fin ?b b'"
      then have "take n (take cap data) = take n data" by (simp add: queued_def min_def)
      then show ?thesis using source_written [OF inv r(2)] r(1) by (simp add: Append attempt_def)
    qed (auto simp: Append attempt_def inv)
  next
    case (Transmit room)
    then show ?thesis using source_transmitted [OF inv] by simp
  next
    case (Acknowledge i)
    show ?thesis
    proof (cases "slice_at (sn_frames s) i")
      case (Some x)
      then obtain f st where f: "slice_at (sn_frames s) i = Some (f, st)" by (cases x) auto
      obtain n b' where r: "ack_and_drop (sf_off f) (length (sf_data f)) ?b = Inr (n, b')" "send_inv ?S b'"
        "sd_off b' = sd_off ?b" "sd_emit_off b' = sd_emit_off ?b" "sd_fin_off b' = sd_fin_off ?b"
        "members (sd_acked b') = members (sd_acked ?b) \<union> {sf_off f..<sf_off f + length (sf_data f)}"
        "pending (sd_data ?b) - pending (sd_data b') \<subseteq> members (sd_acked b')"
        using ack_and_drop_spec [OF b sent [OF f]] by metis
      have "members (sd_acked ?b) \<union> pending (sd_data ?b) \<union> {sf_off f..<sf_off f + length (sf_data f)}
          \<subseteq> members (sd_acked b') \<union> pending (sd_data b')" using r(6,7) by blast
      from source_fate [OF inv f _ r(2-5) this, of Acked] show ?thesis by (simp add: Acknowledge f r(1) attempt_def)
    qed (simp add: Acknowledge inv)
  next
    case (Lose i)
    show ?thesis
    proof (cases "\<exists>f. slice_at (sn_frames s) i = Some (f, InFlight)")
      case True
      then obtain f where f: "slice_at (sn_frames s) i = Some (f, InFlight)" by blast
      obtain n b' where r: "retransmit (sf_off f) (length (sf_data f)) ?b = Inr (n, b')" "send_inv ?S b'"
        "same_but_queue ?b b'" "pending (sd_data ?b) \<subseteq> pending (sd_data b')"
        "{sf_off f..<sf_off f + length (sf_data f)} \<subseteq> pending (sd_data b') \<union> members (sd_acked b')"
        using retransmit_spec [OF b sent [OF f]] by metis
      have same: "sd_off b' = sd_off ?b" "sd_emit_off b' = sd_emit_off ?b" "sd_fin_off b' = sd_fin_off ?b"
        "sd_acked b' = sd_acked ?b" using r(3) by (simp_all add: same_but_queue_def)
      have "members (sd_acked ?b) \<union> pending (sd_data ?b) \<union> {sf_off f..<sf_off f + length (sf_data f)}
          \<subseteq> members (sd_acked b') \<union> pending (sd_data b')" using r(4,5) same(4) by auto
      from source_fate [OF inv f _ r(2) same(1-3) this, of Lost] show ?thesis by (simp add: Lose f r(1) attempt_def)
    qed (auto simp: Lose inv split: option.split fate.split)
  next
    case (Grant n)
    then show ?thesis
      using inv assms(2) send_inv_raise [OF b, of n] by (auto simp: source_inv_def send_update_max_data_def frame_true_def in_flight_def)
  next
    case (Stop e)
    then show ?thesis
      by (rule_tac source_reset [OF inv, of ?b]) (auto simp: attempt_def send_stop_def inv)
  next
    case Shutdown
    then show ?thesis
      by (rule_tac source_reset [OF inv, of "?b\<lparr>sd_shutdown := True\<rparr>"])
         (auto simp: attempt_def send_shutdown_def inv send_inv_upd)
  qed
qed

lemma source_run_inv:
  assumes "source_inv s" and "list_all grant_ok events"
  shows "\<exists>s'. source_run events s = Some s' \<and> source_inv s'"
  using assms
proof (induction events arbitrary: s)
  case (Cons ev events)
  then show ?case using source_do_inv [of s ev] by fastforce
qed simp

lemma source_inv_new: "max_data < 2 ^ 62 \<Longrightarrow> source_inv (source_new max_data)"
  using send_inv_new [of max_data] by (simp add: source_inv_def source_new_def, simp add: send_buf_new_def)

lemma map_stream_of_slice: "a + n \<le> length w \<Longrightarrow> map (stream_of w) [a..<a + n] = take n (drop a w)"
  by (rule nth_equalityI) (simp_all add: stream_of_def)

lemma acked_exactly:
  assumes "acked_ok rs n" and "0 < n"
  shows "range_set_eq_range rs (0, n) \<longleftrightarrow> members rs = {..<n}"
proof
  assume "range_set_eq_range rs (0, n)"
  then show "members rs = {..<n}"
    by (cases "range_set_iter rs") (auto simp: range_set_eq_range_def range_set_len_def split: if_splits)
next
  assume all: "members rs = {..<n}"
  have sep: "ranges_sep (range_set_iter rs)" "\<forall>r \<in> set (range_set_iter rs). snd r \<le> n"
    using assms(1) by (simp_all add: acked_ok_def range_set_sep_def)
  obtain s e rest where rs: "range_set_iter rs = (s, e) # rest"
    using all assms(2) by (cases "range_set_iter rs") auto
  have above: "\<forall>x \<in> covered rest. e < x" using sep(1) by (force simp: rs covered_def)
  have "0 \<in> members rs" "e \<notin> members rs" using all assms(2) above by (auto simp: rs)
  then have "s = 0" "n \<le> e" using above all by (auto simp: rs)
  moreover have "rest = []"
  proof (rule ccontr)
    assume "rest \<noteq> []"
    then obtain r where "r \<in> set rest" by (cases rest) auto
    then have "e < fst r" "fst r \<le> snd r" "snd r \<le> n" using sep by (auto simp: rs ranges_sep_def)
    with \<open>n \<le> e\<close> show False by simp
  qed
  ultimately show "range_set_eq_range rs (0, n)"
    using sep(2) by (simp add: range_set_eq_range_def range_set_len_def rs)
qed

subsection \<open>Properties\<close>

text \<open>
  C2: No byte of a stream is ever forgotten.  Whatever the application writes, however little room
  there is when frames are built, and in whatever order frames are acknowledged, declared lost, or
  acknowledged after they were declared lost, nothing panics; every byte accepted from the
  application is acknowledged, in flight, or waiting to be sent; every frame carries the bytes of
  the stream at its offset and marks the end only at the end; and when nothing is in flight while a
  byte is unacknowledged, the stream has something to send.
\<close>

theorem no_stream_byte_is_lost:
  assumes "max_data < 2 ^ 62" and "list_all grant_ok events"
  shows "\<exists>s. source_run events (source_new max_data) = Some s
    \<and> {..<length (sn_written s)}
        \<subseteq> members (sd_acked (sn_buf s)) \<union> pending (sd_data (sn_buf s)) \<union> in_flight s
    \<and> (\<forall>(f, st) \<in> set (sn_frames s).
         sf_data f = take (length (sf_data f)) (drop (sf_off f) (sn_written s))
         \<and> (sf_fin f \<longrightarrow> sf_off f + length (sf_data f) = length (sn_written s)))
    \<and> (in_flight s = {} \<and> members (sd_acked (sn_buf s)) \<noteq> {..<length (sn_written s)} \<longrightarrow>
         is_flushable (sn_buf s))"
proof -
  obtain s where run: "source_run events (source_new max_data) = Some s" and inv: "source_inv s"
    using source_run_inv [OF source_inv_new [OF assms(1)] assms(2)] by blast
  let ?b = "sn_buf s"
  have i: "send_inv (stream_of (sn_written s)) ?b" "sd_off ?b = length (sn_written s)"
    "\<forall>(f, st) \<in> set (sn_frames s). frame_true s f"
    "{..<length (sn_written s)} \<subseteq> members (sd_acked ?b) \<union> pending (sd_data ?b) \<union> in_flight s"
    using inv unfolding source_inv_def by auto
  obtain lo where b: "sd_off ?b \<le> sd_max_data ?b" "sd_emit_off ?b \<le> sd_off ?b"
    "sd_fin_off ?b = None \<or> sd_fin_off ?b = Some (sd_off ?b)" "acked_ok (sd_acked ?b) (sd_emit_off ?b)"
    using i(1) by (rule send_invE)
  have frames: "sf_data f = take (length (sf_data f)) (drop (sf_off f) (sn_written s))
      \<and> (sf_fin f \<longrightarrow> sf_off f + length (sf_data f) = length (sn_written s))" if "frame_true s f" for f
  proof -
    have le: "sf_off f + length (sf_data f) \<le> length (sn_written s)"
      using that b(2) i(2) by (simp add: frame_true_def)
    have "sf_data f = map (stream_of (sn_written s)) [sf_off f..<sf_off f + length (sf_data f)]"
      using that unfolding frame_true_def by blast
    also have "\<dots> = take (length (sf_data f)) (drop (sf_off f) (sn_written s))"
      by (rule map_stream_of_slice [OF le])
    finally have "sf_data f = take (length (sf_data f)) (drop (sf_off f) (sn_written s))" .
    moreover have "sf_fin f \<longrightarrow> sd_fin_off ?b = Some (sf_off f + length (sf_data f))"
      using that unfolding frame_true_def by blast
    then have "sf_fin f \<longrightarrow> sf_off f + length (sf_data f) = length (sn_written s)" using b(3) i(2) by auto
    ultimately show ?thesis by (rule conjI)
  qed
  have flush: "is_flushable ?b" if "in_flight s = {}" "members (sd_acked ?b) \<noteq> {..<length (sn_written s)}"
  proof -
    have "members (sd_acked ?b) \<subseteq> {..<length (sn_written s)}" using acked_members [OF b(4)] b(2) i(2) by force
    then have "pending (sd_data ?b) \<noteq> {}" using that i(4) by blast
    then have "off_front ?b \<in> pending (sd_data ?b)" "sd_data ?b \<noteq> []" using off_front_spec(3) [OF i(1)] by auto
    then have "off_front ?b < sd_off ?b" using off_front_spec(4) [OF i(1)] by auto
    then show ?thesis using \<open>sd_data ?b \<noteq> []\<close> b(1) by (simp add: is_flushable_def)
  qed
  have "\<forall>(f, st) \<in> set (sn_frames s). sf_data f = take (length (sf_data f)) (drop (sf_off f) (sn_written s))
      \<and> (sf_fin f \<longrightarrow> sf_off f + length (sf_data f) = length (sn_written s))"
    using i(3) frames by blast
  with run i(4) flush show ?thesis by blast
qed

definition lossy_events :: "source_event list" where
  "lossy_events =
     [Write [1, 2, 3, 4, 5, 6, 7] False, Transmit 3, Transmit 2, Append [8, 9, 10] 2 True, Lose 0, Acknowledge 1,
      Transmit 4, Acknowledge 0, Lose 2, Transmit 9, Transmit 9, Grant 50, Write [11] True]"

theorem no_stream_byte_is_lost_witness:
  "\<exists>s. source_run lossy_events (source_new 30) = Some s \<and> sn_written s = [1, 2, 3, 4, 5, 6, 7, 8, 9]
     \<and> {..<9} \<subseteq> members (sd_acked (sn_buf s)) \<union> pending (sd_data (sn_buf s)) \<union> in_flight s"
proof -
  have "list_all grant_ok lossy_events" by (simp add: lossy_events_def)
  then obtain s where s: "source_run lossy_events (source_new 30) = Some s"
    "{..<length (sn_written s)} \<subseteq> members (sd_acked (sn_buf s)) \<union> pending (sd_data (sn_buf s)) \<union> in_flight s"
    using no_stream_byte_is_lost [of 30 lossy_events] by auto
  have "map_option sn_written (source_run lossy_events (source_new 30)) = Some [1, 2, 3, 4, 5, 6, 7, 8, 9]" by code_simp
  then have w: "sn_written s = [1, 2, 3, 4, 5, 6, 7, 8, 9]" using s(1) by simp
  then have "length (sn_written s) = 9" by simp
  from s(2) [unfolded this] show ?thesis using s(1) w by blast
qed

lemma acked_within_zero:
  assumes "acked_ok rs 0"
  shows "range_set_iter rs = [] \<or> range_set_iter rs = [(0, 0)]"
proof (cases "range_set_iter rs")
  case (Cons r rest)
  have sep: "ranges_sep (r # rest)" "\<forall>x \<in> set (r # rest). snd x = 0"
    using assms by (auto simp: acked_ok_def range_set_sep_def Cons)
  then have "rest = []" by (cases rest) auto
  then show ?thesis using sep Cons by (cases r) simp
qed simp

text \<open>
  C33: When the final size of a stream is known, the stream counts as completely sent exactly when
  all of its bytes are acknowledged; the frame that carries the end marker does not matter.  If the
  marker was sent behind the data in a frame of its own, the stream is complete while that frame
  is still in flight.  Only a stream without bytes waits: it is complete exactly when an
  acknowledgement of a frame, or a reset, has been recorded.
\<close>

theorem completion_ignores_the_end_marker:
  assumes "max_data < 2 ^ 62" and "list_all grant_ok events"
    and "source_run events (source_new max_data) = Some s" and "sd_fin_off (sn_buf s) = Some n"
  shows "send_is_complete (sn_buf s) \<longleftrightarrow>
    (if n = 0 then range_set_iter (sd_acked (sn_buf s)) \<noteq> [] else members (sd_acked (sn_buf s)) = {..<n})"
proof -
  have "source_inv s" using source_run_inv [OF source_inv_new [OF assms(1)] assms(2)] assms(3) by auto
  then have "send_inv (stream_of (sn_written s)) (sn_buf s)" by (simp add: source_inv_def)
  then obtain lo where "sd_emit_off (sn_buf s) \<le> sd_off (sn_buf s)" "acked_ok (sd_acked (sn_buf s)) (sd_emit_off (sn_buf s))"
    "sd_fin_off (sn_buf s) = None \<or> sd_fin_off (sn_buf s) = Some (sd_off (sn_buf s))" by (rule send_invE)
  then have ok: "acked_ok (sd_acked (sn_buf s)) n" using assms(4) by (auto intro: acked_ok_mono)
  show ?thesis
  proof (cases "n = 0")
    case True
    then show ?thesis
      using acked_within_zero [of "sd_acked (sn_buf s)"] ok assms(4)
      by (auto simp: send_is_complete_def range_set_eq_range_def range_set_len_def)
  next
    case False
    then show ?thesis using acked_exactly [OF ok] assms(4) by (simp add: send_is_complete_def)
  qed
qed

definition late_end :: "source_event list" where
  "late_end = [Write [1, 2, 3] False, Transmit 9, Write [] True, Transmit 9, Acknowledge 0]"

theorem completion_ignores_the_end_marker_witness:
  "\<exists>s f. source_run late_end (source_new 30) = Some s \<and> send_is_complete (sn_buf s)
     \<and> (f, InFlight) \<in> set (sn_frames s) \<and> sf_fin f"
proof -
  have "map_option (\<lambda>s. (sn_frames s, sd_fin_off (sn_buf s), range_set_iter (sd_acked (sn_buf s))))
      (source_run late_end (source_new 30))
    = Some ([(\<lparr>sf_off = 0, sf_data = [1, 2, 3], sf_fin = False\<rparr>, Acked), (\<lparr>sf_off = 3, sf_data = [], sf_fin = True\<rparr>, InFlight)],
        Some 3, [(0, 3)])"
    by code_simp
  then obtain s where s: "source_run late_end (source_new 30) = Some s" "sd_fin_off (sn_buf s) = Some 3"
    "range_set_iter (sd_acked (sn_buf s)) = [(0, 3)]"
    "sn_frames s = [(\<lparr>sf_off = 0, sf_data = [1, 2, 3], sf_fin = False\<rparr>, Acked), (\<lparr>sf_off = 3, sf_data = [], sf_fin = True\<rparr>, InFlight)]"
    by auto
  moreover have "list_all grant_ok late_end" by (simp add: late_end_def)
  ultimately have "send_is_complete (sn_buf s)"
    using completion_ignores_the_end_marker [of 30 late_end s 3] by (simp add: atLeast0LessThan)
  then show ?thesis using s by (intro exI [of _ s] exI [of _ "\<lparr>sf_off = 3, sf_data = [], sf_fin = True\<rparr>"]) simp
qed

end
