(* ===== verification/Quic_Packet.thy ===== *)
theory Quic_Packet
  imports Quic_Error Range_Set
begin

text \<open>
  QUIC packets: \<open>engine/quiche/quiche/src/packet.rs\<close>, the parts of \<open>crypto/mod.rs\<close> and
  \<open>crypto/boringssl.rs\<close> it calls, \<open>rand.rs\<close>, and the packet number bookkeeping of
  \<open>Connection::recv_single\<close> in \<open>lib.rs\<close>.  The header formats, packet number coding, header and
  payload protection, the window of received packet numbers and the skipping of packet numbers
  are modelled; the AEAD and the header cipher of BoringSSL are functions held in the keys, and
  random draws are arguments.
\<close>

subsection \<open>Keys\<close>

definition MAX_NONCE_LEN :: nat where "MAX_NONCE_LEN = 12"

definition TAG_LEN :: nat where "TAG_LEN = 16"

text \<open>
  \<open>EVP_AEAD_CTX_seal_scatter\<close> gives the ciphertext and the tag (with the encrypted extra input in
  front of it), \<open>EVP_AEAD_CTX_open\<close> the plaintext; \<open>None\<close> is a return code other than one.
\<close>

record packet_key =
  pk_iv :: bytes
  pk_seal :: "bytes \<Rightarrow> bytes \<Rightarrow> bytes \<Rightarrow> bytes \<Rightarrow> (bytes \<times> bytes) option"
  pk_open :: "bytes \<Rightarrow> bytes \<Rightarrow> bytes \<Rightarrow> bytes option"
  pk_mask :: "bytes \<Rightarrow> bytes quic_result"

definition make_nonce :: "bytes \<Rightarrow> u64 \<Rightarrow> bytes option" where
  "make_nonce iv counter =
     (if length iv \<noteq> MAX_NONCE_LEN then None
      else Some (take 4 iv @ map2 (XOR) (drop 4 iv) (be_bytes 8 (unat counter))))"

definition open_with_u64_counter ::
  "packet_key \<Rightarrow> u64 \<Rightarrow> bytes \<Rightarrow> bytes \<Rightarrow> (nat \<times> bytes) quic_result" where
  "open_with_u64_counter self counter ad buf =
     (if length buf < TAG_LEN then Inl (Error CryptoFail)
      else case make_nonce (pk_iv self) counter of
             None \<Rightarrow> Inl Panic
           | Some nonce \<Rightarrow>
               (case pk_open self nonce ad buf of
                  None \<Rightarrow> Inl (Error CryptoFail)
                | Some out \<Rightarrow> Inr (length out, out @ drop (length out) buf)))"

definition seal_with_u64_counter ::
  "packet_key \<Rightarrow> u64 \<Rightarrow> bytes \<Rightarrow> bytes \<Rightarrow> nat \<Rightarrow> bytes option \<Rightarrow> (nat \<times> bytes) quic_result" where
  "seal_with_u64_counter self counter ad buf in_len extra_in =
     (let extra = (case extra_in of Some v \<Rightarrow> v | None \<Rightarrow> [])
      in if length buf < in_len + TAG_LEN + length extra then Inl (Error CryptoFail)
         else case make_nonce (pk_iv self) counter of
                None \<Rightarrow> Inl Panic
              | Some nonce \<Rightarrow>
                  (case pk_seal self nonce ad (take in_len buf) extra of
                     None \<Rightarrow> Inl (Error CryptoFail)
                   | Some (out, tag) \<Rightarrow>
                       Inr (in_len + length tag, out @ tag @ drop (length out + length tag) buf)))"

definition verify_slices_are_equal :: "bytes \<Rightarrow> bytes \<Rightarrow> unit quic_result" where
  "verify_slices_are_equal a b =
     (if length a \<noteq> length b then Inl (Error CryptoFail)
      else if a = b then Inr () else Inl (Error CryptoFail))"

subsection \<open>Epochs and packet types\<close>

definition FORM_BIT :: u8 where "FORM_BIT = 0x80"

definition FIXED_BIT :: u8 where "FIXED_BIT = 0x40"

definition KEY_PHASE_BIT :: u8 where "KEY_PHASE_BIT = 0x04"

definition TYPE_MASK :: u8 where "TYPE_MASK = 0x30"

definition PKT_NUM_MASK :: u8 where "PKT_NUM_MASK = 0x03"

definition MAX_CID_LEN :: u8 where "MAX_CID_LEN = 20"

definition MAX_PKT_NUM_LEN :: nat where "MAX_PKT_NUM_LEN = 4"

definition SAMPLE_LEN :: nat where "SAMPLE_LEN = 16"

definition MIN_SKIP_COUNTER_VALUE :: nat where "MIN_SKIP_COUNTER_VALUE = 10 * 2"

datatype epoch = EpochInitial | EpochHandshake | EpochApplication

definition EPOCHS :: "epoch list" where
  "EPOCHS = [EpochInitial, EpochHandshake, EpochApplication]"

fun epoch_index :: "epoch \<Rightarrow> nat" where
  "epoch_index EpochInitial = 0"
| "epoch_index EpochHandshake = 1"
| "epoch_index EpochApplication = 2"

definition epochs :: "epoch \<Rightarrow> epoch \<Rightarrow> epoch list option" where
  "epochs first final = slice_range EPOCHS (epoch_index first) (epoch_index final + 1)"

datatype packet_type = Initial | Retry | Handshake | ZeroRTT | VersionNegotiation | Short

fun from_epoch :: "epoch \<Rightarrow> packet_type" where
  "from_epoch EpochInitial = Initial"
| "from_epoch EpochHandshake = Handshake"
| "from_epoch EpochApplication = Short"

fun to_epoch :: "packet_type \<Rightarrow> epoch quic_result" where
  "to_epoch Initial = Inr EpochInitial"
| "to_epoch ZeroRTT = Inr EpochApplication"
| "to_epoch Handshake = Inr EpochHandshake"
| "to_epoch Short = Inr EpochApplication"
| "to_epoch _ = Inl (Error InvalidPacket)"

definition PROTOCOL_VERSION_V1 :: u32 where "PROTOCOL_VERSION_V1 = 1"

definition version_is_supported :: "u32 \<Rightarrow> bool" where
  "version_is_supported version \<longleftrightarrow> version = PROTOCOL_VERSION_V1"

subsection \<open>Headers\<close>

record header =
  h_ty :: packet_type
  h_version :: u32
  h_dcid :: bytes
  h_scid :: bytes
  h_pkt_num :: u64
  h_pkt_num_len :: nat
  h_token :: "bytes option"
  h_versions :: "u32 list option"
  h_key_phase :: bool

definition is_long :: "u8 \<Rightarrow> bool" where
  "is_long b \<longleftrightarrow> b AND FORM_BIT \<noteq> 0"

function version_list :: "octets \<Rightarrow> u32 list \<Rightarrow> (u32 list \<times> octets) quic_result" where
  "version_list b list =
     (if 0 < o_cap b
      then outcome_bind (read_u32 b) (\<lambda>(version, b). version_list b (list @ [version]))
      else Inr (list, b))"
  by pat_completeness auto
termination
  by (relation "measure (\<lambda>(b, _). o_cap b)")
     (auto simp: read_u32_def get_u_def peek_u_def Let_def o_cap_def o_rest_def split: if_splits)

declare version_list.simps [simp del]

text \<open>A connection ID behind its length byte, in a long header.\<close>

definition read_cid :: "u32 \<Rightarrow> octets \<Rightarrow> (bytes \<times> octets) quic_result" where
  "read_cid version b =
     outcome_bind (read_u8 b) (\<lambda>(len, b).
       if version_is_supported version \<and> MAX_CID_LEN < len then Inl (Error InvalidPacket)
       else read_bytes (unat len) b)"

definition long_type :: "u32 \<Rightarrow> u8 \<Rightarrow> packet_type quic_result" where
  "long_type version first =
     (if version = 0 then Inr VersionNegotiation
      else (let ty = drop_bit 4 (first AND TYPE_MASK)
            in if ty = 0 then Inr Initial else if ty = 1 then Inr ZeroRTT
               else if ty = 2 then Inr Handshake else if ty = 3 then Inr Retry
               else Inl (Error InvalidPacket)))"

fun read_type_fields ::
  "packet_type \<Rightarrow> octets \<Rightarrow> ((bytes option \<times> u32 list option) \<times> octets) quic_result" where
  "read_type_fields Initial b =
     outcome_bind (read_varint_bytes b) (\<lambda>(token, b). Inr ((Some token, None), b))"
| "read_type_fields Retry b =
     (if o_cap b < TAG_LEN then Inl (Error InvalidPacket)
      else outcome_bind (read_bytes (o_cap b - TAG_LEN) b) (\<lambda>(token, b). Inr ((Some token, None), b)))"
| "read_type_fields VersionNegotiation b =
     outcome_bind (version_list b []) (\<lambda>(list, b). Inr ((None, Some list), b))"
| "read_type_fields _ b = Inr ((None, None), b)"

definition header_from_bytes :: "octets \<Rightarrow> nat \<Rightarrow> (header \<times> octets) quic_result" where
  "header_from_bytes b dcid_len =
     outcome_bind (read_u8 b) (\<lambda>(first, b).
       if \<not> is_long first then
         outcome_bind (read_bytes dcid_len b) (\<lambda>(dcid, b).
           Inr (\<lparr>h_ty = Short, h_version = 0, h_dcid = dcid, h_scid = [], h_pkt_num = 0,
                 h_pkt_num_len = 0, h_token = None, h_versions = None, h_key_phase = False\<rparr>, b))
       else
         outcome_bind (read_u32 b) (\<lambda>(version, b).
         outcome_bind (long_type version first) (\<lambda>ty.
         outcome_bind (read_cid version b) (\<lambda>(dcid, b).
         outcome_bind (read_cid version b) (\<lambda>(scid, b).
         outcome_bind (read_type_fields ty b) (\<lambda>((token, versions), b).
           Inr (\<lparr>h_ty = ty, h_version = version, h_dcid = dcid, h_scid = scid, h_pkt_num = 0,
                 h_pkt_num_len = 0, h_token = token, h_versions = versions,
                 h_key_phase = False\<rparr>, b)))))))"

definition from_slice :: "bytes \<Rightarrow> nat \<Rightarrow> header quic_result" where
  "from_slice buf dcid_len =
     outcome_bind (header_from_bytes (octets_with_slice buf) dcid_len) (\<lambda>(hdr, b). Inr hdr)"

fun long_type_bits :: "packet_type \<Rightarrow> u8 quic_result" where
  "long_type_bits Initial = Inr 0x00"
| "long_type_bits ZeroRTT = Inr 0x01"
| "long_type_bits Handshake = Inr 0x02"
| "long_type_bits Retry = Inr 0x03"
| "long_type_bits _ = Inl (Error InvalidPacket)"

definition write_token :: "header \<Rightarrow> octets \<Rightarrow> octets quic_result" where
  "write_token self out =
     (case h_ty self of
        Initial \<Rightarrow>
          (case h_token self of
             Some v \<Rightarrow> in_turn [write_varint (of_nat (length v)), write_bytes v] out
           | None \<Rightarrow> write_varint 0 out)
      | Retry \<Rightarrow> (case h_token self of Some v \<Rightarrow> write_bytes v out | None \<Rightarrow> Inl Panic)
      | _ \<Rightarrow> Inr out)"

definition header_to_bytes :: "header \<Rightarrow> octets \<Rightarrow> octets quic_result" where
  "header_to_bytes self out =
     (let first = 0 OR of_nat (h_pkt_num_len self - 1)
      in if h_ty self = Short then
           (let first = first AND NOT FORM_BIT;
                first = first OR FIXED_BIT;
                first = (if h_key_phase self then first OR KEY_PHASE_BIT
                         else first AND NOT KEY_PHASE_BIT)
            in in_turn [write_u8 first, write_bytes (h_dcid self)] out)
         else
           outcome_bind (long_type_bits (h_ty self)) (\<lambda>ty.
             in_turn
               [write_u8 (first OR (FORM_BIT OR FIXED_BIT OR push_bit 4 ty)),
                write_uint 4 (h_version self),
                write_u8 (of_nat (length (h_dcid self))), write_bytes (h_dcid self),
                write_u8 (of_nat (length (h_scid self))), write_bytes (h_scid self),
                write_token self] out))"

text \<open>The header \<open>send_single\<close> builds for a packet; its number is written behind it.\<close>

definition send_header ::
  "packet_type \<Rightarrow> u32 \<Rightarrow> bytes \<Rightarrow> bytes \<Rightarrow> nat \<Rightarrow> bytes option \<Rightarrow> bool \<Rightarrow> header" where
  "send_header pkt_type version dcid scid pn_len token key_phase =
     \<lparr>h_ty = pkt_type, h_version = version, h_dcid = dcid, h_scid = scid, h_pkt_num = 0,
      h_pkt_num_len = pn_len, h_token = (if pkt_type = Initial then token else None),
      h_versions = None, h_key_phase = key_phase\<rparr>"

subsection \<open>Packet numbers\<close>

fun bit_length :: "nat \<Rightarrow> nat" where
  "bit_length n = (if n = 0 then 0 else Suc (bit_length (n div 2)))"

declare bit_length.simps [simp del]

definition leading_zeros :: "nat \<Rightarrow> nat" where
  "leading_zeros n = 64 - bit_length n"

definition pkt_num_len :: "nat \<Rightarrow> nat \<Rightarrow> nat" where
  "pkt_num_len pn largest_acked =
     (let num_unacked = pn - largest_acked + 1;
          min_bits = 64 - leading_zeros num_unacked + 1
      in (min_bits + 7) div 8)"

definition decode_pkt_num :: "u64 \<Rightarrow> u64 \<Rightarrow> nat \<Rightarrow> u64" where
  "decode_pkt_num largest_pn truncated_pn pn_len =
     (let pn_nbits = pn_len * 8;
          expected_pn = largest_pn + 1;
          pn_win = push_bit pn_nbits 1;
          pn_hwin = drop_bit 1 pn_win;
          pn_mask = pn_win - 1;
          candidate_pn = (expected_pn AND NOT pn_mask) OR truncated_pn
      in if candidate_pn + pn_hwin \<le> expected_pn \<and> candidate_pn < push_bit 62 1 - pn_win
         then candidate_pn + pn_win
         else if expected_pn + pn_hwin < candidate_pn \<and> pn_win \<le> candidate_pn
         then candidate_pn - pn_win
         else candidate_pn)"

definition encode_pkt_num :: "u64 \<Rightarrow> nat \<Rightarrow> octets \<Rightarrow> octets quic_result" where
  "encode_pkt_num pn pn_len b =
     (if pn_len = 1 then write_u8 (ucast pn) b
      else if pn_len = 2 then write_uint 2 (ucast pn :: u16) b
      else if pn_len = 3 then write_uint 3 (ucast pn :: u32) b
      else if pn_len = 4 then write_uint 4 (ucast pn :: u32) b
      else Inl (Error InvalidPacket))"

subsection \<open>Header and payload protection\<close>

text \<open>\<open>buf[off + i] ^= mask[i + 1]\<close> for the first \<open>n\<close> indices.\<close>

definition xor_run :: "nat \<Rightarrow> nat \<Rightarrow> bytes \<Rightarrow> bytes \<Rightarrow> bytes" where
  "xor_run off n hp buf =
     take off buf @ map (\<lambda>i. buf ! (off + i) XOR hp ! (i + 1)) [0..<n] @ drop (off + n) buf"

definition mask_first :: "u8 \<Rightarrow> bytes \<Rightarrow> u8" where
  "mask_first first hp =
     (if is_long first then first XOR (hp ! 0 AND 0x0f) else first XOR (hp ! 0 AND 0x1f))"

definition read_pkt_num :: "nat \<Rightarrow> octets \<Rightarrow> (u64 \<times> octets) quic_result" where
  "read_pkt_num pn_len b =
     (if pn_len = 1 then
        outcome_bind (read_u8 b) (\<lambda>(pn, b). Inr (ucast pn, b))
      else if pn_len = 2 then
        outcome_bind (from_octets (get_u 2 b :: (u16 \<times> octets) octets_result)) (\<lambda>(pn, b). Inr (ucast pn, b))
      else if pn_len = 3 then
        outcome_bind (from_octets (get_u 3 b :: (u32 \<times> octets) octets_result)) (\<lambda>(pn, b). Inr (ucast pn, b))
      else if pn_len = 4 then
        outcome_bind (from_octets (get_u 4 b :: (u32 \<times> octets) octets_result)) (\<lambda>(pn, b). Inr (ucast pn, b))
      else Inl (Error InvalidPacket))"

definition decrypt_hdr :: "octets \<Rightarrow> header \<Rightarrow> packet_key \<Rightarrow> (header \<times> octets) quic_result" where
  "decrypt_hdr b hdr aead =
     (if length (o_buf b) < 1 then Inl (Error BufferTooShort)
      else if o_cap b < MAX_PKT_NUM_LEN + SAMPLE_LEN then Inl (Error BufferTooShort)
      else
        outcome_bind (pk_mask aead (take SAMPLE_LEN (drop MAX_PKT_NUM_LEN (o_rest b)))) (\<lambda>mask.
          let first = mask_first (o_buf b ! 0) mask;
              pn_len = unat ((first AND PKT_NUM_MASK) + 1);
              b = b\<lparr>o_buf := xor_run (o_off b) pn_len mask (o_buf b)\<rparr>
          in outcome_bind (read_pkt_num pn_len b) (\<lambda>(pn, b).
               let b = b\<lparr>o_buf := (o_buf b)[0 := first]\<rparr>;
                   hdr = hdr\<lparr>h_pkt_num := pn, h_pkt_num_len := pn_len\<rparr>;
                   hdr = (if h_ty hdr = Short
                          then hdr\<lparr>h_key_phase := (first AND KEY_PHASE_BIT) \<noteq> 0\<rparr> else hdr)
               in Inr (hdr, b))))"

definition decrypt_pkt ::
  "octets \<Rightarrow> u64 \<Rightarrow> nat \<Rightarrow> nat \<Rightarrow> packet_key \<Rightarrow> (bytes \<times> octets) quic_result" where
  "decrypt_pkt b pn pn_len payload_len aead =
     (let header = take (o_off b) (o_buf b); payload = o_rest b
      in if payload_len < pn_len then Inl (Error InvalidPacket)
         else if length payload < payload_len - pn_len then Inl (Error BufferTooShort)
         else
           outcome_bind (open_with_u64_counter aead pn header (take (payload_len - pn_len) payload))
             (\<lambda>(len, plain).
               read_bytes len (b\<lparr>o_buf := header @ plain @ drop (payload_len - pn_len) payload\<rparr>)))"

definition encrypt_hdr :: "bytes \<Rightarrow> nat \<Rightarrow> bytes \<Rightarrow> packet_key \<Rightarrow> bytes quic_result" where
  "encrypt_hdr b pn_len payload aead =
     (if MAX_PKT_NUM_LEN < pn_len then Inl Panic
      else case slice_range payload (MAX_PKT_NUM_LEN - pn_len) (SAMPLE_LEN + (MAX_PKT_NUM_LEN - pn_len)) of
             None \<Rightarrow> Inl Panic
           | Some sample \<Rightarrow>
               outcome_bind (pk_mask aead sample) (\<lambda>mask.
                 if length b < 1 then Inl (Error BufferTooShort)
                 else if length b - 1 < pn_len then Inl (Error BufferTooShort)
                 else Inr (xor_run (length b - pn_len) pn_len mask (b[0 := mask_first (b ! 0) mask]))))"

definition encrypt_pkt ::
  "bytes \<Rightarrow> u64 \<Rightarrow> nat \<Rightarrow> nat \<Rightarrow> nat \<Rightarrow> bytes option \<Rightarrow> packet_key \<Rightarrow> (nat \<times> bytes) quic_result" where
  "encrypt_pkt b pn pn_len payload_len payload_offset extra_in aead =
     (if length b < payload_offset then Inl (Error BufferTooShort)
      else
        (let header = take payload_offset b; payload = drop payload_offset b
         in outcome_bind (seal_with_u64_counter aead pn header payload payload_len extra_in)
              (\<lambda>(ciphertext_len, payload).
                outcome_bind (encrypt_hdr header pn_len payload aead) (\<lambda>header.
                  Inr (payload_offset + ciphertext_len, header @ payload)))))"

subsection \<open>Version negotiation and retry\<close>

definition negotiate_version :: "u8 \<Rightarrow> bytes \<Rightarrow> bytes \<Rightarrow> bytes \<Rightarrow> (nat \<times> bytes) quic_result" where
  "negotiate_version random scid dcid out =
     outcome_bind
       (in_turn
          [write_u8 (random OR FORM_BIT), write_uint 4 (0 :: u32),
           write_u8 (of_nat (length scid)), write_bytes scid,
           write_u8 (of_nat (length dcid)), write_bytes dcid,
           write_uint 4 PROTOCOL_VERSION_V1] (octets_with_slice out))
       (\<lambda>b. Inr (o_off b, o_buf b))"

definition RETRY_INTEGRITY_KEY_V1 :: bytes where
  "RETRY_INTEGRITY_KEY_V1 =
     [0xbe, 0x0c, 0x69, 0x0b, 0x9f, 0x66, 0x57, 0x5a, 0x1d, 0x76, 0x6b, 0x54,
      0xe3, 0x68, 0xc8, 0x4e]"

definition RETRY_INTEGRITY_NONCE_V1 :: bytes where
  "RETRY_INTEGRITY_NONCE_V1 =
     [0x46, 0x15, 0x99, 0xd3, 0x5d, 0x63, 0x2b, 0xf2, 0x23, 0x98, 0x25, 0xbb]"

text \<open>\<open>PacketKey::new\<close> is the argument \<open>new_key\<close>: BoringSSL's AES-128-GCM under a key and an IV.\<close>

definition compute_retry_integrity_tag ::
  "(bytes \<Rightarrow> bytes \<Rightarrow> packet_key quic_result) \<Rightarrow> octets \<Rightarrow> bytes \<Rightarrow> u32 \<Rightarrow> bytes quic_result" where
  "compute_retry_integrity_tag new_key b odcid version =
     (let (key, nonce) = (RETRY_INTEGRITY_KEY_V1, RETRY_INTEGRITY_NONCE_V1);
          hdr_len = o_off b;
          pseudo = replicate (1 + length odcid + hdr_len) 0
      in outcome_bind
           (in_turn [write_u8 (of_nat (length odcid)), write_bytes odcid,
                     write_bytes (take hdr_len (o_buf b))] (octets_with_slice pseudo))
           (\<lambda>pb. outcome_bind (new_key key nonce) (\<lambda>key.
              outcome_bind (seal_with_u64_counter key 0 (o_buf pb) (replicate TAG_LEN 0) 0 None)
                (\<lambda>(out_len, out_tag).
                  if out_len \<noteq> length out_tag then Inl (Error CryptoFail) else Inr out_tag))))"

definition retry ::
  "(bytes \<Rightarrow> bytes \<Rightarrow> packet_key quic_result) \<Rightarrow> bytes \<Rightarrow> bytes \<Rightarrow> bytes \<Rightarrow> bytes \<Rightarrow> u32 \<Rightarrow> bytes
     \<Rightarrow> (nat \<times> bytes) quic_result" where
  "retry new_key scid dcid new_scid token version out =
     (if \<not> version_is_supported version then Inl (Error UnknownVersion)
      else
        outcome_bind
          (header_to_bytes
             \<lparr>h_ty = Retry, h_version = version, h_dcid = scid, h_scid = new_scid, h_pkt_num = 0,
              h_pkt_num_len = 0, h_token = Some token, h_versions = None, h_key_phase = False\<rparr>
             (octets_with_slice out))
          (\<lambda>b. outcome_bind (compute_retry_integrity_tag new_key b dcid version) (\<lambda>tag.
             outcome_bind (write_bytes tag b) (\<lambda>b. Inr (o_off b, o_buf b)))))"

definition verify_retry_integrity ::
  "(bytes \<Rightarrow> bytes \<Rightarrow> packet_key quic_result) \<Rightarrow> octets \<Rightarrow> bytes \<Rightarrow> u32 \<Rightarrow> unit quic_result" where
  "verify_retry_integrity new_key b odcid version =
     outcome_bind (compute_retry_integrity_tag new_key b odcid version) (\<lambda>tag.
       case slice_range (o_rest b) 0 TAG_LEN of
         None \<Rightarrow> Inl Panic
       | Some received \<Rightarrow> verify_slices_are_equal received tag)"

subsection \<open>The window of received packet numbers\<close>

record pkt_num_window =
  w_lower :: nat
  w_window :: "128 word"

definition pkt_num_window_default :: pkt_num_window where
  "pkt_num_window_default = \<lparr>w_lower = 0, w_window = 0\<rparr>"

definition window_upper :: "pkt_num_window \<Rightarrow> nat" where
  "window_upper self = min (w_lower self + 16 * 8) (2 ^ 64 - 1) - 1"

text \<open>\<open>checked_shl(diff as u32).unwrap_or(0)\<close>: the cast keeps the low 32 bits.\<close>

definition shift_window :: "nat \<Rightarrow> 128 word \<Rightarrow> 128 word" where
  "shift_window diff window = (let by = diff mod 2 ^ 32 in if by < 128 then push_bit by window else 0)"

definition window_insert :: "nat \<Rightarrow> pkt_num_window \<Rightarrow> pkt_num_window" where
  "window_insert seq self =
     (if seq < w_lower self then self
      else
        (let self = (if window_upper self < seq
                     then (let diff = seq - window_upper self
                           in self\<lparr>w_lower := w_lower self + diff,
                                   w_window := shift_window diff (w_window self)\<rparr>)
                     else self)
         in self\<lparr>w_window := w_window self OR push_bit (window_upper self - seq) 1\<rparr>))"

definition window_contains :: "nat \<Rightarrow> pkt_num_window \<Rightarrow> bool" where
  "window_contains seq self \<longleftrightarrow>
     (if window_upper self < seq then False
      else if seq < w_lower self then True
      else w_window self AND push_bit (window_upper self - seq) 1 \<noteq> 0)"

subsection \<open>Packet number spaces\<close>

definition MAX_ACK_RANGES :: nat where "MAX_ACK_RANGES = 68"

record pkt_num_space =
  ps_largest_rx_pkt_num :: nat
  ps_largest_rx_pkt_time :: nat
  ps_largest_rx_non_probing_pkt_num :: nat
  ps_largest_tx_pkt_num :: "nat option"
  ps_recv_pkt_need_ack :: range_set
  ps_recv_pkt_num :: pkt_num_window
  ps_ack_elicited :: bool

definition pkt_num_space_new :: "nat \<Rightarrow> pkt_num_space" where
  "pkt_num_space_new now =
     \<lparr>ps_largest_rx_pkt_num = 0, ps_largest_rx_pkt_time = now, ps_largest_rx_non_probing_pkt_num = 0,
      ps_largest_tx_pkt_num = None, ps_recv_pkt_need_ack = range_set_new MAX_ACK_RANGES,
      ps_recv_pkt_num = pkt_num_window_default, ps_ack_elicited = False\<rparr>"

definition space_clear :: "pkt_num_space \<Rightarrow> pkt_num_space" where
  "space_clear self = self\<lparr>ps_ack_elicited := False\<rparr>"

definition space_ready :: "pkt_num_space \<Rightarrow> bool" where
  "space_ready self \<longleftrightarrow> ps_ack_elicited self"

definition space_on_packet_sent :: "nat \<Rightarrow> pkt_num_space \<Rightarrow> pkt_num_space" where
  "space_on_packet_sent pkt_num self =
     self\<lparr>ps_largest_tx_pkt_num :=
       Some (case ps_largest_tx_pkt_num self of None \<Rightarrow> pkt_num | Some n \<Rightarrow> max n pkt_num)\<rparr>"

text \<open>What \<open>recv_single\<close> does with the number of a packet whose frames were processed.\<close>

definition record_received ::
  "nat \<Rightarrow> nat \<Rightarrow> bool \<Rightarrow> bool \<Rightarrow> pkt_num_space \<Rightarrow> pkt_num_space option" where
  "record_received now pn ack_elicited probing self =
     (let newest = (case range_set_last (ps_recv_pkt_need_ack self) of
                      None \<Rightarrow> True | Some n \<Rightarrow> n < pn);
          self = (if newest then self\<lparr>ps_largest_rx_pkt_time := now\<rparr> else self);
          self = self\<lparr>ps_recv_pkt_num := window_insert pn (ps_recv_pkt_num self)\<rparr>
      in map_option
           (\<lambda>need_ack.
             let self = self\<lparr>ps_recv_pkt_need_ack := need_ack,
                             ps_ack_elicited := ps_ack_elicited self \<or> ack_elicited,
                             ps_largest_rx_pkt_num := max (ps_largest_rx_pkt_num self) pn\<rparr>
             in if \<not> probing
                then self\<lparr>ps_largest_rx_non_probing_pkt_num :=
                            max (ps_largest_rx_non_probing_pkt_num self) pn\<rparr>
                else self)
           (push_item pn (ps_recv_pkt_need_ack self)))"

subsection \<open>Skipping packet numbers\<close>

text \<open>The draws that the random generator returns, in order; \<open>None\<close> when the given ones run out.\<close>

fun rand_u64_uniform :: "nat list \<Rightarrow> nat \<Rightarrow> nat option" where
  "rand_u64_uniform [] limit = None"
| "rand_u64_uniform (r # draws) limit =
     (let chunk_size = (2 ^ 64 - 1) div limit;
          end_of_last_chunk = chunk_size * limit
      in if end_of_last_chunk \<le> r then rand_u64_uniform draws limit else Some (r div chunk_size))"

record pkt_num_manager =
  m_skip_pn :: "nat option"
  m_skip_pn_counter :: "nat option"

definition pkt_num_manager_new :: pkt_num_manager where
  "pkt_num_manager_new = \<lparr>m_skip_pn = None, m_skip_pn_counter = None\<rparr>"

definition should_arm_skip_counter :: "bool \<Rightarrow> pkt_num_manager \<Rightarrow> bool" where
  "should_arm_skip_counter handshake_completed self \<longleftrightarrow>
     m_skip_pn_counter self = None \<and> m_skip_pn self = None \<and> handshake_completed"

text \<open>\<open>None\<close>: a datagram size of zero (the division panics), or no more draws.\<close>

definition arm_skip_counter ::
  "nat list \<Rightarrow> nat \<Rightarrow> nat \<Rightarrow> pkt_num_manager \<Rightarrow> pkt_num_manager option" where
  "arm_skip_counter draws cwnd max_datagram_size self =
     (if max_datagram_size = 0 then None
      else
        (let packets_per_cwnd = cwnd div max_datagram_size;
             lower = packets_per_cwnd div 2;
             upper = packets_per_cwnd * 2;
             skip_range = upper - lower + 1
         in map_option
              (\<lambda>rand_skip_value.
                self\<lparr>m_skip_pn_counter := Some (MIN_SKIP_COUNTER_VALUE + lower + rand_skip_value)\<rparr>)
              (rand_u64_uniform draws skip_range)))"

definition manager_on_packet_sent ::
  "nat list \<Rightarrow> nat \<Rightarrow> nat \<Rightarrow> bool \<Rightarrow> pkt_num_manager \<Rightarrow> pkt_num_manager option" where
  "manager_on_packet_sent draws cwnd max_datagram_size handshake_completed self =
     (case m_skip_pn_counter self of
        Some counter \<Rightarrow> Some (self\<lparr>m_skip_pn_counter := Some (counter - 1)\<rparr>)
      | None \<Rightarrow>
          if should_arm_skip_counter handshake_completed self
          then arm_skip_counter draws cwnd max_datagram_size self else Some self)"

definition should_skip_pn :: "bool \<Rightarrow> pkt_num_manager \<Rightarrow> bool" where
  "should_skip_pn handshake_completed self \<longleftrightarrow>
     (let no_current_skip_packet = m_skip_pn self = None;
          counter_expired = (case m_skip_pn_counter self of Some counter \<Rightarrow> counter = 0 | None \<Rightarrow> False)
      in counter_expired \<and> no_current_skip_packet \<and> handshake_completed)"

text \<open>\<open>None\<close>: one of the debug assertions fails.\<close>

definition set_skip_pn :: "nat option \<Rightarrow> pkt_num_manager \<Rightarrow> pkt_num_manager option" where
  "set_skip_pn skip_pn self =
     (if skip_pn \<noteq> None \<and> (m_skip_pn self \<noteq> None \<or> m_skip_pn_counter self \<noteq> Some 0) then None
      else Some (self\<lparr>m_skip_pn := skip_pn, m_skip_pn_counter := None\<rparr>))"

text \<open>The number of the next packet, as \<open>send_single\<close> takes it.\<close>

definition take_pkt_num :: "bool \<Rightarrow> pkt_num_manager \<times> nat \<Rightarrow> (nat \<times> pkt_num_manager \<times> nat) option" where
  "take_pkt_num handshake_completed state =
     (case state of (manager, next_pkt_num) \<Rightarrow>
        if should_skip_pn handshake_completed manager
        then map_option (\<lambda>manager. (next_pkt_num + 1, manager, next_pkt_num + 1))
               (set_skip_pn (Some next_pkt_num) manager)
        else Some (next_pkt_num, manager, next_pkt_num))"

text \<open>The check of an acknowledgement against the skipped number.\<close>

definition validate_skip :: "nat option \<Rightarrow> pkt_num_manager \<Rightarrow> pkt_num_manager option" where
  "validate_skip largest_acked self =
     (case (largest_acked, m_skip_pn self) of
        (Some largest, Some skip) \<Rightarrow>
          if skip < largest then set_skip_pn None self else Some self
      | _ \<Rightarrow> Some self)"

subsection \<open>Truncated packet numbers\<close>

lemma bit_length_bounds: "n < 2 ^ bit_length n" "n < 2 ^ k \<Longrightarrow> bit_length n \<le> k"
proof -
  show "n < 2 ^ bit_length n"
  proof (induction n rule: bit_length.induct)
    case (1 n)
    have "n < 2 * (n div 2) + 2" by simp
    moreover have "n div 2 + 1 \<le> 2 ^ bit_length (n div 2)" if "n \<noteq> 0"
      using 1 [OF that] by simp
    ultimately have "n < 2 * 2 ^ bit_length (n div 2)" if "n \<noteq> 0" using that by linarith
    then show ?case by (subst bit_length.simps) simp
  qed
  show "n < 2 ^ k \<Longrightarrow> bit_length n \<le> k"
  proof (induction k arbitrary: n)
    case 0
    then show ?case by (simp add: bit_length.simps)
  next
    case (Suc k)
    then have "n div 2 < 2 ^ k" by simp
    with Suc.IH show ?case by (subst bit_length.simps) simp
  qed
qed

text \<open>The length chosen leaves the distance to the acknowledged number within half the window.\<close>

lemma pkt_num_len_window:
  assumes "pn < 2 ^ 62"
  shows "2 * (pn - acked + 1) < 2 ^ (8 * pkt_num_len pn acked)"
proof -
  let ?n = "pn - acked + 1"
  have "?n < 2 ^ 64" using assms by simp
  then have len: "bit_length ?n \<le> 64" by (rule bit_length_bounds(2))
  have "2 * ?n < 2 ^ (bit_length ?n + 1)"
    using bit_length_bounds(1) [of ?n] by simp
  also have "bit_length ?n + 1 \<le> 8 * pkt_num_len pn acked"
    using len by (simp add: pkt_num_len_def leading_zeros_def Let_def)
  then have "(2 :: nat) ^ (bit_length ?n + 1) \<le> 2 ^ (8 * pkt_num_len pn acked)"
    by (rule power_increasing) simp
  finally show ?thesis .
qed

text \<open>The decoder on numbers.\<close>

definition nearest :: "nat \<Rightarrow> nat \<Rightarrow> nat \<Rightarrow> nat" where
  "nearest expected win c =
     (if c + win div 2 \<le> expected \<and> c < 2 ^ 62 - win then c + win
      else if expected + win div 2 < c \<and> win \<le> c then c - win else c)"

lemma block_fits:
  assumes "x < 2 ^ k" and "n \<le> k" and "t < 2 ^ n"
  shows "x div 2 ^ n * 2 ^ n + t < (2 :: nat) ^ k"
proof -
  have "x div 2 ^ n < 2 ^ (k - n)"
    using assms by (simp add: less_mult_imp_div_less flip: power_add)
  then have "(x div 2 ^ n + 1) * 2 ^ n \<le> 2 ^ (k - n) * 2 ^ n" by (intro mult_le_mono1) simp
  also have "\<dots> = 2 ^ k" using assms(2) by (simp flip: power_add)
  finally show ?thesis using assms(3) by simp
qed

lemma clear_low_bits:
  fixes x :: u64
  assumes "n \<le> 64" and "t < 2 ^ n"
  shows "unat ((x AND NOT (mask n)) OR of_nat t) = unat x div 2 ^ n * 2 ^ n + t"
proof -
  have t: "unat (of_nat t :: u64) = t"
    using assms less_le_trans [OF assms(2), of "2 ^ 64"] power_increasing [of n 64 "2 :: nat"]
    by (simp add: unat_of_nat)
  have low: "unat (take_bit n x) = unat x mod 2 ^ n"
    using take_bit_eq_mod [of n "unat x"] by (simp only: unsigned_take_bit_eq)
  have "x AND NOT (mask n) = push_bit n (drop_bit n x)"
    by (rule bit_word_eqI) (auto simp: bit_simps)
  also have "\<dots> = x - take_bit n x"
    using bits_ident [of n x] by (simp add: algebra_simps)
  finally have "unat (x AND NOT (mask n)) = unat x - unat x mod 2 ^ n"
    using unat_sub [of "take_bit n x" x] low by (simp add: word_le_nat_alt)
  then have high: "unat (x AND NOT (mask n)) = unat x div 2 ^ n * 2 ^ n"
    by (simp add: minus_mod_eq_div_mult)
  have "(x AND NOT (mask n)) AND of_nat t = 0"
  proof (rule bit_word_eqI)
    fix i
    assume "i < LENGTH(64)"
    have "\<not> bit t i" if "n \<le> i"
      using that assms(2) less_le_trans [OF assms(2), of "2 ^ i"] power_increasing [of n i "2 :: nat"]
      by (simp add: bit_iff_odd)
    then show "bit ((x AND NOT (mask n)) AND of_nat t) i = bit (0 :: u64) i"
      by (auto simp: bit_simps)
  qed
  then have "(x AND NOT (mask n)) OR of_nat t = (x AND NOT (mask n)) + of_nat t"
    by (simp add: disjunctive_add_eq_or)
  moreover have "unat x div 2 ^ n * 2 ^ n + t < 2 ^ 64"
    using block_fits [OF _ assms(1,2), of "unat x"] unat_less_exp [of x] by simp
  ultimately show ?thesis
    using high t by (simp add: unat_word_ariths)
qed

lemma nearest_word:
  fixes e win hwin limit c :: u64
  assumes "unat hwin = unat win div 2" and "unat limit = 2 ^ 62 - unat win"
    and "unat c + unat win < 2 ^ 64" and "unat e + unat win < 2 ^ 64"
  shows "unat (if c + hwin \<le> e \<and> c < limit then c + win
               else if e + hwin < c \<and> win \<le> c then c - win else c)
       = nearest (unat e) (unat win) (unat c)"
proof -
  have "unat (c + hwin) = unat c + unat win div 2" "unat (c + win) = unat c + unat win"
    "unat (e + hwin) = unat e + unat win div 2"
    using assms by (simp_all add: unat_word_ariths)
  moreover have "unat (c - win) = unat c - unat win" if "win \<le> c"
    using that by (simp add: unat_sub)
  ultimately show ?thesis
    by (simp add: nearest_def word_le_nat_alt word_less_nat_alt assms(2))
qed

lemma decode_nearest:
  assumes "1 \<le> len" and "len \<le> 4" and "largest < 2 ^ 63" and "t < 2 ^ (8 * len)"
  shows "unat (decode_pkt_num (of_nat largest) (of_nat t) len)
       = nearest (largest + 1) (2 ^ (8 * len)) ((largest + 1) div 2 ^ (8 * len) * 2 ^ (8 * len) + t)"
proof -
  let ?W = "2 ^ (8 * len) :: nat" and ?c = "(largest + 1) div 2 ^ (8 * len) * 2 ^ (8 * len) + t"
  have W: "?W \<le> 2 ^ 32" "256 \<le> ?W"
    using assms power_increasing [of "8 * len" 32 "2 :: nat"] power_increasing [of 8 "8 * len" "2 :: nat"]
    by simp_all
  have unat_2p_power: "unat (2 ^ (8 * len) :: u64) = ?W"
    using W(1) unat_of_nat [where 'a = 64, of ?W] by simp
  have len: "len * 8 = 8 * len" by simp
  have expected: "unat (of_nat largest + 1 :: u64) = largest + 1"
    using assms(3) by (simp add: unat_word_ariths unat_of_nat)
  have win: "unat (push_bit (8 * len) 1 :: u64) = ?W"
    by (simp add: push_bit_eq_mult unat_2p_power)
  have hwin: "unat (drop_bit 1 (push_bit (8 * len) 1 :: u64)) = ?W div 2"
    using unat_div_distrib [of "2 ^ (8 * len) :: u64" 2] by (simp add: drop_bit_Suc unat_2p_power)
  have low: "push_bit (8 * len) 1 - 1 = (mask (8 * len) :: u64)"
    by (simp add: mask_eq_exp_minus_1 push_bit_eq_mult)
  have c: "unat ((of_nat largest + 1 :: u64) AND NOT (mask (8 * len)) OR of_nat t) = ?c"
    using clear_low_bits [of "8 * len" t "of_nat largest + 1"] assms expected by simp
  have c_le: "?c < largest + 1 + ?W"
    using assms(4) by (metis add_less_le_mono add.commute div_times_less_eq_dividend)
  have limit: "unat (push_bit 62 1 - push_bit (8 * len) 1 :: u64) = 2 ^ 62 - ?W"
    using win W by (subst unat_sub) (simp_all add: word_le_nat_alt push_bit_eq_mult)
  have "unat (decode_pkt_num (of_nat largest) (of_nat t) len)
      = nearest (unat (of_nat largest + 1 :: u64)) (unat (push_bit (8 * len) 1 :: u64))
          (unat ((of_nat largest + 1 :: u64) AND NOT (mask (8 * len)) OR of_nat t))"
    unfolding decode_pkt_num_def Let_def len low
    by (rule nearest_word) (use c_le W assms(3) in \<open>simp_all only: win hwin limit c expected\<close>, simp_all)
  then show ?thesis by (simp only: win c expected)
qed

lemma nearest_hit:
  assumes "even win" and "pn < 2 ^ 62" and "pn \<le> expected + win div 2" and "expected < pn + win div 2"
    and "win \<le> 2 ^ 62"
  shows "nearest expected win (expected div win * win + pn mod win) = pn"
proof -
  obtain h where h: "win = 2 * h" using assms(1) by blast
  let ?q = "expected div win" and ?p = "pn div win" and ?m = "pn mod win"
  have pn: "pn = ?p * win + ?m" and e: "expected = ?q * win + expected mod win" by simp_all
  consider "?p = ?q" | "?p = ?q + 1" | "?q = ?p + 1" | "?q + 2 \<le> ?p" | "?p + 2 \<le> ?q" by linarith
  then show ?thesis
  proof cases
    case 1
    then have "?q * win + ?m = pn" using pn by simp
    then show ?thesis using assms h by (auto simp: nearest_def)
  next
    case 2
    then have "?q * win + ?m + win = pn" using pn by (simp add: algebra_simps)
    then show ?thesis using assms h by (auto simp: nearest_def)
  next
    case 3
    then have "?q * win + ?m = pn + win" using pn by (simp add: algebra_simps)
    then show ?thesis using assms h by (auto simp: nearest_def)
  next
    case 4
    then have "(?q + 2) * win \<le> ?p * win" by (rule mult_le_mono1)
    then have "?q * win + 2 * win \<le> ?p * win" by (simp add: algebra_simps)
    moreover have "expected mod win < win \<or> win = 0" by (cases "win = 0") simp_all
    ultimately have False using pn e assms(3,4) h by linarith
    then show ?thesis ..
  next
    case 5
    then have "(?p + 2) * win \<le> ?q * win" by (rule mult_le_mono1)
    then have "?p * win + 2 * win \<le> ?q * win" by (simp add: algebra_simps)
    moreover have "?m < win \<or> win = 0" by (cases "win = 0") simp_all
    ultimately have False using pn e assms(3,4) h by linarith
    then show ?thesis ..
  qed
qed

lemma get_u_at:
  assumes "length v = k"
  shows "get_u k (cursor_at d (v @ r)) = Inr (of_nat (be_val v), cursor_at (d @ v) r)"
proof -
  have "cursor_at d (v @ r)\<lparr>o_off := length d + k\<rparr> = cursor_at (d @ v) r"
    using assms by (simp add: cursor_at_def)
  with assms show ?thesis by (simp add: get_u_def peek_u_def)
qed

lemma read_pkt_num_at:
  assumes "length v = len" and "1 \<le> len" and "len \<le> 4"
  shows "read_pkt_num len (cursor_at d (v @ r)) = Inr (of_nat (be_val v), cursor_at (d @ v) r)"
proof -
  have "be_val v < 256 ^ len" using be_val_less [of v] assms(1) by simp
  moreover have "len = 1 \<or> len = 2 \<or> len = 3 \<or> len = 4" using assms by linarith
  ultimately show ?thesis
    using assms(1)
    by (elim disjE)
       (simp_all add: get_u_at read_pkt_num_def read_u8_def get_u8_def unsigned_of_nat take_bit_nat_eq_self)
qed

lemma writes_pkt_num:
  assumes "1 \<le> len" and "len \<le> 4" and "pn < 2 ^ 62"
  shows "writes (encode_pkt_num (of_nat pn) len) (be_bytes len pn)"
proof -
  have pn: "unat (of_nat pn :: u64) = pn" using assms(3) by (simp add: unat_of_nat)
  have u16: "be_bytes 2 (unat (ucast (of_nat pn :: u64) :: u16)) = be_bytes 2 pn"
    and u24: "be_bytes 3 (unat (ucast (of_nat pn :: u64) :: u32)) = be_bytes 3 pn"
    and u32: "be_bytes 4 (unat (ucast (of_nat pn :: u64) :: u32)) = be_bytes 4 pn"
    by (simp_all add: ucast_be_bytes pn del: be_bytes.simps)
  have u8: "[ucast (of_nat pn :: u64)] = be_bytes 1 pn"
    using ucast_be_bytes [where 'a = 8, of 1 "of_nat pn :: u64"] pn by simp
  consider "len = 1" | "len = 2" | "len = 3" | "len = 4" using assms(1,2) by linarith
  then show ?thesis
  proof cases
    case 1
    then show ?thesis
      using writes_u8 [of "ucast (of_nat pn :: u64)"] u8
      by (simp add: encode_pkt_num_def writes_def del: be_bytes.simps)
  next
    case 2
    then show ?thesis
      using writes_uint [of 2 "ucast (of_nat pn :: u64) :: u16"] u16
      by (simp add: encode_pkt_num_def writes_def del: be_bytes.simps)
  next
    case 3
    then show ?thesis
      using writes_uint [of 3 "ucast (of_nat pn :: u64) :: u32"] u24
      by (simp add: encode_pkt_num_def writes_def del: be_bytes.simps)
  next
    case 4
    then show ?thesis
      using writes_uint [of 4 "ucast (of_nat pn :: u64) :: u32"] u32
      by (simp add: encode_pkt_num_def writes_def del: be_bytes.simps)
  qed
qed

lemma pkt_num_len_pos: "1 \<le> pkt_num_len pn acked"
  by (simp add: pkt_num_len_def Let_def)

text \<open>
  C22: Packet numbers survive truncation: the bytes the sender writes for a packet number, with the
  length it chooses from the largest number acknowledged, are read and expanded by the receiver to
  exactly that packet number, as long as the receiver has seen what was acknowledged and nothing
  more than half a window beyond the packet.
\<close>

theorem packet_number_survives:
  assumes "pn < 2 ^ 62" and "largest < 2 ^ 62" and "acked \<le> largest"
    and "pkt_num_len pn acked = len" and "len \<le> MAX_PKT_NUM_LEN"
    and "largest + 1 < pn + 2 ^ (8 * len - 1)"
  shows "\<exists>sent t. (\<forall>d n. len \<le> n \<longrightarrow>
              encode_pkt_num (of_nat pn) len (fresh d n) = Inr (fresh (d @ sent) (n - len)))
           \<and> (\<forall>d r. read_pkt_num len (cursor_at d (sent @ r)) = Inr (t, cursor_at (d @ sent) r))
           \<and> decode_pkt_num (of_nat largest) t len = of_nat pn"
proof -
  let ?W = "2 ^ (8 * len) :: nat" and ?sent = "be_bytes len pn" and ?t = "of_nat (pn mod 2 ^ (8 * len)) :: u64"
  have len: "1 \<le> len" "len \<le> 4"
    using pkt_num_len_pos [of pn acked] assms(4,5) by (auto simp: MAX_PKT_NUM_LEN_def)
  have W: "?W = 256 ^ len" "even ?W" "?W \<le> 2 ^ 62" "?W div 2 = 2 ^ (8 * len - 1)"
    using len power_increasing [of "8 * len" 62 "2 :: nat"]
    by (simp_all add: power_mult power_diff flip: power_Suc)
  have wr: "writes (encode_pkt_num (of_nat pn) len) ?sent"
    using writes_pkt_num [OF len assms(1)] .
  have "encode_pkt_num (of_nat pn) len (fresh d n) = Inr (fresh (d @ ?sent) (n - len))" if "len \<le> n" for d n
    using wr that by (simp add: writes_def octets_write_fresh)
  moreover have "read_pkt_num len (cursor_at d (?sent @ r)) = Inr (?t, cursor_at (d @ ?sent) r)" for d r
    using read_pkt_num_at [of ?sent len d r] len W(1) by simp
  moreover have "2 * (pn - acked + 1) < ?W"
    using pkt_num_len_window [OF assms(1), of acked] assms(4) by simp
  then have "nearest (largest + 1) ?W ((largest + 1) div ?W * ?W + pn mod ?W) = pn"
    using assms(1,3,6) W by (intro nearest_hit) auto
  then have "unat (decode_pkt_num (of_nat largest) ?t len) = pn"
    using decode_nearest [of len largest "pn mod ?W"] len assms(2) by simp
  then have "decode_pkt_num (of_nat largest) ?t len = of_nat pn" 
    using assms(1) by (simp add: word_unat_eq_iff unat_of_nat)
  ultimately show ?thesis by blast
qed

theorem packet_number_survives_witness:
  "\<exists>sent t. (\<forall>d n. 2 \<le> n \<longrightarrow>
        encode_pkt_num 0xac5c02 2 (fresh d n) = Inr (fresh (d @ sent) (n - 2)))
     \<and> decode_pkt_num 0xac5c01 t 2 = 0xac5c02"
proof -
  have "pkt_num_len 0xac5c02 0xabe8b3 = 2" by code_simp
  from packet_number_survives [where largest = "0xac5c01", OF _ _ _ this] show ?thesis
    by (simp add: MAX_PKT_NUM_LEN_def) blast
qed

subsection \<open>Which packet numbers were received\<close>

text \<open>The window answers for the numbers \<open>S\<close> in its range, and every one of \<open>S\<close> is below its end.\<close>

definition window_inv :: "nat set \<Rightarrow> pkt_num_window \<Rightarrow> bool" where
  "window_inv S w \<longleftrightarrow>
     w_lower w + 128 < 2 ^ 64 \<and> (\<forall>s \<in> S. s < w_lower w + 128)
     \<and> (\<forall>s. w_lower w \<le> s \<longrightarrow> s < w_lower w + 128 \<longrightarrow>
          (bit (w_window w) (w_lower w + 127 - s) \<longleftrightarrow> s \<in> S))"

lemma window_upper_eq: "w_lower w + 128 < 2 ^ 64 \<Longrightarrow> window_upper w = w_lower w + 127"
  by (simp add: window_upper_def)

lemma window_contains_iff:
  assumes "window_inv S w"
  shows "window_contains s w \<longleftrightarrow> s \<in> S \<or> s < w_lower w"
proof -
  have up: "window_upper w = w_lower w + 127"
    using assms by (simp add: window_inv_def window_upper_eq)
  show ?thesis
    using assms unfolding window_contains_def up bit_iff_and_push_bit_not_eq_0 [symmetric]
    by (auto simp: window_inv_def)
qed

lemma bit_shift_window:
  "diff < 2 ^ 32 \<Longrightarrow> bit (shift_window diff w) i \<longleftrightarrow> diff \<le> i \<and> i < 128 \<and> bit w (i - diff)"
  by (auto simp: shift_window_def Let_def bit_simps)

lemma window_insert_spec:
  assumes inv: "window_inv S w" and "seq + 1 < 2 ^ 64" and "seq < w_lower w + 127 + 2 ^ 32"
  shows "window_inv (insert seq S) (window_insert seq w)
         \<and> w_lower (window_insert seq w) = max (w_lower w) (seq - 127)"
proof -
  have up: "window_upper w = w_lower w + 127" and lo: "w_lower w + 128 < 2 ^ 64"
    using inv by (simp_all add: window_inv_def window_upper_eq)
  have ins: "bit (w_window w) (w_lower w + 127 - s) \<longleftrightarrow> s \<in> S"
    if "w_lower w \<le> s" "s < w_lower w + 128" for s
    using inv that by (simp add: window_inv_def)
  consider "seq < w_lower w" | "w_lower w \<le> seq" "seq < w_lower w + 128" | "w_lower w + 128 \<le> seq"
    by linarith
  then show ?thesis
  proof cases
    case 1
    then show ?thesis using inv by (auto simp: window_insert_def window_inv_def)
  next
    case 2
    have "bit (w_window w OR push_bit (w_lower w + 127 - seq) 1) (w_lower w + 127 - s) \<longleftrightarrow> s = seq \<or> s \<in> S"
      if "w_lower w \<le> s" "s < w_lower w + 128" for s
      using that 2 ins [OF that] by (auto simp: bit_simps)
    then show ?thesis
      using 2 inv by (auto simp: window_insert_def window_inv_def up Let_def)
  next
    case 3
    let ?diff = "seq - (w_lower w + 127)"
    let ?w = "w\<lparr>w_lower := w_lower w + ?diff, w_window := shift_window ?diff (w_window w)\<rparr>"
    have lower: "w_lower w + ?diff = seq - 127" "127 \<le> seq" using 3 by simp_all
    have diff: "?diff < 2 ^ 32" "0 < ?diff" using assms(3) 3 by simp_all
    have "window_upper ?w = seq" using assms(2) lower by (simp add: window_upper_def)
    then have res: "window_insert seq w = ?w\<lparr>w_window := shift_window ?diff (w_window w) OR 1\<rparr>"
      using 3 by (simp add: window_insert_def up Let_def)
    have "bit (shift_window ?diff (w_window w) OR 1) (seq - s) \<longleftrightarrow> s = seq \<or> s \<in> S"
      if "seq - 127 \<le> s" "s \<le> seq" for s
    proof (cases "s < w_lower w + 128")
      case True
      have "seq - s - ?diff = w_lower w + 127 - s" "?diff \<le> seq - s" "seq - s < 128" "s \<noteq> seq"
        using True that 3 by linarith+
      moreover have "w_lower w \<le> s" using that lower by linarith
      ultimately show ?thesis
        using ins [of s] True that diff by (simp add: bit_shift_window bit_simps)
    next
      case False
      then have "s \<notin> S" using inv by (auto simp: window_inv_def)
      moreover have "\<not> ?diff \<le> seq - s" using False that 3 by linarith
      ultimately show ?thesis using diff that by (auto simp: bit_shift_window bit_simps)
    qed
    moreover have "s < seq - 127 + 128" if "s \<in> S" for s
      using inv that 3 by (auto simp: window_inv_def)
    ultimately show ?thesis
      using assms(2) lower 3 unfolding res
      by (auto simp: window_inv_def)
  qed
qed

lemma window_inv_default: "window_inv {} pkt_num_window_default"
  by (simp add: window_inv_def pkt_num_window_default_def)

text \<open>
  The number of an incoming packet: expanded, refused if it was seen, recorded otherwise.  The
  result is the number of the accepted packet, if any, and the new state.
\<close>

definition rx_pkt_num :: "u64 \<Rightarrow> nat \<Rightarrow> pkt_num_space \<Rightarrow> nat" where
  "rx_pkt_num truncated len self =
     unat (decode_pkt_num (of_nat (ps_largest_rx_pkt_num self)) truncated len)"

definition receive_number ::
  "nat \<Rightarrow> u64 \<Rightarrow> nat \<Rightarrow> bool \<Rightarrow> bool \<Rightarrow> pkt_num_space \<Rightarrow> (nat option \<times> pkt_num_space) option" where
  "receive_number now truncated len ack_elicited probing self =
     (let pn = rx_pkt_num truncated len self
      in if window_contains pn (ps_recv_pkt_num self) then Some (None, self)
         else map_option (Pair (Some pn)) (record_received now pn ack_elicited probing self))"

type_synonym arrival = "nat \<times> u64 \<times> nat \<times> bool \<times> bool"

fun receive_numbers :: "arrival list \<Rightarrow> pkt_num_space \<Rightarrow> (nat list \<times> pkt_num_space) option" where
  "receive_numbers [] self = Some ([], self)"
| "receive_numbers ((now, truncated, len, ack_elicited, probing) # arrivals) self =
     Option.bind (receive_number now truncated len ack_elicited probing self) (\<lambda>(accepted, self).
       map_option (map_prod ((@) (case accepted of None \<Rightarrow> [] | Some pn \<Rightarrow> [pn])) id)
         (receive_numbers arrivals self))"

text \<open>What the header can carry: one to four bytes.\<close>

fun arrival_ok :: "arrival \<Rightarrow> bool" where
  "arrival_ok (now, truncated, len, ack_elicited, probing) \<longleftrightarrow>
     1 \<le> len \<and> len \<le> 4 \<and> unat truncated < 2 ^ (8 * len)"

definition space_inv :: "nat list \<Rightarrow> pkt_num_space \<Rightarrow> bool" where
  "space_inv accepted s \<longleftrightarrow>
     window_inv (set accepted) (ps_recv_pkt_num s)
     \<and> w_lower (ps_recv_pkt_num s) = ps_largest_rx_pkt_num s - 127
     \<and> range_set_inv (ps_recv_pkt_need_ack s) \<and> members (ps_recv_pkt_need_ack s) \<subseteq> set accepted
     \<and> (\<forall>pn \<in> set accepted. pn \<le> ps_largest_rx_pkt_num s) \<and> distinct accepted"

lemma nearest_bound:
  "even win \<Longrightarrow> c < expected + win \<Longrightarrow>
   nearest expected win c \<le> expected + win div 2 \<or> nearest expected win c < win"
  by (auto simp: nearest_def elim!: evenE)

lemma decoded_near:
  assumes "1 \<le> len" and "len \<le> 4" and "largest < 2 ^ 63" and "unat t < 2 ^ (8 * len)"
  shows "unat (decode_pkt_num (of_nat largest) t len) < largest + 2 ^ 32"
proof -
  let ?W = "2 ^ (8 * len) :: nat"
  have "?W \<le> 2 ^ 32" using assms(2) power_increasing [of "8 * len" 32 "2 :: nat"] by simp
  moreover have "(largest + 1) div ?W * ?W + unat t < largest + 1 + ?W"
    using assms(4) by (metis add_less_le_mono add.commute div_times_less_eq_dividend)
  moreover have "even ?W" using assms(1) by simp
  ultimately show ?thesis
    using decode_nearest [of len largest "unat t"] assms
      nearest_bound [of ?W "(largest + 1) div ?W * ?W + unat t" "largest + 1"]
    by (simp del: even_power) linarith
qed

lemma record_received_spec:
  assumes "space_inv acc s" and "pn \<notin> set acc" and "w_lower (ps_recv_pkt_num s) \<le> pn"
    and "pn < ps_largest_rx_pkt_num s + 2 ^ 32" and "ps_largest_rx_pkt_num s < 2 ^ 63"
  shows "\<exists>s'. record_received now pn ack probing s = Some s' \<and> space_inv (acc @ [pn]) s'
           \<and> ps_largest_rx_pkt_num s' = max (ps_largest_rx_pkt_num s) pn"
proof -
  obtain need_ack where need: "push_item pn (ps_recv_pkt_need_ack s) = Some need_ack"
    "range_set_inv need_ack" "members need_ack \<subseteq> members (ps_recv_pkt_need_ack s) \<union> {pn}"
    using range_set_insert_spec [of "ps_recv_pkt_need_ack s" pn "pn + 1"] assms(1,4,5) u64_exact(1) [of pn 1]
    by (auto simp: space_inv_def push_item_def)
  have "window_inv (insert pn (set acc)) (window_insert pn (ps_recv_pkt_num s))
      \<and> w_lower (window_insert pn (ps_recv_pkt_num s)) = max (w_lower (ps_recv_pkt_num s)) (pn - 127)"
    by (rule window_insert_spec) (use assms in \<open>auto simp: space_inv_def\<close>)
  moreover have "max (ps_largest_rx_pkt_num s - 127) (pn - 127) = max (ps_largest_rx_pkt_num s) pn - 127"
    by (simp add: max_def)
  ultimately show ?thesis
    using assms(1,2) need unfolding space_inv_def record_received_def Let_def
    by (auto simp: le_max_iff_disj)
qed

lemma receive_number_spec:
  assumes inv: "space_inv acc s" and "1 \<le> len" and "len \<le> 4" and "unat t < 2 ^ (8 * len)"
    and small: "ps_largest_rx_pkt_num s < 2 ^ 63"
  obtains (fresh_number) pn s' where "receive_number now t len ack probing s = Some (Some pn, s')"
      "space_inv (acc @ [pn]) s'" "ps_largest_rx_pkt_num s' < ps_largest_rx_pkt_num s + 2 ^ 32"
    | (seen) "receive_number now t len ack probing s = Some (None, s)"
proof -
  let ?pn = "unat (decode_pkt_num (of_nat (ps_largest_rx_pkt_num s)) t len)"
  have near: "?pn < ps_largest_rx_pkt_num s + 2 ^ 32"
    using decoded_near assms by blast
  have seen_iff: "window_contains ?pn (ps_recv_pkt_num s) \<longleftrightarrow>
      ?pn \<in> set acc \<or> ?pn < w_lower (ps_recv_pkt_num s)"
    using inv by (intro window_contains_iff) (simp add: space_inv_def)
  show thesis
  proof (cases "window_contains ?pn (ps_recv_pkt_num s)")
    case True
    then show thesis using seen by (simp add: receive_number_def rx_pkt_num_def Let_def)
  next
    case False
    then obtain s' where "record_received now ?pn ack probing s = Some s'" "space_inv (acc @ [?pn]) s'"
      "ps_largest_rx_pkt_num s' = max (ps_largest_rx_pkt_num s) ?pn"
      using record_received_spec [OF inv _ _ near small] seen_iff by (meson leI)
    with False near show thesis by (intro fresh_number) (auto simp: receive_number_def rx_pkt_num_def Let_def)
  qed
qed

lemma receive_numbers_spec:
  assumes "space_inv acc s" and "list_all arrival_ok arrivals"
    and "ps_largest_rx_pkt_num s + length arrivals * 2 ^ 32 < 2 ^ 63"
  shows "\<exists>new s'. receive_numbers arrivals s = Some (new, s') \<and> space_inv (acc @ new) s'"
  using assms
proof (induction arrivals arbitrary: acc s)
  case Nil
  then show ?case by simp
next
  case (Cons a arrivals)
  obtain now t len ack probing where a: "a = (now, t, len, ack, probing)" by (cases a)
  have ok: "1 \<le> len" "len \<le> 4" "unat t < 2 ^ (8 * len)" using Cons.prems(2) by (simp_all add: a)
  have small: "ps_largest_rx_pkt_num s < 2 ^ 63"
    and left: "ps_largest_rx_pkt_num s + 2 ^ 32 + length arrivals * 2 ^ 32 < 2 ^ 63"
    using Cons.prems(3) by simp_all
  show ?case
  proof (cases rule: receive_number_spec [OF Cons.prems(1) ok small, of now ack probing])
    case (1 pn s')
    moreover obtain new s'' where "receive_numbers arrivals s' = Some (new, s'')"
      "space_inv ((acc @ [pn]) @ new) s''"
      using Cons.IH [OF 1(2)] Cons.prems(2) 1(3) left by auto
    ultimately show ?thesis by (simp add: a)
  next
    case 2
    then show ?thesis using Cons.IH [OF Cons.prems(1)] Cons.prems(2) left by (auto simp: a)
  qed
qed

lemma space_inv_new: "space_inv [] (pkt_num_space_new now)"
  using window_inv_default range_set_inv_new [of MAX_ACK_RANGES]
  by (simp add: space_inv_def pkt_num_space_new_def pkt_num_window_default_def range_set_new_def
      MAX_ACK_RANGES_def MAX_INLINE_CAPACITY_def)

text \<open>
  C4: No packet is processed twice.  Whatever numbers of one to four bytes arrive, in any order and
  with any repetitions, nothing panics, the accepted packet numbers are distinct, only accepted
  numbers are acknowledged, and a number is refused later exactly if it was accepted before or lies
  at least 128 below the largest one accepted.
\<close>

theorem no_packet_twice:
  assumes "list_all arrival_ok arrivals" and "length arrivals < 2 ^ 31"
  shows "\<exists>accepted s. receive_numbers arrivals (pkt_num_space_new now) = Some (accepted, s)
           \<and> distinct accepted \<and> covered (range_set_iter (ps_recv_pkt_need_ack s)) \<subseteq> set accepted
           \<and> (\<forall>pn. window_contains pn (ps_recv_pkt_num s) \<longleftrightarrow>
                pn \<in> set accepted \<or> pn + 127 < ps_largest_rx_pkt_num s)"
proof -
  obtain accepted s where run: "receive_numbers arrivals (pkt_num_space_new now) = Some (accepted, s)"
    and inv: "space_inv accepted s"
    using receive_numbers_spec [OF space_inv_new assms(1), of now] assms(2)
    by (auto simp: pkt_num_space_new_def)
  have "window_contains pn (ps_recv_pkt_num s) \<longleftrightarrow>
      pn \<in> set accepted \<or> pn + 127 < ps_largest_rx_pkt_num s" for pn
    using inv window_contains_iff [of "set accepted" "ps_recv_pkt_num s" pn]
    by (auto simp: space_inv_def)
  with run inv show ?thesis by (auto simp: space_inv_def)
qed

theorem no_packet_twice_witness:
  "\<exists>accepted s. receive_numbers
       [(0, 5, 1, True, False), (1, 5, 1, True, False), (2, 0xfe, 1, True, False), (3, 0x120, 2, True, False),
        (4, 5, 1, False, True), (5, 0x1f, 1, True, False)] (pkt_num_space_new 0) = Some (accepted, s)
     \<and> distinct accepted"
proof -
  have "list_all arrival_ok
      [(0, 5, 1, True, False), (1, 5, 1, True, False), (2, 0xfe, 1, True, False), (3, 0x120, 2, True, False),
       (4, 5, 1, False, True), (5, 0x1f, 1, True, False)]"
    by simp
  from no_packet_twice [OF this, of 0] show ?thesis by (simp del: receive_numbers.simps) blast
qed

subsection \<open>Headers are read back\<close>

lemma read_u32_at [wire_read]:
  "read_u32 (cursor_at d (be_bytes 4 (unat v) @ r)) = Inr (v, cursor_at (d @ be_bytes 4 (unat v)) r)"
proof -
  have "be_val (be_bytes 4 (unat v)) = unat v"
    using unat_less_exp [of v] by simp
  then have "get_u 4 (cursor_at d (be_bytes 4 (unat v) @ r))
      = Inr (v, cursor_at (d @ be_bytes 4 (unat v)) r)"
    by (subst get_u_at) (simp_all del: be_bytes.simps be_val_be_bytes)
  then show ?thesis by (simp only: read_u32_def from_octets.simps)
qed

definition cid_ok :: "u32 \<Rightarrow> bytes \<Rightarrow> bool" where
  "cid_ok version cid \<longleftrightarrow> length cid \<le> (if version_is_supported version then 20 else 255)"

lemma read_cid_at [wire_read]:
  assumes "cid_ok version c"
  shows "read_cid version (cursor_at d (of_nat (length c) # c @ r))
       = Inr (c, cursor_at (d @ of_nat (length c) # c) r)"
proof -
  have n: "unat (of_nat (length c) :: u8) = length c"
    using assms by (simp add: cid_ok_def unat_of_nat split: if_splits)
  moreover have "\<not> (version_is_supported version \<and> MAX_CID_LEN < of_nat (length c))"
    using assms n by (simp add: cid_ok_def MAX_CID_LEN_def word_less_nat_alt split: if_splits)
  ultimately show ?thesis by (simp add: read_cid_def wire_read)
qed

text \<open>The first byte of a long header carries the form bit, the type and the number length.\<close>

lemma long_first:
  assumes "long_type_bits ty = Inr k" and "n \<le> 3"
  shows "is_long (0 OR of_nat n OR (FORM_BIT OR FIXED_BIT OR push_bit 4 k))"
    and "version \<noteq> 0 \<Longrightarrow>
         long_type version (0 OR of_nat n OR (FORM_BIT OR FIXED_BIT OR push_bit 4 k)) = Inr ty"
    and "(0 OR of_nat n OR (FORM_BIT OR FIXED_BIT OR push_bit 4 k)) AND PKT_NUM_MASK = of_nat n"
proof -
  have "n = 0 \<or> n = 1 \<or> n = 2 \<or> n = 3" using assms(2) by linarith
  with assms(1) show "is_long (0 OR of_nat n OR (FORM_BIT OR FIXED_BIT OR push_bit 4 k))"
    and "version \<noteq> 0 \<Longrightarrow>
         long_type version (0 OR of_nat n OR (FORM_BIT OR FIXED_BIT OR push_bit 4 k)) = Inr ty"
    and "(0 OR of_nat n OR (FORM_BIT OR FIXED_BIT OR push_bit 4 k)) AND PKT_NUM_MASK = of_nat n"
    by (cases ty; auto simp: is_long_def long_type_def FORM_BIT_def FIXED_BIT_def TYPE_MASK_def
        PKT_NUM_MASK_def Let_def)+
qed

definition short_first :: "nat \<Rightarrow> bool \<Rightarrow> u8" where
  "short_first n key_phase =
     (if key_phase then ((0 OR of_nat n) AND NOT FORM_BIT OR FIXED_BIT) OR KEY_PHASE_BIT
      else ((0 OR of_nat n) AND NOT FORM_BIT OR FIXED_BIT) AND NOT KEY_PHASE_BIT)"

lemma short_first_bits:
  assumes "n \<le> 3"
  shows "\<not> is_long (short_first n key_phase)"
    and "short_first n key_phase AND PKT_NUM_MASK = of_nat n"
    and "(short_first n key_phase AND KEY_PHASE_BIT \<noteq> 0) = key_phase"
proof -
  have "n = 0 \<or> n = 1 \<or> n = 2 \<or> n = 3" using assms by linarith
  then show "\<not> is_long (short_first n key_phase)"
    and "short_first n key_phase AND PKT_NUM_MASK = of_nat n"
    and "(short_first n key_phase AND KEY_PHASE_BIT \<noteq> 0) = key_phase"
    by (auto simp: short_first_def is_long_def FORM_BIT_def FIXED_BIT_def KEY_PHASE_BIT_def
        PKT_NUM_MASK_def)
qed

text \<open>
  The headers that can be written and read again, and what the reader sees of them before
  protection is removed: a short header carries neither version nor source ID, and only an Initial
  packet, which always has a token on the wire, and a Retry packet show one.
\<close>

definition header_ok :: "header \<Rightarrow> bool" where
  "header_ok h \<longleftrightarrow>
     h_pkt_num_len h \<le> 4
     \<and> (h_ty h \<noteq> Short \<longrightarrow>
          h_ty h \<noteq> VersionNegotiation \<and> h_version h \<noteq> 0
          \<and> cid_ok (h_version h) (h_dcid h) \<and> cid_ok (h_version h) (h_scid h)
          \<and> (case h_token h of None \<Rightarrow> h_ty h \<noteq> Retry | Some token \<Rightarrow> length token < 2 ^ 62))"

definition token_bytes :: "header \<Rightarrow> bytes" where
  "token_bytes h = (case h_token h of None \<Rightarrow> [] | Some token \<Rightarrow> token)"

definition header_seen :: "header \<Rightarrow> header" where
  "header_seen h =
     \<lparr>h_ty = h_ty h, h_version = (if h_ty h = Short then 0 else h_version h), h_dcid = h_dcid h,
      h_scid = (if h_ty h = Short then [] else h_scid h), h_pkt_num = 0, h_pkt_num_len = 0,
      h_token = (if h_ty h = Initial \<or> h_ty h = Retry then Some (token_bytes h) else None),
      h_versions = None, h_key_phase = False\<rparr>"

text \<open>Every header \<open>send_single\<close> builds is one of them.\<close>

lemma send_header_ok:
  assumes "version_is_supported version" and "length dcid \<le> 20" and "length scid \<le> 20"
    and "pn_len \<le> 4" and "\<forall>t. token = Some t \<longrightarrow> length t < 2 ^ 62"
    and "pkt_type \<noteq> Retry" and "pkt_type \<noteq> VersionNegotiation"
  shows "header_ok (send_header pkt_type version dcid scid pn_len token key_phase)"
  using assms
  by (auto simp: header_ok_def send_header_def cid_ok_def version_is_supported_def PROTOCOL_VERSION_V1_def
      split: option.split)

definition token_encoding :: "header \<Rightarrow> bytes" where
  "token_encoding h =
     (if h_ty h = Initial then varint_encoding (of_nat (length (token_bytes h))) @ token_bytes h
      else if h_ty h = Retry then token_bytes h else [])"

definition header_encoding :: "header \<Rightarrow> bytes" where
  "header_encoding h =
     (let n = h_pkt_num_len h - 1
      in if h_ty h = Short then short_first n (h_key_phase h) # h_dcid h
         else (case long_type_bits (h_ty h) of
                 Inl _ \<Rightarrow> []
               | Inr k \<Rightarrow>
                   (0 OR of_nat n OR (FORM_BIT OR FIXED_BIT OR push_bit 4 k))
                     # be_bytes 4 (unat (h_version h))
                     @ of_nat (length (h_dcid h)) # h_dcid h
                     @ of_nat (length (h_scid h)) # h_scid h @ token_encoding h))"

lemma token_length: "header_ok h \<Longrightarrow> h_ty h \<noteq> Short \<Longrightarrow> length (token_bytes h) < 2 ^ 62"
  by (auto simp: header_ok_def token_bytes_def split: option.splits)

lemma writes_token:
  assumes "header_ok h" and "h_ty h \<noteq> Short"
  shows "writes (write_token h) (token_encoding h)"
proof -
  let ?v = "token_bytes h"
  have ok: "varint_ok (of_nat (length ?v))" using token_length [OF assms] by (simp add: varint_ok_length)
  have two: "writes (in_turn [write_varint (of_nat (length ?v)), write_bytes ?v])
      (concat [varint_encoding (of_nat (length ?v)), ?v])"
    by (intro writes_in_turn) (simp add: writers ok)
  have none: "writes (write_varint 0) (varint_encoding 0)"
    by (rule writes_varint) (simp add: varint_ok_def)
  show ?thesis
  proof (cases "h_ty h")
    case Initial
    then show ?thesis using two none
      by (cases "h_token h") (simp_all add: writes_def write_token_def token_encoding_def token_bytes_def)
  next
    case Retry
    then obtain v where "h_token h = Some v" using assms by (cases "h_token h") (auto simp: header_ok_def)
    then show ?thesis using Retry writes_bytes [of v]
      by (simp add: writes_def write_token_def token_encoding_def token_bytes_def)
  qed (use writes_Nil in \<open>simp_all add: writes_def write_token_def token_encoding_def\<close>)
qed

lemma writes_header:
  assumes "header_ok h"
  shows "writes (header_to_bytes h) (header_encoding h)"
proof (cases "h_ty h = Short")
  case True
  have "writes (in_turn [write_u8 (short_first (h_pkt_num_len h - 1) (h_key_phase h)), write_bytes (h_dcid h)])
      (concat [[short_first (h_pkt_num_len h - 1) (h_key_phase h)], h_dcid h])"
    by (intro writes_in_turn) (simp add: writers)
  then show ?thesis
    using True
    by (cases "h_key_phase h")
       (simp_all add: writes_def header_to_bytes_def header_encoding_def short_first_def Let_def
         del: in_turn.simps)
next
  case False
  then obtain k where k: "long_type_bits (h_ty h) = Inr k"
    using assms by (cases "h_ty h") (auto simp: header_ok_def)
  let ?first = "0 OR of_nat (h_pkt_num_len h - 1) OR (FORM_BIT OR FIXED_BIT OR push_bit 4 k)"
  have "writes (in_turn
        [write_u8 ?first, write_uint 4 (h_version h), write_u8 (of_nat (length (h_dcid h))),
         write_bytes (h_dcid h), write_u8 (of_nat (length (h_scid h))), write_bytes (h_scid h),
         write_token h])
      (concat [[?first], be_bytes 4 (unat (h_version h)), [of_nat (length (h_dcid h))], h_dcid h,
         [of_nat (length (h_scid h))], h_scid h, token_encoding h])"
    using writes_token [OF assms False]
    by (intro writes_in_turn) (simp add: writers del: be_bytes.simps)
  then show ?thesis
    using False k by (simp add: writes_def header_to_bytes_def header_encoding_def Let_def
        del: be_bytes.simps in_turn.simps)
qed

lemma read_type_fields_at:
  assumes "header_ok h" and "h_ty h \<noteq> Short" and "h_ty h = Retry \<Longrightarrow> length r = TAG_LEN"
  shows "read_type_fields (h_ty h) (cursor_at d (token_encoding h @ r))
       = Inr ((h_token (header_seen h), None), cursor_at (d @ token_encoding h) r)"
proof -
  have len: "varint_ok (of_nat (length (token_bytes h)))"
    "unat (of_nat (length (token_bytes h)) :: u64) = length (token_bytes h)"
    using token_length [OF assms(1,2)] by (simp_all add: varint_ok_length unat_of_nat)
  show ?thesis
  proof (cases "h_ty h")
    case Initial
    then show ?thesis
      using len by (simp add: token_encoding_def header_seen_def read_varint_bytes_split wire_read)
  next
    case Retry
    then show ?thesis using assms(3) by (simp add: token_encoding_def header_seen_def wire_read)
  qed (use assms in \<open>simp_all add: token_encoding_def header_seen_def header_ok_def\<close>)
qed

lemma header_from_encoding:
  assumes "header_ok h" and "h_ty h = Retry \<Longrightarrow> length r = TAG_LEN"
    and "h_ty h = Short \<Longrightarrow> dcid_len = length (h_dcid h)"
  shows "header_from_bytes (cursor_at d (header_encoding h @ r)) dcid_len
       = Inr (header_seen h, cursor_at (d @ header_encoding h) r)"
proof (cases "h_ty h = Short")
  case True
  have "h_pkt_num_len h - 1 \<le> 3" using assms(1) by (auto simp: header_ok_def)
  with True show ?thesis
    using assms short_first_bits(1) [of "h_pkt_num_len h - 1" "h_key_phase h"]
    by (simp add: header_from_bytes_def header_encoding_def wire_read header_seen_def header_ok_def)
next
  case False
  then obtain k where k: "long_type_bits (h_ty h) = Inr k"
    using assms by (cases "h_ty h") (auto simp: header_ok_def)
  have n: "h_pkt_num_len h - 1 \<le> 3" "h_version h \<noteq> 0" "cid_ok (h_version h) (h_dcid h)"
    "cid_ok (h_version h) (h_scid h)"
    using assms False by (auto simp: header_ok_def)
  show ?thesis
    using False k long_first [OF k n(1)] n read_type_fields_at [OF assms(1) False assms(2)]
    by (simp add: header_from_bytes_def header_encoding_def wire_read header_seen_def
        del: be_bytes.simps or.left_neutral)
qed

text \<open>
  C24: A packet header is read back as far as the wire carries it.  For every header that can be
  sent, among them all that \<open>send_single\<close> builds, the encoder writes its bytes or reports a short
  buffer; the decoder recovers from them, whatever follows, type, destination ID and, of a long
  header, version, source ID and token, where an Initial packet without a token shows an empty one;
  and the first byte tells the length of the packet number.
\<close>

theorem header_round_trip:
  assumes "header_ok h"
  shows "\<exists>bs. (\<forall>d n. header_to_bytes h (fresh d n)
                = (if length bs \<le> n then Inr (fresh (d @ bs) (n - length bs)) else Inl (Error BufferTooShort)))
           \<and> (\<forall>r. (h_ty h = Retry \<longrightarrow> length r = TAG_LEN) \<longrightarrow>
                header_from_bytes (octets_with_slice (bs @ r)) (length (h_dcid h))
                  = Inr (header_seen h, cursor_at bs r))
           \<and> hd bs AND PKT_NUM_MASK = of_nat (h_pkt_num_len h - 1)"
proof -
  let ?bs = "header_encoding h"
  have "header_to_bytes h (fresh d n)
      = (if length ?bs \<le> n then Inr (fresh (d @ ?bs) (n - length ?bs)) else Inl (Error BufferTooShort))" for d n
    using writes_header [OF assms] by (simp add: writes_def octets_write_fresh)
  moreover have "header_from_bytes (octets_with_slice (?bs @ r)) (length (h_dcid h))
      = Inr (header_seen h, cursor_at ?bs r)" if "h_ty h = Retry \<longrightarrow> length r = TAG_LEN" for r
    using header_from_encoding [OF assms, of r "length (h_dcid h)" "[]"] that by (simp add: with_slice_at)
  moreover have "hd ?bs AND PKT_NUM_MASK = of_nat (h_pkt_num_len h - 1)"
    using assms short_first_bits [of "h_pkt_num_len h - 1" "h_key_phase h"]
      long_first(3) [of "h_ty h" _ "h_pkt_num_len h - 1"]
    by (cases "h_ty h") (auto simp: header_encoding_def header_ok_def)
  ultimately show ?thesis by blast
qed

definition sample_header :: header where
  "sample_header =
     \<lparr>h_ty = Initial, h_version = PROTOCOL_VERSION_V1, h_dcid = [1, 2, 3, 4], h_scid = [9], h_pkt_num = 7,
      h_pkt_num_len = 2, h_token = Some [5, 6], h_versions = None, h_key_phase = False\<rparr>"

theorem header_round_trip_witness:
  "(\<exists>bs. \<forall>r. header_from_bytes (octets_with_slice (bs @ r)) 3
       = Inr (header_seen (send_header Short 1 [1, 2, 3] [4, 5] 2 None True), cursor_at bs r))
   \<and> (\<exists>bs. \<forall>r. header_from_bytes (octets_with_slice (bs @ r)) 3
       = Inr (header_seen (send_header Initial 1 [1, 2, 3] [4, 5] 4 None False), cursor_at bs r))
   \<and> h_token (header_seen (send_header Initial 1 [1, 2, 3] [4, 5] 4 None False)) = Some []"
proof -
  have ok: "header_ok (send_header Short 1 [1, 2, 3] [4, 5] 2 None True)"
    "header_ok (send_header Initial 1 [1, 2, 3] [4, 5] 4 None False)"
    by (rule send_header_ok; simp add: version_is_supported_def PROTOCOL_VERSION_V1_def)+
  have views: "length (h_dcid (send_header ty 1 [1, 2, 3] [4, 5] n None p)) = 3"
    "h_ty (send_header ty 1 [1, 2, 3] [4, 5] n None p) = ty" for ty n p
    by (simp_all add: send_header_def)
  have "h_token (header_seen (send_header Initial 1 [1, 2, 3] [4, 5] 4 None False)) = Some []" by code_simp
  moreover have "\<exists>bs. \<forall>r. header_from_bytes (octets_with_slice (bs @ r)) 3
       = Inr (header_seen (send_header Short 1 [1, 2, 3] [4, 5] 2 None True), cursor_at bs r)"
    using header_round_trip [OF ok(1), unfolded views] by auto
  moreover have "\<exists>bs. \<forall>r. header_from_bytes (octets_with_slice (bs @ r)) 3
       = Inr (header_seen (send_header Initial 1 [1, 2, 3] [4, 5] 4 None False), cursor_at bs r)"
    using header_round_trip [OF ok(2), unfolded views] by auto
  ultimately show ?thesis by blast
qed

subsection \<open>Protection is undone\<close>

definition xor_with :: "bytes \<Rightarrow> bytes \<Rightarrow> bytes" where
  "xor_with hp v = map2 (XOR) v (drop 1 hp)"

lemma length_xor_with [simp]: "length v < length hp \<Longrightarrow> length (xor_with hp v) = length v"
  by (simp add: xor_with_def)

lemma xor_with_twice: "length v < length hp \<Longrightarrow> xor_with hp (xor_with hp v) = v"
  by (rule nth_equalityI) (simp_all add: xor_with_def xor.assoc)

lemma xor_run_middle:
  "length v < length hp \<Longrightarrow> xor_run (length d) (length v) hp (d @ v @ r) = d @ xor_with hp v @ r"
  by (auto simp: xor_run_def xor_with_def nth_append intro!: nth_equalityI)

lemma is_long_bit: "is_long f \<longleftrightarrow> bit f 7"
  by (simp add: is_long_def FORM_BIT_def bit_iff_and_push_bit_not_eq_0)

lemma is_long_mask: "is_long (f XOR (m AND 0x0f)) = is_long f" "is_long (f XOR (m AND 0x1f)) = is_long f"
  by (simp_all add: is_long_bit bit_simps)

lemma mask_first_twice: "mask_first (mask_first f hp) hp = f"
  by (simp add: mask_first_def is_long_mask xor.assoc)

text \<open>
  What the code relies on of the two keys: the sender's AEAD keeps the length and adds a tag of 16
  bytes, the receiver's opens it, and both derive the same five-byte mask from a sample.
\<close>

definition keys_match :: "packet_key \<Rightarrow> packet_key \<Rightarrow> bool" where
  "keys_match snd_key rcv_key \<longleftrightarrow>
     length (pk_iv snd_key) = MAX_NONCE_LEN \<and> pk_iv rcv_key = pk_iv snd_key
     \<and> (\<forall>nonce ad p. \<exists>ct tag. pk_seal snd_key nonce ad p [] = Some (ct, tag)
          \<and> length ct = length p \<and> length tag = TAG_LEN \<and> pk_open rcv_key nonce ad (ct @ tag) = Some p)
     \<and> (\<forall>s. length s = SAMPLE_LEN \<longrightarrow>
          (\<exists>hp. pk_mask snd_key s = Inr hp \<and> pk_mask rcv_key s = Inr hp \<and> length hp = 5))"

lemma seal_open:
  assumes "keys_match snd_key rcv_key" and "TAG_LEN \<le> length room"
  obtains ct where "length ct = length p + TAG_LEN"
    "seal_with_u64_counter snd_key pn ad (p @ room) (length p) None
       = Inr (length p + TAG_LEN, ct @ drop TAG_LEN room)"
    "open_with_u64_counter rcv_key pn ad ct = Inr (length p, p @ drop (length p) ct)"
proof -
  obtain nonce where nonce: "make_nonce (pk_iv snd_key) pn = Some nonce"
    "make_nonce (pk_iv rcv_key) pn = Some nonce"
    using assms(1) by (simp add: keys_match_def make_nonce_def)
  obtain c tag where c: "pk_seal snd_key nonce ad p [] = Some (c, tag)" "length c = length p"
    "length tag = TAG_LEN" "pk_open rcv_key nonce ad (c @ tag) = Some p"
    using assms(1) unfolding keys_match_def by metis
  show thesis
    by (rule that [of "c @ tag"])
       (use c nonce assms(2) in
         \<open>simp_all add: seal_with_u64_counter_def open_with_u64_counter_def Let_def\<close>)
qed

lemma encrypt_hdr_eq:
  assumes "length v \<le> 4" and "pk_mask key (take SAMPLE_LEN (drop (4 - length v) payload)) = Inr hp"
    and "20 \<le> length v + length payload" and "length hp = 5"
  shows "encrypt_hdr (f # t @ v) (length v) payload key = Inr (mask_first f hp # t @ xor_with hp v)"
proof -
  have sample: "slice_range payload (4 - length v) (16 + (4 - length v))
      = Some (take SAMPLE_LEN (drop (4 - length v) payload))"
    using assms(1,3) by (auto simp: slice_range_def SAMPLE_LEN_def)
  have "length v < length hp" using assms(1,4) by simp
  from xor_run_middle [OF this, of "mask_first f hp # t" "[]"]
  show ?thesis
    using assms(1,2) sample by (simp add: encrypt_hdr_def MAX_PKT_NUM_LEN_def SAMPLE_LEN_def)
qed

lemma decrypt_hdr_eq:
  assumes "pk_mask key (take SAMPLE_LEN (drop (4 - length v) ct)) = Inr hp" and "length hp = 5"
    and "1 \<le> length v" and "length v \<le> 4" and "20 \<le> length v + length ct"
    and "unat ((f AND PKT_NUM_MASK) + 1) = length v"
  shows "\<exists>hdr'. decrypt_hdr (cursor_at (mask_first f hp # t) (xor_with hp v @ ct)) hdr key
             = Inr (hdr', cursor_at (f # t @ v) ct)
           \<and> h_pkt_num hdr' = of_nat (be_val v) \<and> h_pkt_num_len hdr' = length v
           \<and> h_ty hdr' = h_ty hdr
           \<and> (h_ty hdr = Short \<longrightarrow> h_key_phase hdr' = (f AND KEY_PHASE_BIT \<noteq> 0))"
proof -
  let ?d = "mask_first f hp # t"
  have len: "length (xor_with hp v) = length v" "length v < length hp" using assms by simp_all
  have sample: "take SAMPLE_LEN (drop MAX_PKT_NUM_LEN (xor_with hp v @ ct))
      = take SAMPLE_LEN (drop (4 - length v) ct)"
    using assms(4) len by (simp add: MAX_PKT_NUM_LEN_def)
  have run: "xor_run (length ?d) (length v) hp (?d @ xor_with hp v @ ct) = ?d @ v @ ct"
    using xor_run_middle [of "xor_with hp v" hp ?d ct] len xor_with_twice [of v hp] by simp
  have unmask: "cursor_at ?d (xor_with hp v @ ct)\<lparr>o_buf := ?d @ v @ ct\<rparr> = cursor_at ?d (v @ ct)"
    and first: "cursor_at (?d @ v) ct\<lparr>o_buf := (?d @ v @ ct)[0 := f]\<rparr> = cursor_at (f # t @ v) ct"
    by (simp_all add: cursor_at_def)
  show ?thesis
    using assms run sample len read_pkt_num_at [of v "length v" ?d ct]
    by (simp add: decrypt_hdr_def mask_first_twice MAX_PKT_NUM_LEN_def SAMPLE_LEN_def Let_def
        unmask [unfolded append.simps append_assoc] first [unfolded append.simps append_assoc list_update.simps nat.case])
qed

text \<open>
  C15: Packet protection is undone by the receiver: for matching keys, the packet that
  \<open>encrypt_pkt\<close> leaves in the buffer, given to \<open>decrypt_hdr\<close> and \<open>decrypt_pkt\<close>, yields the
  packet number bytes, their length and the key phase of the sender, and exactly the payload.
\<close>

theorem protected_packet_opens:
  assumes "keys_match snd_key rcv_key" and "1 \<le> pn_len" and "pn_len \<le> MAX_PKT_NUM_LEN"
    and "unat ((f AND PKT_NUM_MASK) + 1) = pn_len"
    and "4 \<le> pn_len + length payload" and "TAG_LEN \<le> length room"
  shows "\<exists>sent hdr' b.
           encrypt_pkt ((f # t) @ be_bytes pn_len (unat pn) @ payload @ room) pn pn_len (length payload)
             (length (f # t) + pn_len) None snd_key
             = Inr (length (f # t) + pn_len + length payload + TAG_LEN, sent @ drop TAG_LEN room)
           \<and> length sent = length (f # t) + pn_len + length payload + TAG_LEN
           \<and> decrypt_hdr (cursor_at (take (length (f # t)) sent) (drop (length (f # t)) sent)) hdr rcv_key
             = Inr (hdr', b)
           \<and> h_pkt_num hdr' = of_nat (unat pn mod 256 ^ pn_len) \<and> h_pkt_num_len hdr' = pn_len
           \<and> (h_ty hdr = Short \<longrightarrow> h_key_phase hdr' = (f AND KEY_PHASE_BIT \<noteq> 0))
           \<and> (\<exists>b'. decrypt_pkt b pn pn_len (pn_len + length payload + TAG_LEN) rcv_key = Inr (payload, b'))"
proof -
  let ?v = "be_bytes pn_len (unat pn)"
  obtain ct where ct: "length ct = length payload + TAG_LEN"
    "seal_with_u64_counter snd_key pn (f # t @ ?v) (payload @ room) (length payload) None
       = Inr (length payload + TAG_LEN, ct @ drop TAG_LEN room)"
    "open_with_u64_counter rcv_key pn (f # t @ ?v) ct
       = Inr (length payload, payload @ drop (length payload) ct)"
    using seal_open [OF assms(1,6)] by metis
  have lens: "pn_len \<le> 4" "20 \<le> pn_len + length ct"
    using assms(3,5) ct(1) by (simp_all add: MAX_PKT_NUM_LEN_def TAG_LEN_def)
  let ?sample = "take SAMPLE_LEN (drop (4 - pn_len) ct)"
  have "length ?sample = SAMPLE_LEN" using lens by (simp add: SAMPLE_LEN_def)
  then obtain hp where hp: "pk_mask snd_key ?sample = Inr hp" "pk_mask rcv_key ?sample = Inr hp"
    "length hp = 5"
    using assms(1) unfolding keys_match_def by metis
  have same: "take SAMPLE_LEN (drop (4 - pn_len) (ct @ drop TAG_LEN room)) = ?sample"
    using lens by (simp add: SAMPLE_LEN_def)
  let ?sent = "mask_first f hp # t @ xor_with hp ?v @ ct"
  have enc: "encrypt_hdr (f # t @ ?v) pn_len (ct @ drop TAG_LEN room) snd_key
      = Inr (mask_first f hp # t @ xor_with hp ?v)"
    using encrypt_hdr_eq [of ?v snd_key "ct @ drop TAG_LEN room" hp f t, unfolded length_be_bytes same]
      hp lens by simp
  obtain hdr' where dec: "decrypt_hdr (cursor_at (mask_first f hp # t) (xor_with hp ?v @ ct)) hdr rcv_key
        = Inr (hdr', cursor_at (f # t @ ?v) ct)"
    "h_pkt_num hdr' = of_nat (be_val ?v)" "h_pkt_num_len hdr' = pn_len"
    "h_ty hdr = Short \<longrightarrow> h_key_phase hdr' = (f AND KEY_PHASE_BIT \<noteq> 0)"
    using decrypt_hdr_eq [of rcv_key ?v ct hp f t hdr] hp lens assms(2,4) by auto
  have xlen: "length (xor_with hp ?v) = pn_len" using hp(3) lens by simp
  have pkt: "encrypt_pkt ((f # t) @ ?v @ payload @ room) pn pn_len (length payload)
      (length (f # t) + pn_len) None snd_key
      = Inr (length (f # t) + pn_len + length payload + TAG_LEN, ?sent @ drop TAG_LEN room)"
    using enc ct(2) by (simp add: encrypt_pkt_def)
  have plain: "cursor_at (f # t @ ?v) ct\<lparr>o_buf := f # t @ ?v @ payload @ drop (length payload) ct\<rparr>
      = cursor_at (f # t @ ?v) (payload @ drop (length payload) ct)"
    by (simp add: cursor_at_def)
  have opened: "\<exists>b'. decrypt_pkt (cursor_at (f # t @ ?v) ct) pn pn_len
      (pn_len + length payload + TAG_LEN) rcv_key = Inr (payload, b')"
    using ct(1,3) by (simp add: decrypt_pkt_def wire_read plain)
  have cur: "cursor_at (take (length (f # t)) ?sent) (drop (length (f # t)) ?sent)
      = cursor_at (mask_first f hp # t) (xor_with hp ?v @ ct)" by simp
  show ?thesis
    by (rule exI [of _ ?sent], rule exI [of _ hdr'], rule exI [of _ "cursor_at (f # t @ ?v) ct"],
        intro conjI)
       (use pkt xlen ct(1) dec opened cur in \<open>simp_all del: be_bytes.simps\<close>)
qed

definition sample_key :: packet_key where
  "sample_key =
     \<lparr>pk_iv = replicate 12 3,
      pk_seal = (\<lambda>nonce ad p extra. Some (map ((XOR) 0x55) p, replicate TAG_LEN (of_nat (length ad)))),
      pk_open = (\<lambda>nonce ad c. Some (map ((XOR) 0x55) (take (length c - TAG_LEN) c))),
      pk_mask = (\<lambda>s. Inr (take 5 s))\<rparr>"

theorem protected_packet_opens_witness:
  "\<exists>sent hdr' b. decrypt_hdr (cursor_at (take 4 sent) (drop 4 sent)) (header_seen sample_header) sample_key
        = Inr (hdr', b)
     \<and> h_pkt_num hdr' = 0x2345
     \<and> (\<exists>b'. decrypt_pkt b 0x12345 2 21 sample_key = Inr ([7, 8, 9], b'))"
proof -
  have "keys_match sample_key sample_key"
    by (simp add: keys_match_def sample_key_def MAX_NONCE_LEN_def SAMPLE_LEN_def TAG_LEN_def o_def
        xor.assoc [symmetric])
  moreover have "length [0x41, 1, 2, 3 :: u8] = 4" "length [7, 8, 9 :: u8] = 3" by simp_all
  moreover note protected_packet_opens [where snd_key = sample_key and rcv_key = sample_key and pn_len = 2 and f = "0x41" and payload = "[7, 8, 9]"
      and room = "replicate 16 0" and t = "[1, 2, 3]" and pn = "0x12345" and hdr = "header_seen sample_header"]
  ultimately show ?thesis
    by (simp add: MAX_PKT_NUM_LEN_def PKT_NUM_MASK_def TAG_LEN_def del: list.size) blast
qed

text \<open>
  C35: Two packets protected with the same key never share a nonce: distinct packet numbers give
  distinct nonces.
\<close>

theorem nonces_are_distinct:
  assumes "length iv = MAX_NONCE_LEN" and "pn \<noteq> pn'"
  shows "make_nonce iv pn \<noteq> None \<and> make_nonce iv pn \<noteq> make_nonce iv pn'"
proof -
  let ?x = "\<lambda>bs. map2 (XOR) (drop 4 iv) bs"
  have undo: "?x (?x bs) = bs" if "length bs = 8" for bs
    using assms(1) that
    by (intro nth_equalityI) (simp_all add: MAX_NONCE_LEN_def xor.assoc [symmetric])
  have "unat p = be_val (be_bytes 8 (unat p))" for p :: u64
    using unat_less_exp [of p] unfolding be_val_be_bytes by simp
  then have "be_bytes 8 (unat pn) \<noteq> be_bytes 8 (unat pn')"
    using assms(2) by (metis word_unat_eq_iff)
  then have "?x (be_bytes 8 (unat pn)) \<noteq> ?x (be_bytes 8 (unat pn'))"
    using undo by (metis length_be_bytes)
  with assms(1) show ?thesis by (simp only: make_nonce_def) simp
qed

theorem nonces_are_distinct_witness:
  "make_nonce RETRY_INTEGRITY_NONCE_V1 0 \<noteq> make_nonce RETRY_INTEGRITY_NONCE_V1 1"
  using nonces_are_distinct [of RETRY_INTEGRITY_NONCE_V1 0 1]
  by (simp add: RETRY_INTEGRITY_NONCE_V1_def MAX_NONCE_LEN_def)

subsection \<open>Retry packets verify\<close>

lemma retry_tag_prefix:
  "o_off b = o_off b' \<Longrightarrow> take (o_off b) (o_buf b) = take (o_off b') (o_buf b') \<Longrightarrow>
   compute_retry_integrity_tag new_key b odcid version = compute_retry_integrity_tag new_key b' odcid version"
  by (simp add: compute_retry_integrity_tag_def Let_def)

text \<open>What is documented of AES-GCM: sealing an empty message gives no ciphertext and a 16-byte tag.\<close>

definition seals_empty :: "(bytes \<Rightarrow> bytes \<Rightarrow> packet_key quic_result) \<Rightarrow> bool" where
  "seals_empty new_key \<longleftrightarrow>
     (\<forall>k iv key nonce ad. new_key k iv = Inr key \<longrightarrow>
        (\<exists>tag. pk_seal key nonce ad [] [] = Some ([], tag) \<and> length tag = TAG_LEN))"

lemma retry_tag_length:
  assumes "seals_empty new_key" and "compute_retry_integrity_tag new_key b odcid version = Inr tag"
  shows "length tag = TAG_LEN"
proof -
  obtain key ad n where key: "new_key RETRY_INTEGRITY_KEY_V1 RETRY_INTEGRITY_NONCE_V1 = Inr key"
    and "seal_with_u64_counter key 0 ad (replicate TAG_LEN 0) 0 None = Inr (n, tag)"
    using assms(2) by (auto simp: compute_retry_integrity_tag_def Let_def split: if_splits)
  then obtain nonce out t where "pk_seal key nonce ad [] [] = Some (out, t)"
    "tag = out @ t @ drop (length out + length t) (replicate TAG_LEN 0)"
    by (auto simp: seal_with_u64_counter_def Let_def split: if_splits option.splits)
  moreover obtain tag' where "pk_seal key nonce ad [] [] = Some ([], tag')" "length tag' = TAG_LEN"
    using assms(1) key unfolding seals_empty_def by metis
  ultimately show ?thesis by simp
qed

text \<open>
  C32: A Retry packet a server writes is accepted by the client: its header is read back with the
  token and the new connection ID, and the integrity check over the original connection ID
  succeeds.
\<close>

theorem retry_is_accepted:
  assumes "seals_empty new_key" and "retry new_key scid dcid new_scid token version out = Inr (n, buf)"
    and "length scid \<le> 20" and "length new_scid \<le> 20" and "length token < 2 ^ 62"
  shows "\<exists>hdr b. header_from_bytes (octets_with_slice (take n buf)) local_len = Inr (hdr, b)
           \<and> h_ty hdr = Retry \<and> h_token hdr = Some token \<and> h_dcid hdr = scid \<and> h_scid hdr = new_scid
           \<and> verify_retry_integrity new_key b dcid version = Inr ()"
proof -
  let ?h = "\<lparr>h_ty = Retry, h_version = version, h_dcid = scid, h_scid = new_scid, h_pkt_num = 0,
      h_pkt_num_len = 0, h_token = Some token, h_versions = None, h_key_phase = False\<rparr>"
  let ?e = "header_encoding ?h"
  obtain b tag where sup: "version_is_supported version"
    and b: "header_to_bytes ?h (octets_with_slice out) = Inr b"
    and tag: "compute_retry_integrity_tag new_key b dcid version = Inr tag"
    and res: "write_bytes tag b = Inr \<lparr>o_buf = buf, o_off = n\<rparr>"
    using assms(2)
    by (auto simp: retry_def Let_def split: if_splits)
  have ok: "header_ok ?h"
    using sup assms(3-5)
    by (simp add: header_ok_def cid_ok_def version_is_supported_def PROTOCOL_VERSION_V1_def)
  have "b = octets_write ?e (octets_with_slice out)" "length ?e \<le> length out"
    using writes_header [OF ok] b
    by (auto simp: writes_def octets_wf_def octets_with_slice_def o_cap_def split: if_splits)
  then have b_eq: "o_off b = length ?e" "o_buf b = ?e @ drop (length ?e) out" "octets_wf b"
    by (simp_all add: octets_write_def octets_with_slice_def octets_wf_def)
  have len: "length tag = TAG_LEN" using retry_tag_length [OF assms(1) tag] .
  have "octets_write tag b = \<lparr>o_buf = buf, o_off = n\<rparr>"
    using writes_bytes [of tag] res b_eq(3) by (auto simp: writes_def split: if_splits)
  then have "buf = o_buf (octets_write tag b)" "n = o_off (octets_write tag b)" by simp_all
  then have pkt: "take n buf = ?e @ tag" using b_eq by (simp add: octets_write_def)
  have parsed: "header_from_bytes (octets_with_slice (take n buf)) local_len
      = Inr (header_seen ?h, cursor_at ?e tag)"
    using header_from_encoding [OF ok, of tag local_len "[]"] len pkt by (simp add: with_slice_at)
  have "compute_retry_integrity_tag new_key (cursor_at ?e tag) dcid version = Inr tag"
    using retry_tag_prefix [of "cursor_at ?e tag" b new_key dcid version] b_eq tag by simp
  then have "verify_retry_integrity new_key (cursor_at ?e tag) dcid version = Inr ()"
    using len by (simp add: verify_retry_integrity_def verify_slices_are_equal_def slice_range_def)
  then show ?thesis using parsed by (simp add: header_seen_def token_bytes_def)
qed

theorem retry_is_accepted_witness:
  "\<exists>n buf hdr b. retry (\<lambda>_ _. Inr sample_key) [1] [2, 3] [4] [5, 6] 1 (replicate 40 0) = Inr (n, buf)
     \<and> header_from_bytes (octets_with_slice (take n buf)) 0 = Inr (hdr, b) \<and> h_token hdr = Some [5, 6]
     \<and> verify_retry_integrity (\<lambda>_ _. Inr sample_key) b [2, 3] 1 = Inr ()"
proof -
  have law: "seals_empty (\<lambda>_ _. Inr sample_key)" by (simp add: seals_empty_def sample_key_def)
  have "case retry (\<lambda>_ _. Inr sample_key) [1] [2, 3] [4] [5, 6] 1 (replicate 40 0) of
      Inl _ \<Rightarrow> False | Inr _ \<Rightarrow> True" by code_simp
  then obtain n buf where
    "retry (\<lambda>_ _. Inr sample_key) [1] [2, 3] [4] [5, 6] 1 (replicate 40 0) = Inr (n, buf)"
    by (auto split: sum.splits)
  with retry_is_accepted [OF law this, of 0] show ?thesis by auto
qed

subsection \<open>Every number is sent or skipped once\<close>

record sender =
  sn_manager :: pkt_num_manager
  sn_next_pkt_num :: nat
  sn_sent :: "nat list"
  sn_skipped :: "nat list"

definition sender_new :: sender where
  "sender_new = \<lparr>sn_manager = pkt_num_manager_new, sn_next_pkt_num = 0, sn_sent = [], sn_skipped = []\<rparr>"

text \<open>
  The steps of a connection that concern packet numbers: \<open>send_single\<close> takes a number and sends a
  packet, or gives up after having taken one, and an acknowledgement arrives.
\<close>

definition newly_skipped :: "nat \<Rightarrow> nat \<Rightarrow> nat list" where
  "newly_skipped before pn = (if pn = before then [] else [before])"

inductive sender_step :: "sender \<Rightarrow> sender \<Rightarrow> bool" where
  sent: "sender_step s (s\<lparr>sn_manager := m', sn_next_pkt_num := next' + 1, sn_sent := sn_sent s @ [pn],
             sn_skipped := sn_skipped s @ newly_skipped (sn_next_pkt_num s) pn\<rparr>)"
  if "take_pkt_num completed (sn_manager s, sn_next_pkt_num s) = Some (pn, m, next')"
    and "manager_on_packet_sent draws cwnd max_datagram_size completed m = Some m'"
| gave_up: "sender_step s (s\<lparr>sn_manager := m, sn_next_pkt_num := next',
             sn_skipped := sn_skipped s @ newly_skipped (sn_next_pkt_num s) pn\<rparr>)"
  if "take_pkt_num completed (sn_manager s, sn_next_pkt_num s) = Some (pn, m, next')"
| acked: "sender_step s (s\<lparr>sn_manager := m\<rparr>)"
  if "validate_skip largest_acked (sn_manager s) = Some m"

definition sender_inv :: "sender \<Rightarrow> bool" where
  "sender_inv s \<longleftrightarrow>
     distinct (sn_sent s @ sn_skipped s) \<and> set (sn_sent s @ sn_skipped s) = {..<sn_next_pkt_num s}
     \<and> (m_skip_pn (sn_manager s) = None \<or> m_skip_pn_counter (sn_manager s) = None)
     \<and> (\<forall>k. m_skip_pn (sn_manager s) = Some k \<longrightarrow> k \<in> set (sn_skipped s))"

lemma take_pkt_num_spec:
  assumes "m_skip_pn m = None \<or> m_skip_pn_counter m = None"
  obtains "take_pkt_num completed (m, n) = Some (n, m, n)"
    | m' where "take_pkt_num completed (m, n) = Some (n + 1, m', n + 1)"
      "m' = \<lparr>m_skip_pn = Some n, m_skip_pn_counter = None\<rparr>"
  using assms
  by (cases m) (fastforce simp: take_pkt_num_def should_skip_pn_def set_skip_pn_def split: option.splits if_splits)

lemma manager_on_packet_sent_keeps:
  assumes "manager_on_packet_sent draws cwnd mds completed m = Some m'"
    and "m_skip_pn m = None \<or> m_skip_pn_counter m = None"
  shows "m_skip_pn m' = m_skip_pn m \<and> (m_skip_pn m' = None \<or> m_skip_pn_counter m' = None)"
  using assms
  by (auto simp: manager_on_packet_sent_def should_arm_skip_counter_def arm_skip_counter_def Let_def
      split: option.splits if_splits)

lemma sender_inv_bound:
  "sender_inv s \<Longrightarrow> n \<in> set (sn_sent s) \<or> n \<in> set (sn_skipped s) \<Longrightarrow> n < sn_next_pkt_num s"
  unfolding sender_inv_def by auto

lemma sender_inv_step:
  assumes "sender_step s s'" and "sender_inv s"
  shows "sender_inv s'"
  using assms
proof (cases rule: sender_step.cases)
  case (sent completed pn m next' draws cwnd max_datagram_size m')
  have one: "m_skip_pn (sn_manager s) = None \<or> m_skip_pn_counter (sn_manager s) = None"
    using assms(2) by (simp add: sender_inv_def)
  have "m_skip_pn m = None \<or> m_skip_pn_counter m = None"
    by (rule take_pkt_num_spec [OF one, of completed "sn_next_pkt_num s"]) (use sent one in auto)
  note keeps = manager_on_packet_sent_keeps [OF sent(3) this]
  show ?thesis
    by (rule take_pkt_num_spec [OF one, of completed "sn_next_pkt_num s"])
       (use sent keeps assms(2) sender_inv_bound [OF assms(2)] in
         \<open>fastforce simp: sender_inv_def newly_skipped_def lessThan_Suc\<close>)+
next
  case (gave_up completed pn m next')
  have one: "m_skip_pn (sn_manager s) = None \<or> m_skip_pn_counter (sn_manager s) = None"
    using assms(2) by (simp add: sender_inv_def)
  show ?thesis
    by (rule take_pkt_num_spec [OF one, of completed "sn_next_pkt_num s"])
       (use gave_up assms(2) sender_inv_bound [OF assms(2)] in
         \<open>fastforce simp: sender_inv_def newly_skipped_def lessThan_Suc\<close>)+
next
  case (acked largest_acked m)
  then show ?thesis
    using assms(2)
    by (auto simp: sender_inv_def validate_skip_def set_skip_pn_def split: option.splits if_splits)
qed

lemma sender_inv_new: "sender_inv sender_new"
  by (simp add: sender_inv_def sender_new_def pkt_num_manager_new_def)

lemma sender_inv_reachable: "sender_step\<^sup>*\<^sup>* sender_new s \<Longrightarrow> sender_inv s"
  by (induction rule: rtranclp_induct) (auto intro: sender_inv_step sender_inv_new)

text \<open>
  C28: In every state a connection can reach by sending, giving up and receiving acknowledgements,
  each packet number below the next one was either used for exactly one packet or skipped, never
  both; the number that must not be acknowledged was never sent; and taking the next number never
  fails an assertion.
\<close>

theorem skipped_numbers_are_never_sent:
  assumes "sender_step\<^sup>*\<^sup>* sender_new s"
  shows "distinct (sn_sent s @ sn_skipped s) \<and> set (sn_sent s @ sn_skipped s) = {..<sn_next_pkt_num s}
         \<and> (\<forall>k. m_skip_pn (sn_manager s) = Some k \<longrightarrow> k \<notin> set (sn_sent s))
         \<and> take_pkt_num completed (sn_manager s, sn_next_pkt_num s) \<noteq> None"
proof -
  have inv: "sender_inv s" using sender_inv_reachable [OF assms] .
  then have "m_skip_pn (sn_manager s) = None \<or> m_skip_pn_counter (sn_manager s) = None"
    by (simp add: sender_inv_def)
  then have "take_pkt_num completed (sn_manager s, sn_next_pkt_num s) \<noteq> None"
    by (rule take_pkt_num_spec [of _ completed "sn_next_pkt_num s"]) simp_all
  then show ?thesis using inv by (auto simp: sender_inv_def)
qed

theorem skipped_numbers_are_never_sent_witness:
  "\<exists>s. sn_sent s = [0] \<and> sender_step\<^sup>*\<^sup>* sender_new s \<and> take_pkt_num True (sn_manager s, sn_next_pkt_num s) \<noteq> None"
proof -
  have "take_pkt_num True (sn_manager sender_new, sn_next_pkt_num sender_new) = Some (0, pkt_num_manager_new, 0)"
    by code_simp
  moreover have "manager_on_packet_sent [7] 12000 1200 True pkt_num_manager_new
      = Some \<lparr>m_skip_pn = None, m_skip_pn_counter = Some 25\<rparr>"
    by code_simp
  ultimately have "sender_step sender_new
      (sender_new\<lparr>sn_manager := \<lparr>m_skip_pn = None, m_skip_pn_counter = Some 25\<rparr>, sn_next_pkt_num := 0 + 1,
        sn_sent := sn_sent sender_new @ [0],
        sn_skipped := sn_skipped sender_new @ newly_skipped (sn_next_pkt_num sender_new) 0\<rparr>)"
    (is "sender_step _ ?s") by (rule sender_step.sent)
  then have reach: "sender_step\<^sup>*\<^sup>* sender_new ?s" by (rule r_into_rtranclp)
  moreover have "sn_sent ?s = [0]" by (simp add: sender_new_def)
  ultimately show ?thesis using skipped_numbers_are_never_sent [OF reach, of True] by blast
qed

lemma rand_u64_uniform_less: "rand_u64_uniform draws limit = Some r \<Longrightarrow> r < limit"
  by (induction draws limit rule: rand_u64_uniform.induct)
     (auto simp: Let_def not_le mult.commute intro: less_mult_imp_div_less split: if_splits)

text \<open>
  The distance to the next skipped packet number stays within its bounds, whatever the random
  generator returns: at least 20 plus half a congestion window of packets, at most 20 plus two.
\<close>

lemma skip_distance_bounds:
  assumes "arm_skip_counter draws cwnd max_datagram_size m = Some m'"
  shows "\<exists>c. m_skip_pn_counter m' = Some c
           \<and> MIN_SKIP_COUNTER_VALUE + cwnd div max_datagram_size div 2 \<le> c
           \<and> c \<le> MIN_SKIP_COUNTER_VALUE + 2 * (cwnd div max_datagram_size)"
  using assms
  by (auto simp: arm_skip_counter_def Let_def split: if_splits dest!: rand_u64_uniform_less)

subsection \<open>Hostile headers\<close>

lemma read_u32_no_panic: "read_u32 b \<noteq> Inl Panic"
  by (auto simp: read_u32_def get_u_def peek_u_def Let_def)

lemma outcome_bind_Inl_iff:
  "outcome_bind r f = Inl e \<longleftrightarrow> r = Inl e \<or> (\<exists>x. r = Inr x \<and> f x = Inl e)"
  by (cases r) auto

lemma read_no_panic:
  "read_varint b \<noteq> Inl Panic" "read_bytes n b \<noteq> Inl Panic" "read_u8 b \<noteq> Inl Panic"
  "read_varint_bytes b \<noteq> Inl Panic"
proof -
  show varint: "read_varint b \<noteq> Inl Panic" for b using read_varint_spec [of b] by auto
  show bytes: "read_bytes n b \<noteq> Inl Panic" for n b using read_bytes_spec [of n b] by auto
  show "read_u8 b \<noteq> Inl Panic" using read_u8_spec [of b] by auto
  show "read_varint_bytes b \<noteq> Inl Panic"
    by (auto simp: read_varint_bytes_split outcome_bind_Inl_iff varint bytes)
qed

lemma version_list_no_panic: "version_list b acc \<noteq> Inl Panic"
proof (induction b acc rule: version_list.induct)
  case (1 b acc)
  then show ?case
    by (subst version_list.simps) (auto simp: outcome_bind_Inl_iff read_u32_no_panic)
qed

lemma header_no_panic: "header_from_bytes b dcid_len \<noteq> Inl Panic"
proof -
  have "read_type_fields ty b \<noteq> Inl Panic" for ty b
    by (cases ty) (auto simp: outcome_bind_Inl_iff read_no_panic version_list_no_panic)
  moreover have "read_cid v b \<noteq> Inl Panic" for v b
    by (auto simp: read_cid_def outcome_bind_Inl_iff read_no_panic)
  moreover have "long_type v f \<noteq> Inl Panic" for v f by (simp add: long_type_def Let_def)
  ultimately show ?thesis
    by (auto simp: header_from_bytes_def outcome_bind_Inl_iff read_no_panic read_u32_no_panic)
qed

end
