(* ===== verification/Quic_Frame.thy ===== *)
theory Quic_Frame
  imports Quic_Packet Recv_Buf
begin

text \<open>
  QUIC frames: \<open>engine/quiche/quiche/src/frame.rs\<close>, and the loop of \<open>Connection::recv_single\<close>
  in \<open>lib.rs\<close> that reads the frames of a packet.  Integers that go on the wire are 64-bit words,
  the offsets of stream data and the packet numbers of a range set natural numbers.  Additions and
  subtractions on packet numbers wrap as the compiled code's do.
\<close>

definition MAX_STREAM_SIZE :: nat where "MAX_STREAM_SIZE = 2 ^ 62"

record ecn_counts =
  ect0_count :: u64
  ect1_count :: u64
  ecn_ce_count :: u64

datatype frame =
    Padding nat
  | Ping "nat option"
  | ACK u64 range_set "ecn_counts option"
  | ResetStream u64 u64 u64
  | StopSending u64 u64
  | Crypto range_buf
  | CryptoHeader u64 nat
  | NewToken bytes
  | Stream u64 range_buf
  | StreamHeader u64 u64 nat bool
  | MaxData u64
  | MaxStreamData u64 u64
  | MaxStreamsBidi u64
  | MaxStreamsUni u64
  | DataBlocked u64
  | StreamDataBlocked u64 u64
  | StreamsBlockedBidi u64
  | StreamsBlockedUni u64
  | NewConnectionId u64 u64 bytes bytes
  | RetireConnectionId u64
  | PathChallenge bytes
  | PathResponse bytes
  | ConnectionClose u64 u64 bytes
  | ApplicationClose u64 bytes
  | HandshakeDone
  | Datagram bytes
  | DatagramHeader nat

subsection \<open>Reading\<close>

definition range_set_default :: range_set where
  "range_set_default = range_set_new (2 ^ 64 - 1)"

text \<open>A range added to the set; the set panics only if it is full, see \<open>Range_Set\<close>.\<close>

definition add_range :: "u64 \<Rightarrow> u64 \<Rightarrow> range_set \<Rightarrow> range_set quic_result" where
  "add_range smallest largest ranges =
     (case range_set_insert (unat smallest) (unat (largest + 1)) ranges of
        None \<Rightarrow> Inl Panic | Some ranges \<Rightarrow> Inr ranges)"

fun ack_blocks :: "nat \<Rightarrow> u64 \<Rightarrow> range_set \<Rightarrow> octets \<Rightarrow> (range_set \<times> octets) quic_result" where
  "ack_blocks 0 smallest_ack ranges b = Inr (ranges, b)"
| "ack_blocks (Suc block_count) smallest_ack ranges b =
     outcome_bind (read_varint b) (\<lambda>(gap, b).
       if smallest_ack < 2 + gap then Inl (Error InvalidFrame)
       else
         (let largest_ack = (smallest_ack - gap) - 2
          in outcome_bind (read_varint b) (\<lambda>(ack_block, b).
               if largest_ack < ack_block then Inl (Error InvalidFrame)
               else
                 (let smallest_ack = largest_ack - ack_block
                  in outcome_bind (add_range smallest_ack largest_ack ranges) (\<lambda>ranges.
                       ack_blocks block_count smallest_ack ranges b)))))"

definition read_ecn :: "octets \<Rightarrow> (ecn_counts \<times> octets) quic_result" where
  "read_ecn b =
     outcome_bind (read_varint b) (\<lambda>(ect0, b).
     outcome_bind (read_varint b) (\<lambda>(ect1, b).
     outcome_bind (read_varint b) (\<lambda>(ce, b).
       Inr (\<lparr>ect0_count = ect0, ect1_count = ect1, ecn_ce_count = ce\<rparr>, b))))"

definition parse_ack_frame :: "u64 \<Rightarrow> octets \<Rightarrow> (frame \<times> octets) quic_result" where
  "parse_ack_frame ty b =
     (let first = ucast ty :: u8
      in outcome_bind (read_varint b) (\<lambda>(largest_ack, b).
         outcome_bind (read_varint b) (\<lambda>(ack_delay, b).
         outcome_bind (read_varint b) (\<lambda>(block_count, b).
         outcome_bind (read_varint b) (\<lambda>(ack_block, b).
           if largest_ack < ack_block then Inl (Error InvalidFrame)
           else
             (let smallest_ack = largest_ack - ack_block
              in outcome_bind (add_range smallest_ack largest_ack range_set_default) (\<lambda>ranges.
                 outcome_bind (ack_blocks (unat block_count) smallest_ack ranges b) (\<lambda>(ranges, b).
                   if first AND 0x01 \<noteq> 0
                   then outcome_bind (read_ecn b) (\<lambda>(ecn, b). Inr (ACK ack_delay ranges (Some ecn), b))
                   else Inr (ACK ack_delay ranges None, b)))))))))"

definition parse_stream_frame :: "u64 \<Rightarrow> octets \<Rightarrow> (frame \<times> octets) quic_result" where
  "parse_stream_frame ty b =
     (let first = ucast ty :: u8
      in outcome_bind (read_varint b) (\<lambda>(stream_id, b).
         outcome_bind (if first AND 0x04 \<noteq> 0 then read_varint b else Inr (0, b)) (\<lambda>(offset, b).
         outcome_bind (if first AND 0x02 \<noteq> 0
                       then outcome_bind (read_varint b) (\<lambda>(len, b). Inr (unat len, b))
                       else Inr (o_cap b, b)) (\<lambda>(len, b).
           if MAX_STREAM_SIZE \<le> unat offset + len then Inl (Error InvalidFrame)
           else
             (let fin = first AND 0x01 \<noteq> 0
              in outcome_bind (read_bytes len b) (\<lambda>(data, b).
                   Inr (Stream stream_id (range_buf_from data (unat offset) fin), b)))))))"

definition parse_datagram_frame :: "u64 \<Rightarrow> octets \<Rightarrow> (frame \<times> octets) quic_result" where
  "parse_datagram_frame ty b =
     (let first = ucast ty :: u8
      in outcome_bind (if first AND 0x01 \<noteq> 0
                       then outcome_bind (read_varint b) (\<lambda>(len, b). Inr (unat len, b))
                       else Inr (o_cap b, b)) (\<lambda>(len, b).
         outcome_bind (read_bytes len b) (\<lambda>(data, b). Inr (Datagram data, b))))"

text \<open>\<open>while b.peek_u8() == Ok(0x00)\<close>: how many bytes of padding there are, the first included.\<close>

function count_padding :: "nat \<Rightarrow> octets \<Rightarrow> (nat \<times> octets) quic_result" where
  "count_padding len b =
     (if peek_u 1 b = Inr (0 :: u8)
      then outcome_bind (read_u8 b) (\<lambda>(_, b). count_padding (len + 1) b)
      else Inr (len, b))"
  by pat_completeness auto
termination
proof (relation "measure (\<lambda>(_, b). o_cap b)", goal_cases)
  case (2 len b x y b')
  then show ?case using read_u8_spec [of b] by auto
qed simp

declare count_padding.simps [simp del]

text \<open>The readers of frames that consist of one, two or three integers.\<close>

definition read_one :: "(u64 \<Rightarrow> frame) \<Rightarrow> octets \<Rightarrow> (frame \<times> octets) quic_result" where
  "read_one f b = outcome_bind (read_varint b) (\<lambda>(x, b). Inr (f x, b))"

definition read_two :: "(u64 \<Rightarrow> u64 \<Rightarrow> frame) \<Rightarrow> octets \<Rightarrow> (frame \<times> octets) quic_result" where
  "read_two f b = outcome_bind (read_varint b) (\<lambda>(x, b). read_one (f x) b)"

definition read_three :: "(u64 \<Rightarrow> u64 \<Rightarrow> u64 \<Rightarrow> frame) \<Rightarrow> octets \<Rightarrow> (frame \<times> octets) quic_result" where
  "read_three f b = outcome_bind (read_varint b) (\<lambda>(x, b). read_two (f x) b)"

definition read_new_token :: "octets \<Rightarrow> (frame \<times> octets) quic_result" where
  "read_new_token b =
     outcome_bind (read_varint b) (\<lambda>(len, b).
       if len = 0 then Inl (Error InvalidFrame)
       else outcome_bind (read_bytes (unat len) b) (\<lambda>(token, b). Inr (NewToken token, b)))"

definition read_new_connection_id :: "octets \<Rightarrow> (frame \<times> octets) quic_result" where
  "read_new_connection_id b =
     outcome_bind (read_varint b) (\<lambda>(seq_num, b).
     outcome_bind (read_varint b) (\<lambda>(retire_prior_to, b).
     outcome_bind (read_u8 b) (\<lambda>(conn_id_len, b).
       if \<not> (1 \<le> conn_id_len \<and> conn_id_len \<le> MAX_CID_LEN) then Inl (Error InvalidFrame)
       else
         outcome_bind (read_bytes (unat conn_id_len) b) (\<lambda>(conn_id, b).
         outcome_bind (read_bytes 16 b) (\<lambda>(reset_token, b).
           Inr (NewConnectionId seq_num retire_prior_to conn_id reset_token, b))))))"

definition read_frame :: "u64 \<Rightarrow> octets \<Rightarrow> (frame \<times> octets) quic_result" where
  "read_frame frame_type b =
     (if frame_type = 0x00 then outcome_bind (count_padding 1 b) (\<lambda>(len, b). Inr (Padding len, b))
      else if frame_type = 0x01 then Inr (Ping None, b)
      else if 0x02 \<le> frame_type \<and> frame_type \<le> 0x03 then parse_ack_frame frame_type b
      else if frame_type = 0x04 then read_three ResetStream b
      else if frame_type = 0x05 then read_two StopSending b
      else if frame_type = 0x06 then
        outcome_bind (read_varint b) (\<lambda>(offset, b).
        outcome_bind (read_varint_bytes b) (\<lambda>(data, b).
          Inr (Crypto (range_buf_from data (unat offset) False), b)))
      else if frame_type = 0x07 then read_new_token b
      else if 0x08 \<le> frame_type \<and> frame_type \<le> 0x0f then parse_stream_frame frame_type b
      else if frame_type = 0x10 then read_one MaxData b
      else if frame_type = 0x11 then read_two MaxStreamData b
      else if frame_type = 0x12 then read_one MaxStreamsBidi b
      else if frame_type = 0x13 then read_one MaxStreamsUni b
      else if frame_type = 0x14 then read_one DataBlocked b
      else if frame_type = 0x15 then read_two StreamDataBlocked b
      else if frame_type = 0x16 then read_one StreamsBlockedBidi b
      else if frame_type = 0x17 then read_one StreamsBlockedUni b
      else if frame_type = 0x18 then read_new_connection_id b
      else if frame_type = 0x19 then read_one RetireConnectionId b
      else if frame_type = 0x1a then
        outcome_bind (read_bytes 8 b) (\<lambda>(data, b). Inr (PathChallenge data, b))
      else if frame_type = 0x1b then
        outcome_bind (read_bytes 8 b) (\<lambda>(data, b). Inr (PathResponse data, b))
      else if frame_type = 0x1c then
        outcome_bind (read_varint b) (\<lambda>(error_code, b).
        outcome_bind (read_varint b) (\<lambda>(frame_type, b).
        outcome_bind (read_varint_bytes b) (\<lambda>(reason, b).
          Inr (ConnectionClose error_code frame_type reason, b))))
      else if frame_type = 0x1d then
        outcome_bind (read_varint b) (\<lambda>(error_code, b).
        outcome_bind (read_varint_bytes b) (\<lambda>(reason, b). Inr (ApplicationClose error_code reason, b)))
      else if frame_type = 0x1e then Inr (HandshakeDone, b)
      else if frame_type = 0x30 \<or> frame_type = 0x31 then parse_datagram_frame frame_type b
      else Inl (Error InvalidFrame))"

fun frame_allowed :: "packet_type \<Rightarrow> frame \<Rightarrow> bool" where
  "frame_allowed _ (Padding _) = True"
| "frame_allowed _ (Ping _) = True"
| "frame_allowed ZeroRTT (ACK _ _ _) = False"
| "frame_allowed ZeroRTT (Crypto _) = False"
| "frame_allowed ZeroRTT HandshakeDone = False"
| "frame_allowed ZeroRTT (NewToken _) = False"
| "frame_allowed ZeroRTT (PathResponse _) = False"
| "frame_allowed ZeroRTT (RetireConnectionId _) = False"
| "frame_allowed ZeroRTT (ConnectionClose _ _ _) = False"
| "frame_allowed _ (ACK _ _ _) = True"
| "frame_allowed _ (Crypto _) = True"
| "frame_allowed _ (ConnectionClose _ _ _) = True"
| "frame_allowed Short _ = True"
| "frame_allowed ZeroRTT _ = True"
| "frame_allowed _ _ = False"

definition frame_from_bytes :: "packet_type \<Rightarrow> octets \<Rightarrow> (frame \<times> octets) quic_result" where
  "frame_from_bytes pkt b =
     outcome_bind (read_varint b) (\<lambda>(frame_type, b).
     outcome_bind (read_frame frame_type b) (\<lambda>(frame, b).
       if \<not> frame_allowed pkt frame then Inl (Error InvalidPacket) else Inr (frame, b)))"

subsection \<open>Writing\<close>

definition encode_crypto_header :: "u64 \<Rightarrow> u64 \<Rightarrow> octets \<Rightarrow> octets quic_result" where
  "encode_crypto_header offset len b =
     in_turn [write_varint 0x06, write_varint offset, write_varint_len len 2] b"

definition encode_stream_header :: "u64 \<Rightarrow> u64 \<Rightarrow> u64 \<Rightarrow> bool \<Rightarrow> octets \<Rightarrow> octets quic_result" where
  "encode_stream_header stream_id offset len fin b =
     (let ty = 0x08 :: u8;
          ty = ty OR 0x04;
          ty = ty OR 0x02;
          ty = (if fin then ty OR 0x01 else ty)
      in in_turn [write_varint (ucast ty), write_varint stream_id, write_varint offset,
                  write_varint_len len 2] b)"

definition encode_dgram_header :: "u64 \<Rightarrow> octets \<Rightarrow> octets quic_result" where
  "encode_dgram_header len b =
     (let ty = 0x30 :: u8; ty = ty OR 0x01
      in in_turn [write_varint (ucast ty), write_varint_len len 2] b)"

fun write_padding :: "nat \<Rightarrow> octets \<Rightarrow> octets quic_result" where
  "write_padding 0 b = Inr b"
| "write_padding (Suc left) b = outcome_bind (write_varint 0x00 b) (write_padding left)"

text \<open>The gap and the length of every range below \<open>smallest_ack\<close>, from the top.\<close>

fun ack_fields :: "u64 \<Rightarrow> ranges \<Rightarrow> u64 list" where
  "ack_fields smallest_ack [] = []"
| "ack_fields smallest_ack ((s, e) # it) =
     (let gap = smallest_ack - of_nat e - 1;
          ack_block = (of_nat e - 1) - of_nat s
      in gap # ack_block # ack_fields (of_nat s) it)"

definition ecn_fields :: "ecn_counts option \<Rightarrow> u64 list" where
  "ecn_fields ecn =
     (case ecn of None \<Rightarrow> [] | Some ecn \<Rightarrow> [ect0_count ecn, ect1_count ecn, ecn_ce_count ecn])"

definition write_ack :: "u64 \<Rightarrow> range_set \<Rightarrow> ecn_counts option \<Rightarrow> octets \<Rightarrow> octets quic_result" where
  "write_ack ack_delay ranges ecn b =
     (case rev (range_set_iter ranges) of
        [] \<Rightarrow> outcome_bind (write_varint (if ecn = None then 0x02 else 0x03) b) (\<lambda>_. Inl Panic)
      | (s, e) # it \<Rightarrow>
          in_turn
            (map write_varint
               ([if ecn = None then 0x02 else 0x03, of_nat e - 1, ack_delay, of_nat (length it),
                 (of_nat e - 1) - of_nat s] @ ack_fields (of_nat s) it @ ecn_fields ecn)) b)"

fun write_frame :: "frame \<Rightarrow> octets \<Rightarrow> octets quic_result" where
  "write_frame (Padding len) b = write_padding len b"
| "write_frame (Ping _) b = write_varint 0x01 b"
| "write_frame (ACK ack_delay ranges ecn) b = write_ack ack_delay ranges ecn b"
| "write_frame (ResetStream stream_id error_code final_size) b =
     in_turn [write_varint 0x04, write_varint stream_id, write_varint error_code,
              write_varint final_size] b"
| "write_frame (StopSending stream_id error_code) b =
     in_turn [write_varint 0x05, write_varint stream_id, write_varint error_code] b"
| "write_frame (Crypto data) b =
     in_turn [encode_crypto_header (of_nat (buf_off data)) (of_nat (buf_len data)),
              write_bytes (buf_bytes data)] b"
| "write_frame (CryptoHeader _ _) b = Inr b"
| "write_frame (NewToken token) b =
     in_turn [write_varint 0x07, write_varint (of_nat (length token)), write_bytes token] b"
| "write_frame (Stream stream_id data) b =
     in_turn [encode_stream_header stream_id (of_nat (buf_off data)) (of_nat (buf_len data)) (rb_fin data),
              write_bytes (buf_bytes data)] b"
| "write_frame (StreamHeader _ _ _ _) b = Inr b"
| "write_frame (MaxData mx) b = in_turn [write_varint 0x10, write_varint mx] b"
| "write_frame (MaxStreamData stream_id mx) b =
     in_turn [write_varint 0x11, write_varint stream_id, write_varint mx] b"
| "write_frame (MaxStreamsBidi mx) b = in_turn [write_varint 0x12, write_varint mx] b"
| "write_frame (MaxStreamsUni mx) b = in_turn [write_varint 0x13, write_varint mx] b"
| "write_frame (DataBlocked limit) b = in_turn [write_varint 0x14, write_varint limit] b"
| "write_frame (StreamDataBlocked stream_id limit) b =
     in_turn [write_varint 0x15, write_varint stream_id, write_varint limit] b"
| "write_frame (StreamsBlockedBidi limit) b = in_turn [write_varint 0x16, write_varint limit] b"
| "write_frame (StreamsBlockedUni limit) b = in_turn [write_varint 0x17, write_varint limit] b"
| "write_frame (NewConnectionId seq_num retire_prior_to conn_id reset_token) b =
     in_turn [write_varint 0x18, write_varint seq_num, write_varint retire_prior_to,
              write_u8 (of_nat (length conn_id)), write_bytes conn_id, write_bytes reset_token] b"
| "write_frame (RetireConnectionId seq_num) b = in_turn [write_varint 0x19, write_varint seq_num] b"
| "write_frame (PathChallenge data) b = in_turn [write_varint 0x1a, write_bytes data] b"
| "write_frame (PathResponse data) b = in_turn [write_varint 0x1b, write_bytes data] b"
| "write_frame (ConnectionClose error_code frame_type reason) b =
     in_turn [write_varint 0x1c, write_varint error_code, write_varint frame_type,
              write_varint (of_nat (length reason)), write_bytes reason] b"
| "write_frame (ApplicationClose error_code reason) b =
     in_turn [write_varint 0x1d, write_varint error_code, write_varint (of_nat (length reason)),
              write_bytes reason] b"
| "write_frame HandshakeDone b = write_varint 0x1e b"
| "write_frame (Datagram data) b =
     in_turn [encode_dgram_header (of_nat (length data)), write_bytes data] b"
| "write_frame (DatagramHeader _) b = Inr b"

definition frame_to_bytes :: "frame \<Rightarrow> octets \<Rightarrow> (nat \<times> octets) quic_result" where
  "frame_to_bytes frame b =
     (let before = o_cap b
      in outcome_bind (write_frame frame b) (\<lambda>b. Inr (before - o_cap b, b)))"

text \<open>The sum of the lengths of some integers; \<open>None\<close> where \<open>varint_len\<close> panics.\<close>

fun varints_len :: "u64 list \<Rightarrow> nat option" where
  "varints_len [] = Some 0"
| "varints_len (v # vs) = do { n \<leftarrow> octets_varint_len v; ns \<leftarrow> varints_len vs; Some (n + ns) }"

definition ack_wire_len :: "u64 \<Rightarrow> range_set \<Rightarrow> ecn_counts option \<Rightarrow> nat option" where
  "ack_wire_len ack_delay ranges ecn =
     (case rev (range_set_iter ranges) of
        [] \<Rightarrow> None
      | (s, e) # it \<Rightarrow>
          map_option (\<lambda>n. 1 + n)
            (varints_len
               ([of_nat e - 1, ack_delay, of_nat (length it), (of_nat e - 1) - of_nat s]
                @ ack_fields (of_nat s) it @ ecn_fields ecn)))"

fun wire_len :: "frame \<Rightarrow> nat option" where
  "wire_len (Padding len) = Some len"
| "wire_len (Ping _) = Some 1"
| "wire_len (ACK ack_delay ranges ecn) = ack_wire_len ack_delay ranges ecn"
| "wire_len (ResetStream stream_id error_code final_size) =
     map_option (\<lambda>n. 1 + n) (varints_len [stream_id, error_code, final_size])"
| "wire_len (StopSending stream_id error_code) =
     map_option (\<lambda>n. 1 + n) (varints_len [stream_id, error_code])"
| "wire_len (Crypto data) =
     map_option (\<lambda>n. 1 + n + 2 + buf_len data) (varints_len [of_nat (buf_off data)])"
| "wire_len (CryptoHeader offset len) = map_option (\<lambda>n. 1 + n + 2 + len) (varints_len [offset])"
| "wire_len (NewToken token) =
     map_option (\<lambda>n. 1 + n + length token) (varints_len [of_nat (length token)])"
| "wire_len (Stream stream_id data) =
     map_option (\<lambda>n. 1 + n + 2 + buf_len data) (varints_len [stream_id, of_nat (buf_off data)])"
| "wire_len (StreamHeader stream_id offset len _) =
     map_option (\<lambda>n. 1 + n + 2 + len) (varints_len [stream_id, offset])"
| "wire_len (MaxData mx) = map_option (\<lambda>n. 1 + n) (varints_len [mx])"
| "wire_len (MaxStreamData stream_id mx) = map_option (\<lambda>n. 1 + n) (varints_len [stream_id, mx])"
| "wire_len (MaxStreamsBidi mx) = map_option (\<lambda>n. 1 + n) (varints_len [mx])"
| "wire_len (MaxStreamsUni mx) = map_option (\<lambda>n. 1 + n) (varints_len [mx])"
| "wire_len (DataBlocked limit) = map_option (\<lambda>n. 1 + n) (varints_len [limit])"
| "wire_len (StreamDataBlocked stream_id limit) =
     map_option (\<lambda>n. 1 + n) (varints_len [stream_id, limit])"
| "wire_len (StreamsBlockedBidi limit) = map_option (\<lambda>n. 1 + n) (varints_len [limit])"
| "wire_len (StreamsBlockedUni limit) = map_option (\<lambda>n. 1 + n) (varints_len [limit])"
| "wire_len (NewConnectionId seq_num retire_prior_to conn_id reset_token) =
     map_option (\<lambda>n. 1 + n + 1 + length conn_id + length reset_token)
       (varints_len [seq_num, retire_prior_to])"
| "wire_len (RetireConnectionId seq_num) = map_option (\<lambda>n. 1 + n) (varints_len [seq_num])"
| "wire_len (PathChallenge _) = Some (1 + 8)"
| "wire_len (PathResponse _) = Some (1 + 8)"
| "wire_len (ConnectionClose error_code frame_type reason) =
     map_option (\<lambda>n. 1 + n + length reason)
       (varints_len [error_code, frame_type, of_nat (length reason)])"
| "wire_len (ApplicationClose error_code reason) =
     map_option (\<lambda>n. 1 + n + length reason) (varints_len [error_code, of_nat (length reason)])"
| "wire_len HandshakeDone = Some 1"
| "wire_len (Datagram data) = Some (1 + 2 + length data)"
| "wire_len (DatagramHeader len) = Some (1 + 2 + len)"

fun ack_eliciting :: "frame \<Rightarrow> bool" where
  "ack_eliciting (Padding _) = False"
| "ack_eliciting (ACK _ _ _) = False"
| "ack_eliciting (ApplicationClose _ _) = False"
| "ack_eliciting (ConnectionClose _ _ _) = False"
| "ack_eliciting _ = True"

fun frame_probing :: "frame \<Rightarrow> bool" where
  "frame_probing (Padding _) = True"
| "frame_probing (NewConnectionId _ _ _ _) = True"
| "frame_probing (PathChallenge _) = True"
| "frame_probing (PathResponse _) = True"
| "frame_probing _ = False"

subsection \<open>Hostile frames\<close>

lemma add_range_spec:
  assumes "range_set_inv ranges" and "varint_ok largest" and "smallest \<le> largest"
  shows "\<exists>ranges'. add_range smallest largest ranges = Inr ranges' \<and> range_set_inv ranges'"
proof -
  have "unat (largest + 1) = unat largest + 1"
    using assms(2) by (simp add: varint_ok_iff unat_word_ariths)
  then have "unat smallest < unat (largest + 1)"
    using assms(3) by (simp add: word_le_nat_alt)
  then show ?thesis
    using range_set_insert_spec [OF assms(1)] by (force simp: add_range_def)
qed

lemma varint_ok_minus: "varint_ok v \<Longrightarrow> w \<le> v \<Longrightarrow> varint_ok (v - w)"
  by (simp add: varint_ok_iff unat_sub)

lemma reader_ack_blocks:
  assumes "range_set_inv ranges" and "varint_ok smallest"
  shows "reader (ack_blocks n smallest ranges)"
  using assms
proof (induction n arbitrary: smallest ranges)
  case 0
  show ?case using reader_return(1) by simp
next
  case (Suc n)
  have block: "reader (\<lambda>b. if largest < ack_block then Inl (Error InvalidFrame)
      else outcome_bind (add_range (largest - ack_block) largest ranges) (\<lambda>ranges.
             ack_blocks n (largest - ack_block) ranges b))"
    if ok: "varint_ok largest" for largest ack_block
  proof (cases "largest < ack_block")
    case True
    then show ?thesis using reader_return(2) by simp
  next
    case False
    then have le: "largest - ack_block \<le> largest" "varint_ok (largest - ack_block)"
      using ok varint_ok_minus [OF ok] by (auto simp: word_le_nat_alt unat_sub not_less)
    obtain ranges' where "add_range (largest - ack_block) largest ranges = Inr ranges'"
      "range_set_inv ranges'"
      using add_range_spec [OF Suc.prems(1) ok le(1)] by blast
    then show ?thesis using False Suc.IH [of ranges' "largest - ack_block"] le by simp
  qed
  have largest: "varint_ok (smallest - gap - 2)" if "\<not> smallest < 2 + gap" for gap
    using that varint_ok_minus [OF Suc.prems(2), of "2 + gap"] by (simp add: not_less diff_diff_eq add.commute)
  show ?case
    unfolding ack_blocks.simps Let_def
  proof (intro reader_bind_varint)
    fix gap
    show "reader (\<lambda>b. if smallest < 2 + gap then Inl (Error InvalidFrame)
        else outcome_bind (read_varint b) (\<lambda>(ack_block, b).
               if smallest - gap - 2 < ack_block then Inl (Error InvalidFrame)
               else outcome_bind (add_range (smallest - gap - 2 - ack_block) (smallest - gap - 2) ranges)
                      (\<lambda>ranges. ack_blocks n (smallest - gap - 2 - ack_block) ranges b)))"
      using reader_return(2) reader_bind [OF reader_fields(1) block [OF largest]]
      by (cases "smallest < 2 + gap") simp_all
  qed
qed

lemma range_set_inv_default: "range_set_inv range_set_default"
  unfolding range_set_default_def by (rule range_set_inv_new) (simp add: MAX_INLINE_CAPACITY_def)

lemma reader_ack: "reader (parse_ack_frame ty)"
proof -
  have ecn: "reader read_ecn" unfolding read_ecn_def by (intro readers)
  have body: "reader (\<lambda>b. if largest < ack_block then Inl (Error InvalidFrame)
      else outcome_bind (add_range (largest - ack_block) largest range_set_default) (\<lambda>ranges.
             outcome_bind (ack_blocks n (largest - ack_block) ranges b) (\<lambda>(ranges, b).
               if P then outcome_bind (read_ecn b) (\<lambda>(ecn, b). Inr (ACK delay ranges (Some ecn), b))
               else Inr (ACK delay ranges None, b))))"
    if ok: "varint_ok largest" for largest ack_block n P delay
  proof (cases "largest < ack_block")
    case True
    then show ?thesis using reader_return(2) by simp
  next
    case False
    then have le: "largest - ack_block \<le> largest" "varint_ok (largest - ack_block)"
      using ok varint_ok_minus [OF ok] by (auto simp: word_le_nat_alt unat_sub not_less)
    obtain ranges' where "add_range (largest - ack_block) largest range_set_default = Inr ranges'"
      "range_set_inv ranges'"
      using add_range_spec [OF range_set_inv_default ok le(1)] by blast
    then show ?thesis
      using False reader_ack_blocks [OF _ le(2), of ranges' n] ecn
      by (simp only: if_False outcome_bind.simps) (intro readers; simp)
  qed
  show ?thesis
    unfolding parse_ack_frame_def [abs_def] Let_def
    by (rule reader_bind_varint, intro readers body)
qed

lemma reader_padding: "reader (count_padding n)"
proof -
  have "count_padding n b \<noteq> Inl Panic \<and> (\<forall>x b'. count_padding n b = Inr (x, b') \<longrightarrow> advances b b')" for b
  proof (induction n b rule: count_padding.induct)
    case (1 n b)
    then show ?case
      using read_u8_spec [of b] by (subst (1 2) count_padding.simps) (auto intro: advances_trans)
  qed
  then show ?thesis by (simp add: reader_def)
qed

lemma reader_frame: "reader (read_frame ty)"
  unfolding read_frame_def [abs_def] parse_stream_frame_def parse_datagram_frame_def Let_def
    read_three_def read_two_def read_one_def read_new_token_def read_new_connection_id_def
  by (intro readers reader_ack reader_padding)

lemma reader_frame_from_bytes: "reader (frame_from_bytes pkt)"
  unfolding frame_from_bytes_def [abs_def] by (intro readers reader_frame)

lemma frame_from_bytes_advances:
  assumes "frame_from_bytes pkt b = Inr (f, b')"
  shows "advances b b' \<and> o_cap b' < o_cap b"
proof -
  obtain ty b1 where "read_varint b = Inr (ty, b1)" and rest: "read_frame ty b1 = Inr (f, b')"
    using assms by (auto simp: frame_from_bytes_def split: if_splits)
  then have "o_cap b1 < o_cap b" using read_varint_spec [of b] by auto
  moreover have "o_cap b' \<le> o_cap b1"
    using reader_frame rest by (auto simp: reader_def intro: advances_cap)
  ultimately show ?thesis
    using reader_frame_from_bytes assms by (auto simp: reader_def)
qed

subsection \<open>The frames of a packet\<close>

text \<open>
  \<open>while payload.cap() > 0\<close>: the frames of a payload in order, all of which have to be readable.
\<close>

function payload_frames :: "packet_type \<Rightarrow> octets \<Rightarrow> frame list \<Rightarrow> frame list quic_result" where
  "payload_frames pkt payload acc =
     (if 0 < o_cap payload
      then outcome_bind (frame_from_bytes pkt payload)
             (\<lambda>(frame, payload). payload_frames pkt payload (acc @ [frame]))
      else Inr acc)"
  by pat_completeness auto
termination
  by (relation "measure (\<lambda>(_, b, _). o_cap b)") (auto dest!: frame_from_bytes_advances)

declare payload_frames.simps [simp del]

subsection \<open>Frames are read back\<close>

definition varints :: "u64 list \<Rightarrow> bytes" where
  "varints vs = concat (map varint_encoding vs)"

lemma varints_simps [simp]:
  "varints [] = []" "varints (v # vs) = varint_encoding v @ varints vs"
  "varints (us @ vs) = varints us @ varints vs"
  by (simp_all add: varints_def)

definition ack_encoding :: "u64 \<Rightarrow> ranges \<Rightarrow> ecn_counts option \<Rightarrow> u64 list" where
  "ack_encoding ack_delay rs ecn =
     (case rev rs of
        [] \<Rightarrow> []
      | (s, e) # it \<Rightarrow>
          [if ecn = None then 0x02 else 0x03, of_nat e - 1, ack_delay, of_nat (length it),
           (of_nat e - 1) - of_nat s] @ ack_fields (of_nat s) it @ ecn_fields ecn)"

fun frame_encoding :: "frame \<Rightarrow> bytes" where
  "frame_encoding (Padding len) = replicate len 0"
| "frame_encoding (Ping _) = varints [0x01]"
| "frame_encoding (ACK ack_delay ranges ecn) = varints (ack_encoding ack_delay (range_set_iter ranges) ecn)"
| "frame_encoding (ResetStream stream_id error_code final_size) =
     varints [0x04, stream_id, error_code, final_size]"
| "frame_encoding (StopSending stream_id error_code) = varints [0x05, stream_id, error_code]"
| "frame_encoding (Crypto data) =
     varints [0x06, of_nat (buf_off data)] @ varint2_encoding (buf_len data) @ buf_bytes data"
| "frame_encoding (NewToken token) = varints [0x07, of_nat (length token)] @ token"
| "frame_encoding (Stream stream_id data) =
     varints [if rb_fin data then 0x0f else 0x0e, stream_id, of_nat (buf_off data)]
     @ varint2_encoding (buf_len data) @ buf_bytes data"
| "frame_encoding (MaxData mx) = varints [0x10, mx]"
| "frame_encoding (MaxStreamData stream_id mx) = varints [0x11, stream_id, mx]"
| "frame_encoding (MaxStreamsBidi mx) = varints [0x12, mx]"
| "frame_encoding (MaxStreamsUni mx) = varints [0x13, mx]"
| "frame_encoding (DataBlocked limit) = varints [0x14, limit]"
| "frame_encoding (StreamDataBlocked stream_id limit) = varints [0x15, stream_id, limit]"
| "frame_encoding (StreamsBlockedBidi limit) = varints [0x16, limit]"
| "frame_encoding (StreamsBlockedUni limit) = varints [0x17, limit]"
| "frame_encoding (NewConnectionId seq_num retire_prior_to conn_id reset_token) =
     varints [0x18, seq_num, retire_prior_to] @ of_nat (length conn_id) # conn_id @ reset_token"
| "frame_encoding (RetireConnectionId seq_num) = varints [0x19, seq_num]"
| "frame_encoding (PathChallenge data) = varints [0x1a] @ data"
| "frame_encoding (PathResponse data) = varints [0x1b] @ data"
| "frame_encoding (ConnectionClose error_code frame_type reason) =
     varints [0x1c, error_code, frame_type, of_nat (length reason)] @ reason"
| "frame_encoding (ApplicationClose error_code reason) =
     varints [0x1d, error_code, of_nat (length reason)] @ reason"
| "frame_encoding HandshakeDone = varints [0x1e]"
| "frame_encoding (Datagram data) = varints [0x31] @ varint2_encoding (length data) @ data"
| "frame_encoding _ = []"

definition ranges_sendable :: "ranges \<Rightarrow> bool" where
  "ranges_sendable rs \<longleftrightarrow>
     rs \<noteq> [] \<and> ranges_ok rs \<and> length rs < 2 ^ 62 \<and> (\<forall>r \<in> set rs. snd r \<le> 2 ^ 62)"

definition ecn_ok :: "ecn_counts option \<Rightarrow> bool" where
  "ecn_ok ecn \<longleftrightarrow> list_all varint_ok (ecn_fields ecn)"

text \<open>
  The frames that can be sent: integers below \<open>2^62\<close>, data of less than \<open>2^14\<close> bytes (its length
  is always encoded in two), identifiers and tokens of the size the protocol gives them.  The
  header-only frames are bookkeeping and are never written.
\<close>

fun frame_ok :: "frame \<Rightarrow> bool" where
  "frame_ok (Padding len) \<longleftrightarrow> 0 < len"
| "frame_ok (Ping _) \<longleftrightarrow> True"
| "frame_ok (ACK ack_delay ranges ecn) \<longleftrightarrow>
     varint_ok ack_delay \<and> ranges_sendable (range_set_iter ranges) \<and> ecn_ok ecn"
| "frame_ok (ResetStream stream_id error_code final_size) \<longleftrightarrow>
     varint_ok stream_id \<and> varint_ok error_code \<and> varint_ok final_size"
| "frame_ok (StopSending stream_id error_code) \<longleftrightarrow> varint_ok stream_id \<and> varint_ok error_code"
| "frame_ok (Crypto data) \<longleftrightarrow> buf_ok data \<and> buf_len data < 2 ^ 14 \<and> buf_max_off data < 2 ^ 62"
| "frame_ok (NewToken token) \<longleftrightarrow> token \<noteq> [] \<and> length token < 2 ^ 62"
| "frame_ok (Stream stream_id data) \<longleftrightarrow>
     varint_ok stream_id \<and> buf_ok data \<and> buf_len data < 2 ^ 14 \<and> buf_max_off data < 2 ^ 62"
| "frame_ok (MaxData mx) \<longleftrightarrow> varint_ok mx"
| "frame_ok (MaxStreamData stream_id mx) \<longleftrightarrow> varint_ok stream_id \<and> varint_ok mx"
| "frame_ok (MaxStreamsBidi mx) \<longleftrightarrow> varint_ok mx"
| "frame_ok (MaxStreamsUni mx) \<longleftrightarrow> varint_ok mx"
| "frame_ok (DataBlocked limit) \<longleftrightarrow> varint_ok limit"
| "frame_ok (StreamDataBlocked stream_id limit) \<longleftrightarrow> varint_ok stream_id \<and> varint_ok limit"
| "frame_ok (StreamsBlockedBidi limit) \<longleftrightarrow> varint_ok limit"
| "frame_ok (StreamsBlockedUni limit) \<longleftrightarrow> varint_ok limit"
| "frame_ok (NewConnectionId seq_num retire_prior_to conn_id reset_token) \<longleftrightarrow>
     varint_ok seq_num \<and> varint_ok retire_prior_to \<and> conn_id \<noteq> [] \<and> length conn_id \<le> 20
     \<and> length reset_token = 16"
| "frame_ok (RetireConnectionId seq_num) \<longleftrightarrow> varint_ok seq_num"
| "frame_ok (PathChallenge data) \<longleftrightarrow> length data = 8"
| "frame_ok (PathResponse data) \<longleftrightarrow> length data = 8"
| "frame_ok (ConnectionClose error_code frame_type reason) \<longleftrightarrow>
     varint_ok error_code \<and> varint_ok frame_type \<and> length reason < 2 ^ 62"
| "frame_ok (ApplicationClose error_code reason) \<longleftrightarrow> varint_ok error_code \<and> length reason < 2 ^ 62"
| "frame_ok HandshakeDone \<longleftrightarrow> True"
| "frame_ok (Datagram data) \<longleftrightarrow> length data < 2 ^ 14"
| "frame_ok _ \<longleftrightarrow> False"

text \<open>
  What the peer makes of a frame: a range set of its own with the same ranges, and chunks that hold
  only the bytes that were left to send.
\<close>

definition received_set :: "ranges \<Rightarrow> range_set" where
  "received_set rs =
     (if length rs < MAX_INLINE_CAPACITY then Inline rs (2 ^ 64 - 1) else BTree rs (2 ^ 64 - 1))"

fun as_received :: "frame \<Rightarrow> frame" where
  "as_received (Ping _) = Ping None"
| "as_received (ACK ack_delay ranges ecn) = ACK ack_delay (received_set (range_set_iter ranges)) ecn"
| "as_received (Crypto data) = Crypto (range_buf_from (buf_bytes data) (buf_off data) False)"
| "as_received (Stream stream_id data) =
     Stream stream_id (range_buf_from (buf_bytes data) (buf_off data) (rb_fin data))"
| "as_received f = f"

subsubsection \<open>The length\<close>

lemma varints_len_eq: "list_all varint_ok vs \<Longrightarrow> varints_len vs = Some (length (varints vs))"
  by (induction vs) (simp_all add: octets_varint_len_eq)

lemma small_varint: "unat v < 64 \<Longrightarrow> varint_ok v \<and> length (varint_encoding v) = 1"
  by (simp add: varint_ok_iff length_varint_encoding)

text \<open>The differences the encoder computes do not wrap.\<close>

lemma ack_words:
  "0 < e \<Longrightarrow> (of_nat e - 1 :: u64) = of_nat (e - 1)"
  "s < e \<Longrightarrow> (of_nat e - 1 - of_nat s :: u64) = of_nat (e - 1 - s)"
  "e < m \<Longrightarrow> (of_nat m - of_nat e - 1 :: u64) = of_nat (m - e - 1)"
  by (simp_all add: of_nat_diff)

lemma ack_words_ok:
  "0 < e \<Longrightarrow> e \<le> 2 ^ 62 \<Longrightarrow> varint_ok (of_nat e - 1)"
  "s < e \<Longrightarrow> e \<le> 2 ^ 62 \<Longrightarrow> varint_ok (of_nat e - 1 - of_nat s)"
  "e < m \<Longrightarrow> m \<le> 2 ^ 62 \<Longrightarrow> varint_ok (of_nat m - of_nat e - 1)"
proof -
  show "0 < e \<Longrightarrow> e \<le> 2 ^ 62 \<Longrightarrow> varint_ok (of_nat e - 1)"
    by (subst ack_words(1), assumption, rule varint_ok_length) linarith
  show "s < e \<Longrightarrow> e \<le> 2 ^ 62 \<Longrightarrow> varint_ok (of_nat e - 1 - of_nat s)"
    by (subst ack_words(2), assumption, rule varint_ok_length) linarith
  show "e < m \<Longrightarrow> m \<le> 2 ^ 62 \<Longrightarrow> varint_ok (of_nat m - of_nat e - 1)"
    by (subst ack_words(3), assumption, rule varint_ok_length) linarith
qed

lemma ack_fields_ok:
  assumes "ranges_ok (rev it)" and "\<forall>r \<in> set it. snd r < m \<and> snd r \<le> 2 ^ 62" and "m \<le> 2 ^ 62"
  shows "list_all varint_ok (ack_fields (of_nat m) it)"
  using assms
proof (induction it arbitrary: m)
  case Nil
  then show ?case by simp
next
  case (Cons r it)
  obtain s e where r: "r = (s, e)" by (cases r)
  have se: "s < e" "e < m" "ranges_ok (rev it)" "\<forall>x \<in> set it. snd x < s"
    using Cons.prems(1,2) by (auto simp: r)
  have "list_all varint_ok (ack_fields (of_nat s) it)"
    using Cons.IH [of s] se Cons.prems by auto
  then show ?case
    using ack_words_ok(2) [of s e] ack_words_ok(3) [of e m] Cons.prems(3) se by (simp add: r)
qed

lemma ranges_sendable_split:
  assumes "ranges_sendable rs"
  obtains s e it where "rev rs = (s, e) # it" "s < e" "e \<le> 2 ^ 62" "ranges_ok (rev it)"
    "\<forall>r \<in> set it. snd r < s \<and> snd r \<le> 2 ^ 62" "length it < 2 ^ 62" "rs = rev it @ [(s, e)]"
proof -
  obtain s e it where r: "rev rs = (s, e) # it"
    using assms by (cases "rev rs") (auto simp: ranges_sendable_def)
  then have rs: "rs = rev it @ [(s, e)]" by (metis rev.simps(2) rev_rev_ident)
  show thesis
    by (rule that [OF r _ _ _ _ _ rs]) (use assms in \<open>auto simp: rs ranges_sendable_def\<close>)
qed

lemma ack_encoding_ok:
  assumes "ranges_sendable rs" and "varint_ok delay" and "ecn_ok ecn"
  shows "list_all varint_ok (ack_encoding delay rs ecn)"
proof (rule ranges_sendable_split [OF assms(1)])
  fix s e it
  assume r: "rev rs = (s, e) # it" "s < e" "e \<le> 2 ^ 62" "ranges_ok (rev it)"
    "\<forall>r \<in> set it. snd r < s \<and> snd r \<le> 2 ^ 62" "length it < 2 ^ 62"
  then show ?thesis
    using ack_words_ok(1) [of e] ack_words_ok(2) [of s e] assms(2,3) ack_fields_ok [OF r(4,5)] r(1) small_varint [of 2] small_varint [of 3]
    by (simp add: ack_encoding_def varint_ok_length ecn_ok_def)
qed

lemma frame_type_ok:
  "varint_ok (numeral n)" "length (varint_encoding (numeral n)) = Suc 0"
  "hd (varint_encoding (numeral n)) = numeral n"
  if "(numeral n :: nat) < 64"
proof -
  have "(numeral n :: nat) mod 2 ^ LENGTH(64) = numeral n"
    by (rule mod_less, rule less_trans [OF that]) simp
  then have "unat (numeral n :: u64) = numeral n"
    using unat_of_nat [where 'a = 64, of "numeral n"] by (simp only: of_nat_numeral)
  with that show "varint_ok (numeral n)" "length (varint_encoding (numeral n)) = Suc 0"
    "hd (varint_encoding (numeral n)) = numeral n"
    using small_varint [of "numeral n"] by (simp_all add: varint_encoding_def)
qed

lemma frame_type_1:
  "varint_ok 1" "length (varint_encoding 1) = Suc 0" "hd (varint_encoding 1) = 1"
  using small_varint [of 1] by (simp_all add: varint_encoding_def)

lemma chunk_offset_ok: "buf_max_off b < 2 ^ 62 \<Longrightarrow> varint_ok (of_nat (buf_off b))"
  by (intro varint_ok_length) (simp add: buf_max_off_def)

lemma wire_len_encoding:
  assumes "frame_ok f"
  shows "wire_len f = Some (length (frame_encoding f))"
proof (cases f)
  case (ACK delay ranges ecn)
  then have "list_all varint_ok (ack_encoding delay (range_set_iter ranges) ecn)"
    using assms by (simp add: ack_encoding_ok)
  moreover obtain s e it where "rev (range_set_iter ranges) = (s, e) # it"
    using assms ranges_sendable_split ACK by (metis frame_ok.simps(3))
  ultimately show ?thesis
    using ACK by (simp add: ack_wire_len_def ack_encoding_def varints_len_eq frame_type_ok
        del: varints_len.simps split: if_splits)
qed (use assms in \<open>simp_all add: frame_type_ok frame_type_1 octets_varint_len_eq varint_ok_length
      chunk_offset_ok length_buf_bytes\<close>)

subsubsection \<open>The bytes written\<close>

lemma writes_varints: "list_all varint_ok vs \<Longrightarrow> writes (in_turn (map write_varint vs)) (varints vs)"
proof (induction vs)
  case Nil
  then show ?case using writes_Nil by (simp add: writes_def)
next
  case (Cons v vs)
  then show ?case
    using writes_Cons [of "write_varint v", OF writes_varint [of v]] by (simp del: in_turn.simps)
qed

lemma writes_padding: "writes (write_padding n) (replicate n 0)"
proof (induction n)
  case 0
  then show ?case using writes_Nil by (simp add: writes_def)
next
  case (Suc n)
  have "varint_encoding 0 = [0]" by (simp add: varint_encoding_def)
  then have "writes (write_varint 0) [0]" using writes_varint [of 0] by (simp add: varint_ok_def)
  from writes_bind [OF this Suc] show ?case by (simp add: writes_def)
qed

lemma writes_stream_header:
  assumes "frame_ok (Stream stream_id data)"
  shows "writes (encode_stream_header stream_id (of_nat (buf_off data)) (of_nat (buf_len data)) (rb_fin data))
      (varints [if rb_fin data then 0x0f else 0x0e, stream_id, of_nat (buf_off data)]
       @ varint2_encoding (buf_len data))"
  by (insert assms, rule writes_seq, rule encode_stream_header_def [unfolded Let_def],
      (rule list.rel_intros | (rule writers; (simp add: frame_type_ok varint_ok_length chunk_offset_ok)?))+)
     (simp_all)

lemma writes_frame:
  assumes "frame_ok f"
  shows "writes (write_frame f) (frame_encoding f)"
  using assms
proof (induction f)
  case (Padding n)
  then show ?case using writes_padding [of n] by (simp add: writes_def)
next
  case (ACK delay ranges ecn)
  then have ok: "list_all varint_ok (ack_encoding delay (range_set_iter ranges) ecn)"
    by (simp add: ack_encoding_ok)
  moreover obtain s e it where "rev (range_set_iter ranges) = (s, e) # it"
    using ACK ranges_sendable_split by (metis frame_ok.simps(3))
  ultimately show ?case
    using writes_varints [OF ok]
    by (simp add: writes_def write_ack_def ack_encoding_def del: in_turn.simps)
next
  case (Crypto data)
  have "writes (encode_crypto_header (of_nat (buf_off data)) (of_nat (buf_len data)))
      (varints [0x06, of_nat (buf_off data)] @ varint2_encoding (buf_len data))"
    by (insert Crypto, rule writes_seq, rule encode_crypto_header_def,
        (rule list.rel_intros | (rule writers; (simp add: frame_type_ok varint_ok_length chunk_offset_ok)?))+)
       (simp_all)
  then show ?case
    by - (rule writes_seq, rule write_frame.simps, (rule list.rel_intros writers | assumption)+, simp)
next
  case (Stream stream_id data)
  then show ?case
    by - (drule writes_stream_header, rule writes_seq, rule write_frame.simps, (rule list.rel_intros writers | assumption)+, simp)
next
  case (Datagram data)
  have "writes (encode_dgram_header (of_nat (length data)))
      (varints [0x31] @ varint2_encoding (length data))"
    by (insert Datagram, rule writes_seq, rule encode_dgram_header_def [unfolded Let_def],
        (rule list.rel_intros | (rule writers; (simp add: frame_type_ok varint_ok_length chunk_offset_ok)?))+)
       (simp_all)
  then show ?case
    by - (rule writes_seq, rule write_frame.simps, (rule list.rel_intros writers | assumption)+, simp)
next
  case (Ping p)
  then show ?case using writes_varint [OF frame_type_1(1)] by (simp add: writes_def)
next
  case HandshakeDone
  then show ?case using writes_varint [OF frame_type_ok(1), of "num.Bit0 (num.Bit1 (num.Bit1 (num.Bit1 num.One)))"]
    by (simp add: writes_def)
qed (((rule writes_seq, rule write_frame.simps,
      (rule list.rel_intros | (rule writers; (simp add: frame_type_ok varint_ok_length chunk_offset_ok)?))+, simp)
      | (simp; fail))+)

subsubsection \<open>The frame read\<close>

lemma insert_below:
  assumes "ranges_ok ((s, e) # rs)" and "length rs < 2 ^ 63"
  shows "range_set_insert s e (received_set rs) = Some (received_set ((s, e) # rs))"
proof -
  have ok: "ranges_sep rs" and "s \<le> e" and below: "\<forall>x \<in> set rs. e < fst x"
    using assms(1) by (auto simp: ranges_ok_iff)
  have ins: "rinsert s e rs = (s, e) # rs"
    using below rinsert_above [OF ok, of s e] absorb_disjoint [OF below] \<open>s \<le> e\<close> by force
  show ?thesis
  proof (cases "length rs < MAX_INLINE_CAPACITY")
    case True
    then show ?thesis
      using ok ins inline_insert_rinsert [OF ok, of "2 ^ 64 - 1" s e] assms(2)
      by (auto simp: received_set_def MAX_INLINE_CAPACITY_def)
  next
    case False
    then show ?thesis
      using ins btree_insert_within [OF ok \<open>s \<le> e\<close>, of "2 ^ 64 - 1"] assms(2)
      by (simp add: received_set_def MAX_INLINE_CAPACITY_def MIN_TO_INLINE_def)
  qed
qed

lemma add_range_below:
  assumes "ranges_ok ((s, e) # rs)" and "length rs < 2 ^ 63" and "e \<le> 2 ^ 62"
  shows "add_range (of_nat s) (of_nat (e - 1)) (received_set rs) = Inr (received_set ((s, e) # rs))"
proof -
  have "s < e" using assms(1) by simp
  then have "unat (of_nat s :: u64) = s" "unat (of_nat (e - 1) + 1 :: u64) = e"
    using assms(3) by (simp_all add: unat_of_nat unat_word_ariths)
  then show ?thesis using insert_below [OF assms(1,2)] by (simp add: add_range_def del: of_nat_diff)
qed

lemma ack_blocks_back:
  assumes "ranges_ok (rev it @ (m, hi) # rs)" and "m \<le> 2 ^ 62" and "length it + length rs < 2 ^ 62"
  shows "ack_blocks (length it) (of_nat m) (received_set ((m, hi) # rs))
           (cursor_at d (varints (ack_fields (of_nat m) it) @ r))
       = Inr (received_set (rev it @ (m, hi) # rs), cursor_at (d @ varints (ack_fields (of_nat m) it)) r)"
  using assms
proof (induction it arbitrary: m hi rs d)
  case Nil
  then show ?case by simp
next
  case (Cons r0 it)
  obtain s e where r0: "r0 = (s, e)" by (cases r0)
  let ?gap = "of_nat m - of_nat e - 1 :: u64" and ?blk = "of_nat e - 1 - of_nat s :: u64"
  have se: "s < e" "e < m" using Cons.prems(1) by (auto simp: r0)
  have ok: "varint_ok ?gap" "varint_ok ?blk"
    using ack_words_ok(2) [of s e] ack_words_ok(3) [of e m] se Cons.prems(2) by auto
  have un: "unat ?gap = m - e - 1" "unat ?blk = e - 1 - s" "unat (of_nat m :: u64) = m"
    "unat (of_nat (e - 1) :: u64) = e - 1"
    using Cons.prems(2) se
    by (simp_all only: ack_words(2,3) unat_of_nat) simp_all
  have e1: "(of_nat e - 1 :: u64) = of_nat (e - 1)" using se by (simp only: ack_words(1))
  have "unat (2 + ?gap) = 2 + (m - e - 1)"
    using un(1) Cons.prems(2) by (simp only: unat_word_ariths) simp
  then have gap: "\<not> of_nat m < 2 + ?gap" "\<not> (of_nat (e - 1) :: u64) < ?blk"
    using un se by (simp_all only: word_less_nat_alt) linarith+
  have back_to: "of_nat m - ?gap - 2 = (of_nat (e - 1) :: u64)" "of_nat (e - 1) - ?blk = (of_nat s :: u64)"
    unfolding e1 [symmetric] by (simp_all add: algebra_simps)
  have ins: "add_range (of_nat s) (of_nat (e - 1)) (received_set ((m, hi) # rs))
      = Inr (received_set ((s, e) # (m, hi) # rs))"
    by (rule add_range_below) (use Cons.prems se in \<open>auto simp: r0\<close>)
  have "ack_blocks (length it) (of_nat s) (received_set ((s, e) # (m, hi) # rs))
      (cursor_at (d @ varints [?gap, ?blk]) (varints (ack_fields (of_nat s) it) @ r))
    = Inr (received_set (rev it @ (s, e) # (m, hi) # rs),
        cursor_at ((d @ varints [?gap, ?blk]) @ varints (ack_fields (of_nat s) it)) r)"
    by (rule Cons.IH) (use Cons.prems se in \<open>auto simp: r0\<close>)
  then show ?case
    using ok gap ins
    by (simp only: r0 list.size ack_fields.simps Let_def ack_blocks.simps varints_simps append_assoc
        wire_read outcome_bind.simps case_prod_conv if_False back_to append_Nil2 rev.simps append_Cons
        append_Nil add_0_right add_Suc_right)
qed

lemma unat_length: "n < 2 ^ 62 \<Longrightarrow> unat (of_nat n :: u64) = n"
  by (simp add: unat_of_nat)

lemma unat_chunk_offset: "buf_max_off b < 2 ^ 62 \<Longrightarrow> unat (of_nat (buf_off b) :: u64) = buf_off b"
  by (intro unat_length) (simp add: buf_max_off_def)

lemma unat_chunk_len: "buf_len b < 2 ^ 14 \<Longrightarrow> unat (of_nat (buf_len b) :: u64) = buf_len b"
  by (intro unat_length) simp

lemma peek_u8_at: "peek_u (Suc 0) (cursor_at d r) = (Inr (0 :: u8) :: u8 octets_result) \<longleftrightarrow> r \<noteq> [] \<and> hd r = 0"
  by (cases r) (auto simp: peek_u_def)

lemma count_padding_at:
  "r = [] \<or> hd r \<noteq> 0 \<Longrightarrow>
   count_padding n (cursor_at d (replicate k 0 @ r)) = Inr (n + k, cursor_at (d @ replicate k 0) r)"
proof (induction k arbitrary: n d)
  case 0
  then show ?case by (subst count_padding.simps) (auto simp: peek_u8_at)
next
  case (Suc k)
  have "count_padding (n + 1) (cursor_at (d @ [0]) (replicate k 0 @ r))
      = Inr (n + 1 + k, cursor_at ((d @ [0]) @ replicate k 0) r)"
    by (rule Suc.IH [OF Suc.prems])
  then show ?case
    by (subst count_padding.simps) (simp add: peek_u8_at wire_read)
qed

lemma read_ecn_at:
  assumes "ecn_ok (Some ecn)"
  shows "read_ecn (cursor_at d (varints (ecn_fields (Some ecn)) @ r))
       = Inr (ecn, cursor_at (d @ varints (ecn_fields (Some ecn))) r)"
  using assms by (simp add: read_ecn_def ecn_fields_def ecn_ok_def wire_read)

lemma received_set_single: "s < e \<Longrightarrow> e \<le> 2 ^ 62 \<Longrightarrow>
  add_range (of_nat s) (of_nat (e - 1)) range_set_default = Inr (received_set [(s, e)])"
  using add_range_below [of s e "[]"]
  by (simp add: range_set_default_def range_set_new_def received_set_def MAX_INLINE_CAPACITY_def)

lemma parse_ack_at:
  assumes ok: "varint_ok largest" "varint_ok block" "varint_ok delay" "varint_ok count" "ecn_ok ecn"
    and "\<not> largest < block"
    and first: "add_range (largest - block) largest range_set_default = Inr first"
    and blocks: "\<And>d r. ack_blocks (unat count) (largest - block) first (cursor_at d (bytes @ r))
           = Inr (ranges, cursor_at (d @ bytes) r)"
  shows "parse_ack_frame (if ecn = None then 0x02 else 0x03)
           (cursor_at d (varints [largest, delay, count, block] @ bytes @ varints (ecn_fields ecn) @ r))
       = Inr (ACK delay ranges ecn,
           cursor_at (d @ varints [largest, delay, count, block] @ bytes @ varints (ecn_fields ecn)) r)"
proof (cases ecn)
  case None
  then show ?thesis
    using assms by (simp add: parse_ack_frame_def wire_read ecn_fields_def)
next
  case (Some e)
  then show ?thesis
    using assms read_ecn_at [of e _ r] by (simp add: parse_ack_frame_def wire_read)
qed

lemma ack_back:
  assumes "frame_ok (ACK delay ranges ecn)"
  shows "outcome_bind (read_varint (cursor_at d (frame_encoding (ACK delay ranges ecn) @ r)))
           (\<lambda>(ty, b). read_frame ty b)
       = Inr (as_received (ACK delay ranges ecn), cursor_at (d @ frame_encoding (ACK delay ranges ecn)) r)"
proof (rule ranges_sendable_split [of "range_set_iter ranges"])
  show "ranges_sendable (range_set_iter ranges)" using assms by simp
  fix s e it
  assume rs: "rev (range_set_iter ranges) = (s, e) # it" "s < e" "e \<le> 2 ^ 62" "ranges_ok (rev it)"
    "\<forall>r \<in> set it. snd r < s \<and> snd r \<le> 2 ^ 62" "length it < 2 ^ 62"
    "range_set_iter ranges = rev it @ [(s, e)]"
  define largest block :: u64 where "largest = of_nat e - 1" and "block = of_nat e - 1 - of_nat s"
  let ?ty = "if ecn = None then 2 else 3 :: u64" and ?fields = "varints (ack_fields (of_nat s) it)"
  have l: "largest = of_nat (e - 1)" "block = of_nat (e - 1 - s)"
    using ack_words(1) [of e] ack_words(2) [OF rs(2)] rs(2) by (simp_all only: largest_def block_def)
  have ok: "varint_ok largest" "varint_ok block" "varint_ok delay" "varint_ok (of_nat (length it))" "ecn_ok ecn"
    unfolding l using rs assms by (simp_all only: frame_ok.simps) (rule varint_ok_length, linarith)+
  have un: "unat largest = e - 1" "unat block = e - 1 - s" "unat (of_nat (length it) :: u64) = length it"
    unfolding l using rs(3,6) by (simp_all only: unat_length)
  have le: "\<not> largest < block" using un by (simp only: word_less_nat_alt)
  have small: "largest - block = of_nat s" by (simp add: largest_def block_def)
  have first: "add_range (largest - block) largest range_set_default = Inr (received_set [(s, e)])"
    unfolding small using received_set_single [OF rs(2,3)] l(1) by simp
  have blocks: "ack_blocks (unat (of_nat (length it) :: u64)) (largest - block) (received_set [(s, e)])
      (cursor_at d (?fields @ r)) = Inr (received_set (rev it @ [(s, e)]), cursor_at (d @ ?fields) r)" for d r
    unfolding small un by (rule ack_blocks_back) (use rs in auto)
  note frame = parse_ack_at [OF ok le first blocks]
  have enc: "frame_encoding (ACK delay ranges ecn) = varint_encoding ?ty
      @ varints [largest, delay, of_nat (length it), block] @ ?fields @ varints (ecn_fields ecn)"
    by (simp add: ack_encoding_def rs(1) largest_def block_def)
  have ty: "read_frame ?ty b = parse_ack_frame ?ty b" "varint_ok ?ty" for b
    by (cases ecn; simp add: read_frame_def frame_type_ok)+
  show ?thesis
    using frame [of "d @ varint_encoding ?ty" r] ty
    by (simp only: enc append_assoc read_varint_at outcome_bind.simps case_prod_conv as_received.simps rs(7))
qed

lemma frame_from_encoding:
  assumes "frame_ok f" and "frame_allowed pkt f"
    and "(\<exists>n. f = Padding n) \<Longrightarrow> r = [] \<or> hd r \<noteq> 0"
  shows "frame_from_bytes pkt (cursor_at d (frame_encoding f @ r))
       = Inr (as_received f, cursor_at (d @ frame_encoding f) r)"
proof -
  have allowed: "frame_allowed pkt (as_received f)"
    using assms(2) by (cases f; cases pkt) simp_all
  have "outcome_bind (read_varint (cursor_at d (frame_encoding f @ r))) (\<lambda>(ty, b). read_frame ty b)
      = Inr (as_received f, cursor_at (d @ frame_encoding f) r)"
  proof (cases f)
    case (Padding n)
    then obtain k where n: "n = Suc k" using assms(1) by (cases n) auto
    have "varint_encoding 0 = [0]" by (simp add: varint_encoding_def)
    then have "read_varint (cursor_at d (replicate n 0 @ r)) = Inr (0, cursor_at (d @ [0]) (replicate k 0 @ r))"
      using read_varint_at [of 0 d "replicate k 0 @ r"] n by (simp add: varint_ok_def)
    then show ?thesis
      using count_padding_at [of r 1 "d @ [0]" k] assms(3) Padding n by (simp add: read_frame_def)
  next
    case (ACK delay ranges ecn)
    then show ?thesis using ack_back assms(1) by blast
  next
    case (Crypto data)
    then show ?thesis
      using assms(1)
      by (simp add: read_frame_def wire_read frame_type_ok chunk_offset_ok read_varint_bytes_split
          unat_chunk_offset unat_chunk_len length_buf_bytes)
  next
    case (Stream sid data)
    then show ?thesis
      using assms(1)
      by (cases "rb_fin data")
         (simp_all add: read_frame_def parse_stream_frame_def wire_read frame_type_ok chunk_offset_ok
           unat_chunk_offset unat_chunk_len length_buf_bytes MAX_STREAM_SIZE_def buf_max_off_def Let_def)
  next
    case (NewToken token)
    then have len: "unat (of_nat (length token) :: u64) = length token" "token \<noteq> []"
      using assms(1) by (simp_all add: unat_length)
    then have "(of_nat (length token) :: u64) \<noteq> 0" by (metis length_0_conv unat_0)
    then show ?thesis
      using assms(1) NewToken len
      by (simp add: read_frame_def read_new_token_def wire_read frame_type_ok varint_ok_length)
  next
    case (NewConnectionId seq_num retire cid token)
    then have len: "unat (of_nat (length cid) :: u8) = length cid" "1 \<le> length cid" "length cid \<le> 20"
      using assms(1) by (simp_all add: unat_of_nat Suc_leI)
    then have "1 \<le> (of_nat (length cid) :: u8) \<and> of_nat (length cid) \<le> MAX_CID_LEN"
      by (simp add: word_le_nat_alt MAX_CID_LEN_def)
    then show ?thesis
      using assms(1) NewConnectionId len
      by (simp add: read_frame_def read_new_connection_id_def wire_read frame_type_ok)
  next
    case (Datagram data)
    then show ?thesis
      using assms(1)
      by (simp add: read_frame_def parse_datagram_frame_def wire_read frame_type_ok unat_of_nat Let_def)
  qed (use assms(1) in \<open>simp_all add: read_frame_def read_one_def read_two_def read_three_def
        wire_read frame_type_ok frame_type_1 varint_ok_length read_varint_bytes_split unat_length\<close>)
  then show ?thesis
    using allowed by (auto simp: frame_from_bytes_def split: prod.splits)
qed

subsection \<open>Well-formed frames\<close>

text \<open>
  What every frame that was read satisfies: the limits of the protocol on each of its fields, and
  an acknowledgement whose ranges are a proper range set.
\<close>

fun frame_wf :: "frame \<Rightarrow> bool" where
  "frame_wf (Padding len) \<longleftrightarrow> 0 < len"
| "frame_wf (Ping probe) \<longleftrightarrow> probe = None"
| "frame_wf (ACK ack_delay ranges ecn) \<longleftrightarrow>
     varint_ok ack_delay \<and> range_set_inv ranges \<and> range_set_iter ranges \<noteq> [] \<and> ecn_ok ecn"
| "frame_wf (ResetStream stream_id error_code final_size) \<longleftrightarrow>
     varint_ok stream_id \<and> varint_ok error_code \<and> varint_ok final_size"
| "frame_wf (StopSending stream_id error_code) \<longleftrightarrow> varint_ok stream_id \<and> varint_ok error_code"
| "frame_wf (Crypto data) \<longleftrightarrow> whole data \<and> buf_off data < 2 ^ 62 \<and> \<not> rb_fin data"
| "frame_wf (NewToken token) \<longleftrightarrow> token \<noteq> []"
| "frame_wf (Stream stream_id data) \<longleftrightarrow> varint_ok stream_id \<and> whole data \<and> buf_max_off data < MAX_STREAM_SIZE"
| "frame_wf (MaxData mx) \<longleftrightarrow> varint_ok mx"
| "frame_wf (MaxStreamData stream_id mx) \<longleftrightarrow> varint_ok stream_id \<and> varint_ok mx"
| "frame_wf (MaxStreamsBidi mx) \<longleftrightarrow> varint_ok mx"
| "frame_wf (MaxStreamsUni mx) \<longleftrightarrow> varint_ok mx"
| "frame_wf (DataBlocked limit) \<longleftrightarrow> varint_ok limit"
| "frame_wf (StreamDataBlocked stream_id limit) \<longleftrightarrow> varint_ok stream_id \<and> varint_ok limit"
| "frame_wf (StreamsBlockedBidi limit) \<longleftrightarrow> varint_ok limit"
| "frame_wf (StreamsBlockedUni limit) \<longleftrightarrow> varint_ok limit"
| "frame_wf (NewConnectionId seq_num retire_prior_to conn_id reset_token) \<longleftrightarrow>
     varint_ok seq_num \<and> varint_ok retire_prior_to \<and> 1 \<le> length conn_id \<and> length conn_id \<le> 20
     \<and> length reset_token = 16"
| "frame_wf (RetireConnectionId seq_num) \<longleftrightarrow> varint_ok seq_num"
| "frame_wf (PathChallenge data) \<longleftrightarrow> length data = 8"
| "frame_wf (PathResponse data) \<longleftrightarrow> length data = 8"
| "frame_wf (ConnectionClose error_code frame_type reason) \<longleftrightarrow> varint_ok error_code \<and> varint_ok frame_type"
| "frame_wf (ApplicationClose error_code reason) \<longleftrightarrow> varint_ok error_code"
| "frame_wf HandshakeDone \<longleftrightarrow> True"
| "frame_wf (Datagram data) \<longleftrightarrow> True"
| "frame_wf _ \<longleftrightarrow> False"

definition yields :: "(octets \<Rightarrow> ('a \<times> octets) quic_result) \<Rightarrow> ('a \<Rightarrow> bool) \<Rightarrow> bool" where
  "yields r P \<longleftrightarrow> (\<forall>b x b'. r b = Inr (x, b') \<longrightarrow> P x)"

named_theorems yielding \<open>what readers yield\<close>

lemma yields_return [yielding]:
  "P x \<Longrightarrow> yields (\<lambda>b. Inr (x, b)) P" "yields (\<lambda>b. Inl e) P"
  by (simp_all add: yields_def)

lemma yields_cap [yielding]: "(\<And>b. P (g b)) \<Longrightarrow> yields (\<lambda>b. Inr (g b, b)) P"
  by (auto simp: yields_def)

lemma yields_if [yielding]:
  "(c \<Longrightarrow> yields r P) \<Longrightarrow> (\<not> c \<Longrightarrow> yields s P) \<Longrightarrow> yields (\<lambda>b. if c then r b else s b) P"
  by (cases c) simp_all

lemma yields_bind:
  "yields r Q \<Longrightarrow> (\<And>x. Q x \<Longrightarrow> yields (f x) P) \<Longrightarrow>
   yields (\<lambda>b. outcome_bind (r b) (\<lambda>(x, b). f x b)) P"
  by (fastforce simp: yields_def)

lemma yields_varint: "yields read_varint varint_ok"
  unfolding yields_def using read_varint_spec by (metis Inl_Inr_False Inr_inject fst_conv)

lemma yields_bytes: "yields (read_bytes n) (\<lambda>v. length v = n)"
  unfolding yields_def using read_bytes_spec [of n] by (metis Inl_Inr_False Inr_inject fst_conv)

lemma yields_any: "yields r (\<lambda>_. True)"
  by (simp add: yields_def)

lemmas yields_bind_field [yielding] =
  yields_bind [OF yields_varint] yields_bind [OF yields_bytes] yields_bind [OF yields_any [of read_u8]]
  yields_bind [OF yields_any [of read_varint_bytes]]

lemma yields_padding: "yields (count_padding n) (\<lambda>len. n \<le> len)"
proof -
  have "n \<le> len" if "count_padding n b = Inr (len, b')" for b len b'
    using that
  proof (induction n b rule: count_padding.induct)
    case (1 n b)
    show ?case
    proof (cases "peek_u 1 b = Inr (0 :: u8)")
      case True
      then obtain v b1 where "read_u8 b = Inr (v, b1)" "count_padding (n + 1) b1 = Inr (len, b')"
        using 1(2) by (subst (asm) count_padding.simps) auto
      then show ?thesis using 1(1) [OF True] by fastforce
    next
      case False
      then show ?thesis using 1(2) by (subst (asm) count_padding.simps) auto
    qed
  qed
  then show ?thesis by (simp add: yields_def)
qed

definition good_ranges :: "range_set \<Rightarrow> bool" where
  "good_ranges ranges \<longleftrightarrow> range_set_inv ranges \<and> range_set_iter ranges \<noteq> []"

lemma add_range_good:
  assumes "range_set_inv ranges" and "varint_ok largest" and "smallest \<le> largest"
    and "add_range smallest largest ranges = Inr ranges'"
  shows "good_ranges ranges'"
proof -
  have lt: "unat smallest < unat (largest + 1)"
    using assms(2,3) by (simp add: varint_ok_iff unat_word_ariths word_le_nat_alt)
  have "range_set_insert (unat smallest) (unat (largest + 1)) ranges = Some ranges'"
    using assms(4) by (simp add: add_range_def split: option.splits)
  then have "range_set_inv ranges'" "unat smallest \<in> members ranges'"
    using range_set_insert_spec [OF assms(1) lt] lt by auto
  then show ?thesis by (auto simp: good_ranges_def)
qed

lemma yields_ack_blocks:
  assumes "good_ranges ranges" and "varint_ok smallest"
  shows "yields (ack_blocks n smallest ranges) good_ranges"
  unfolding yields_def
proof (intro allI impI)
  fix b x b'
  assume "ack_blocks n smallest ranges b = Inr (x, b')"
  then show "good_ranges x"
    using assms
  proof (induction n arbitrary: smallest ranges b)
    case (Suc n)
    then obtain gap b1 blk b2 ranges1 where step:
      "read_varint b = Inr (gap, b1)" "\<not> smallest < 2 + gap" "read_varint b1 = Inr (blk, b2)"
      "\<not> smallest - gap - 2 < blk"
      "add_range (smallest - gap - 2 - blk) (smallest - gap - 2) ranges = Inr ranges1"
      "ack_blocks n (smallest - gap - 2 - blk) ranges1 b2 = Inr (x, b')"
      by (auto simp: Let_def split: if_splits)
    have largest: "varint_ok (smallest - gap - 2)"
      using varint_ok_minus [OF Suc.prems(3), of "2 + gap"] step(2)
      by (simp add: not_less diff_diff_eq add.commute)
    then have small: "varint_ok (smallest - gap - 2 - blk)" "smallest - gap - 2 - blk \<le> smallest - gap - 2"
      using varint_ok_minus [OF largest, of blk] step(4) by (auto simp: word_le_nat_alt unat_sub not_less)
    have "good_ranges ranges1"
      using add_range_good [OF _ largest small(2) step(5)] Suc.prems(2) by (simp add: good_ranges_def)
    then show ?case using Suc.IH [OF step(6)] small(1) by blast
  qed simp
qed

lemma yields_ack: "yields (parse_ack_frame ty) frame_wf"
  unfolding yields_def
proof (intro allI impI)
  fix b x b'
  assume "parse_ack_frame ty b = Inr (x, b')"
  then obtain largest b1 delay b2 count b3 block b4 first ranges b5 ecn where step:
    "read_varint b = Inr (largest, b1)" "read_varint b1 = Inr (delay, b2)" "read_varint b2 = Inr (count, b3)"
    "\<not> largest < block" "add_range (largest - block) largest range_set_default = Inr first"
    "ack_blocks (unat count) (largest - block) first b4 = Inr (ranges, b5)"
    and x: "x = ACK delay ranges ecn" "ecn = None \<or> (\<exists>e b6. ecn = Some e \<and> read_ecn b5 = Inr (e, b6))"
    by (auto simp: parse_ack_frame_def Let_def split: if_splits)
  have ok: "varint_ok largest" "varint_ok delay"
    using step(1,2) yields_varint by (auto simp: yields_def)
  have small: "varint_ok (largest - block)" "largest - block \<le> largest"
    using varint_ok_minus [OF ok(1), of block] step(4) by (auto simp: word_le_nat_alt unat_sub not_less)
  have "good_ranges first" using add_range_good [OF range_set_inv_default ok(1) small(2) step(5)] .
  from yields_ack_blocks [OF this small(1), of "unat count"] have "good_ranges ranges"
    using step(6) unfolding yields_def by blast
  moreover have "yields read_ecn (\<lambda>e. ecn_ok (Some e))"
    unfolding read_ecn_def [abs_def]
    by (intro yielding) (simp add: ecn_ok_def ecn_fields_def)
  then have "ecn_ok ecn" using x(2) by (auto simp: yields_def ecn_ok_def [of None] ecn_fields_def [of None])
  ultimately show "frame_wf x" using ok(2) x(1) by (simp add: good_ranges_def)
qed

lemma yields_varint_or: "yields (\<lambda>b. if c then read_varint b else Inr (0, b)) varint_ok"
  using yields_varint by (cases c) (simp_all add: yields_def varint_ok_def)

lemma yields_stream: "yields (parse_stream_frame ty) frame_wf"
  unfolding parse_stream_frame_def [abs_def] Let_def
  by (intro yielding yields_bind [OF yields_varint_or] yields_bind [OF yields_any])
     (simp add: range_buf_from_whole MAX_STREAM_SIZE_def)

lemma yields_new_token: "yields read_new_token frame_wf"
proof -
  have "v \<noteq> []" if "n \<noteq> 0" "length v = unat n" for n :: u64 and v :: bytes
    using that by (auto simp: unat_eq_zero)
  then show ?thesis
    unfolding read_new_token_def [abs_def] by (intro yielding) simp
qed

lemma yields_new_connection_id: "yields read_new_connection_id frame_wf"
proof -
  have "1 \<le> length v \<and> length v \<le> 20"
    if "\<not> \<not> (1 \<le> n \<and> n \<le> MAX_CID_LEN)" "length v = unat n" for n and v :: bytes
    using that by (simp add: word_le_nat_alt MAX_CID_LEN_def)
  then show ?thesis
    unfolding read_new_connection_id_def [abs_def] by (intro yielding) simp
qed

lemma yields_crypto:
  "yields (\<lambda>b. outcome_bind (read_varint b) (\<lambda>(offset, b).
     outcome_bind (read_varint_bytes b) (\<lambda>(data, b).
       Inr (Crypto (range_buf_from data (unat offset) False), b)))) frame_wf"
proof -
  have "rb_fin (range_buf_from data off f) = f" for data off f by (simp add: range_buf_from_def)
  then show ?thesis by (intro yielding) (simp add: range_buf_from_whole varint_ok_iff)
qed

lemma yields_integers:
  "(\<And>x. varint_ok x \<Longrightarrow> frame_wf (f1 x)) \<Longrightarrow> yields (read_one f1) frame_wf"
  "(\<And>x y. varint_ok x \<Longrightarrow> varint_ok y \<Longrightarrow> frame_wf (f2 x y)) \<Longrightarrow> yields (read_two f2) frame_wf"
  "(\<And>x y z. varint_ok x \<Longrightarrow> varint_ok y \<Longrightarrow> varint_ok z \<Longrightarrow> frame_wf (f3 x y z)) \<Longrightarrow>
     yields (read_three f3) frame_wf"
  unfolding read_three_def [abs_def] read_two_def [abs_def] read_one_def [abs_def] by (intro yielding; simp)+

lemma yields_choice: "yields r P \<Longrightarrow> yields s P \<Longrightarrow> yields (\<lambda>b. if c then r b else s b) P"
  by (cases c) simp_all

lemma yields_datagram: "yields (parse_datagram_frame ty) frame_wf"
  unfolding parse_datagram_frame_def [abs_def] Let_def
  by (intro yields_bind [OF yields_any] yielding) simp

lemma yields_frame: "yields (read_frame ty) frame_wf"
  unfolding read_frame_def [abs_def]
  by (intro yields_choice yields_ack yields_stream yields_new_token yields_new_connection_id
      yields_datagram yields_crypto yields_integers yields_bind [OF yields_padding] yielding) simp_all

lemma frame_from_bytes_wf: "yields (frame_from_bytes pkt) (\<lambda>f. frame_wf f \<and> frame_allowed pkt f)"
  unfolding frame_from_bytes_def [abs_def] by (intro yielding yields_bind [OF yields_frame]) simp

subsection \<open>Payloads\<close>

lemma payload_frames_wf:
  assumes "payload_frames pkt b acc = Inr fs" and "list_all (\<lambda>f. frame_wf f \<and> frame_allowed pkt f) acc"
  shows "list_all (\<lambda>f. frame_wf f \<and> frame_allowed pkt f) fs"
  using assms
proof (induction pkt b acc rule: payload_frames.induct)
  case (1 pkt b acc)
  show ?case
  proof (cases "0 < o_cap b")
    case True
    then obtain f b' where f: "frame_from_bytes pkt b = Inr (f, b')"
      and rest: "payload_frames pkt b' (acc @ [f]) = Inr fs"
      using 1(2) by (subst (asm) payload_frames.simps) auto
    have "frame_wf f \<and> frame_allowed pkt f"
      using frame_from_bytes_wf f unfolding yields_def by blast
    then show ?thesis using 1(1) [OF True f refl rest] 1(3) by simp
  next
    case False
    then show ?thesis using 1(2,3) by (subst (asm) payload_frames.simps) simp
  qed
qed

lemma payload_frames_no_panic: "payload_frames pkt b acc \<noteq> Inl Panic"
proof (induction pkt b acc rule: payload_frames.induct)
  case (1 pkt b acc)
  then show ?case
    using reader_frame_from_bytes [of pkt]
    by (subst payload_frames.simps) (auto simp: outcome_bind_Inl_iff reader_def)
qed

text \<open>Adjacent runs of padding are one frame to the reader, and bytes that are not padding are not zero.\<close>

fun padding_apart :: "frame list \<Rightarrow> bool" where
  "padding_apart (Padding _ # Padding _ # _) \<longleftrightarrow> False"
| "padding_apart (_ # fs) \<longleftrightarrow> padding_apart fs"
| "padding_apart [] \<longleftrightarrow> True"

lemma frame_encoding_first:
  assumes "frame_ok f"
  shows "frame_encoding f \<noteq> []" and "\<nexists>n. f = Padding n \<Longrightarrow> hd (frame_encoding f) \<noteq> 0"
proof -
  have ne: "varint_encoding v \<noteq> []" for v by (metis length_0_conv length_varint_encoding numeral_eq_one_iff
        one_neq_zero zero_neq_numeral)
  have ack: "varints (ack_encoding delay rs ecn) \<noteq> [] \<and> hd (varints (ack_encoding delay rs ecn)) \<noteq> 0"
    if "ranges_sendable rs" for delay rs ecn
    by (rule ranges_sendable_split [OF that]) (use ne in \<open>auto simp: ack_encoding_def frame_type_ok\<close>)
  show "frame_encoding f \<noteq> []" using assms ne ack by (cases f) auto
  show "\<nexists>n. f = Padding n \<Longrightarrow> hd (frame_encoding f) \<noteq> 0"
    using assms ne ack by (cases f) (auto simp: frame_type_ok frame_type_1)
qed

lemma payload_round_trip_at:
  assumes "list_all (\<lambda>f. frame_ok f \<and> frame_allowed pkt f) fs" and "padding_apart fs"
  shows "payload_frames pkt (cursor_at d (concat (map frame_encoding fs))) acc = Inr (acc @ map as_received fs)"
  using assms
proof (induction fs arbitrary: d acc)
  case Nil
  then show ?case by (subst payload_frames.simps) simp
next
  case (Cons f fs)
  let ?r = "concat (map frame_encoding fs)"
  have tail: "?r = [] \<or> hd ?r \<noteq> 0" if "f = Padding n" for n
  proof (cases fs)
    case (Cons g gs)
    then have "\<nexists>n. g = Padding n" using Cons.prems(2) that by auto
    then show ?thesis
      using frame_encoding_first [of g] Cons.prems(1) Cons by simp
  qed simp
  have "frame_from_bytes pkt (cursor_at d (frame_encoding f @ ?r))
      = Inr (as_received f, cursor_at (d @ frame_encoding f) ?r)"
    using Cons.prems(1) tail by (intro frame_from_encoding) auto
  moreover have "padding_apart fs"
    using Cons.prems(2) by (cases "(f # fs)" rule: padding_apart.cases) auto
  ultimately show ?case
    using Cons.IH Cons.prems(1) frame_encoding_first(1) [of f]
    by (subst payload_frames.simps) simp
qed

text \<open>
  C18: A frame is read back as it was sent.  The encoder writes exactly as many bytes as
  \<open>wire_len\<close> announces or reports a short buffer, and the decoder, whatever follows, recovers the
  frame with its ranges, chunk and integers and stops behind its last byte.
\<close>

theorem frame_round_trip:
  assumes "frame_ok f" and "frame_allowed pkt f"
  shows "\<exists>bs. wire_len f = Some (length bs)
           \<and> (\<forall>d n. frame_to_bytes f (fresh d n)
                = (if length bs \<le> n then Inr (length bs, fresh (d @ bs) (n - length bs))
                   else Inl (Error BufferTooShort)))
           \<and> (\<forall>d r. ((\<exists>n. f = Padding n) \<longrightarrow> r = [] \<or> hd r \<noteq> 0) \<longrightarrow>
                frame_from_bytes pkt (cursor_at d (bs @ r)) = Inr (as_received f, cursor_at (d @ bs) r))"
proof -
  let ?bs = "frame_encoding f"
  have "frame_to_bytes f (fresh d n)
      = (if length ?bs \<le> n then Inr (length ?bs, fresh (d @ ?bs) (n - length ?bs))
         else Inl (Error BufferTooShort))" for d n
    using writes_frame [OF assms(1)] by (simp add: writes_def frame_to_bytes_def octets_write_fresh Let_def)
  then show ?thesis
    using wire_len_encoding [OF assms(1)] frame_from_encoding [OF assms] by blast
qed

definition sample_ack :: frame where
  "sample_ack = ACK 7 (Inline [(1, 3), (5, 6), (300, 70000)] 68) (Some \<lparr>ect0_count = 1, ect1_count = 0, ecn_ce_count = 90\<rparr>)"

theorem frame_round_trip_witness:
  "\<exists>bs. wire_len sample_ack = Some (length bs) \<and> frame_to_bytes sample_ack (fresh [] 100) = Inr (length bs, fresh bs (100 - length bs))
     \<and> (\<forall>r. frame_from_bytes Handshake (cursor_at [] (bs @ r)) = Inr (as_received sample_ack, cursor_at bs r))"
proof -
  have "frame_ok sample_ack"
    by (simp add: sample_ack_def ranges_sendable_def ecn_ok_def ecn_fields_def varint_ok_def MAX_VAR_INT_def)
  moreover have "frame_allowed Handshake sample_ack" by (simp add: sample_ack_def)
  ultimately obtain bs where bs: "wire_len sample_ack = Some (length bs)"
    "frame_to_bytes sample_ack (fresh [] 100)
       = (if length bs \<le> 100 then Inr (length bs, fresh ([] @ bs) (100 - length bs)) else Inl (Error BufferTooShort))"
    "\<forall>r. frame_from_bytes Handshake (cursor_at [] (bs @ r)) = Inr (as_received sample_ack, cursor_at ([] @ bs) r)"
    using frame_round_trip [of sample_ack Handshake] unfolding sample_ack_def by fast
  have "wire_len sample_ack = Some 20" by code_simp
  with bs show ?thesis by auto
qed

text \<open>
  C12: The frames of a packet arrive as they were packed.  Written one after the other into the
  payload, in any number and of any kinds the packet type allows, they are read back in the same
  order, and nothing else is read.
\<close>

theorem payload_round_trip:
  assumes "list_all (\<lambda>f. frame_ok f \<and> frame_allowed pkt f) fs" and "padding_apart fs"
  shows "\<exists>bs. in_turn (map write_frame fs) (fresh [] (length bs)) = Inr (fresh bs 0)
           \<and> payload_frames pkt (octets_with_slice bs) [] = Inr (map as_received fs)"
proof -
  let ?bs = "concat (map frame_encoding fs)"
  have "list_all2 writes (map write_frame fs) (map frame_encoding fs)"
    using assms(1) writes_frame by (simp add: list_all2_conv_all_nth list_all_length)
  from writes_in_turn [OF this] have "in_turn (map write_frame fs) (fresh [] (length ?bs)) = Inr (fresh ?bs 0)"
    by (simp add: writes_def octets_write_fresh)
  then show ?thesis
    using payload_round_trip_at [OF assms, of "[]" "[]"] with_slice_at [of ?bs] by (metis append_Nil)
qed

definition sample_frames :: "frame list" where
  "sample_frames =
     [Padding 3, sample_ack, Crypto (range_buf_from [1, 2, 3] 1200 False), Padding 2, Ping None,
      ConnectionClose 10 0 [104, 105], Padding 1]"

theorem payload_round_trip_witness:
  "\<exists>bs. in_turn (map write_frame sample_frames) (fresh [] (length bs)) = Inr (fresh bs 0)
     \<and> payload_frames Initial (octets_with_slice bs) [] = Inr (map as_received sample_frames)"
proof -
  have "list_all (\<lambda>f. frame_ok f \<and> frame_allowed Initial f) sample_frames"
    by (simp add: sample_frames_def sample_ack_def ranges_sendable_def ecn_ok_def ecn_fields_def
        varint_ok_def MAX_VAR_INT_def buf_ok_def range_buf_from_def buf_len_def buf_max_off_def buf_off_def)
  moreover have "padding_apart sample_frames" by (simp add: sample_frames_def sample_ack_def)
  ultimately show ?thesis by (rule payload_round_trip)
qed

text \<open>
  C5: No datagram can crash the decoders: whatever the bytes, reading a header and reading all
  frames of a payload end without a panic.
\<close>

theorem hostile_bytes_never_panic:
  "from_slice buf dcid_len \<noteq> Inl Panic \<and> payload_frames pkt (octets_with_slice payload) [] \<noteq> Inl Panic"
  using header_no_panic [of "octets_with_slice buf" dcid_len] payload_frames_no_panic
  by (auto simp: from_slice_def outcome_bind_Inl_iff)

text \<open>
  C13: Whatever bytes a packet carries, every frame the connection gets to process is well formed
  and allowed in a packet of that type: identifiers and tokens have their prescribed sizes,
  stream data ends below the maximal stream size, acknowledged ranges form a proper range set, and
  before the handshake is done only padding, pings, acknowledgements, handshake data and a
  connection close get through.
\<close>

theorem decoded_frames_are_well_formed:
  assumes "payload_frames pkt (octets_with_slice payload) [] = Inr fs" and "f \<in> set fs"
  shows "frame_wf f \<and> frame_allowed pkt f
         \<and> (pkt = Initial \<or> pkt = Handshake \<longrightarrow>
              (case f of Padding _ \<Rightarrow> True | Ping _ \<Rightarrow> True | ACK _ _ _ \<Rightarrow> True | Crypto _ \<Rightarrow> True
               | ConnectionClose _ _ _ \<Rightarrow> True | _ \<Rightarrow> False))"
proof -
  have wf: "frame_wf f \<and> frame_allowed pkt f"
    using payload_frames_wf [OF assms(1)] assms(2) by (simp add: list_all_iff)
  then show ?thesis by (cases f) auto
qed

theorem decoded_frames_are_well_formed_witness:
  "payload_frames Initial (octets_with_slice [0, 0, 6, 1, 2, 9, 9]) []
     = Inr [Padding 2, Crypto (range_buf_from [9, 9] 1 False)]
   \<and> frame_wf (Crypto (range_buf_from [9, 9] 1 False))"
proof -
  have run: "payload_frames Initial (octets_with_slice [0, 0, 6, 1, 2, 9, 9]) []
      = Inr [Padding 2, Crypto (range_buf_from [9, 9] 1 False)]"
    by code_simp
  from decoded_frames_are_well_formed [OF run, of "Crypto (range_buf_from [9, 9] 1 False)"] run
  show ?thesis by simp
qed

end
