(* ===== verification/Stream_Transfer.thy ===== *)
theory Stream_Transfer
  imports Send_Buf Quic_Frame
begin

text \<open>
  A stream between two endpoints: the send buffer, the STREAM frames it is packed into, and the
  receive buffer, composed the way \<open>engine/quiche/quiche/src/lib.rs\<close> composes them in
  \<open>send_single\<close> and \<open>process_frame\<close>.  The network between them may lose, repeat, delay and reorder
  frames at will.
\<close>

subsection \<open>Packing and unpacking\<close>

text \<open>
  The frame built from a send buffer when \<open>left\<close> bytes of the packet are free: its bytes, what the
  connection remembers of it, and the buffer; \<open>None\<close> if not even the frame header fits.
\<close>

definition put_stream_frame ::
  "u64 \<Rightarrow> nat \<Rightarrow> send_buf \<Rightarrow> (bytes \<times> stream_frame \<times> send_buf) option quic_result" where
  "put_stream_frame stream_id left send =
     (let stream_off = off_front send
      in case varints_len [stream_id, of_nat stream_off] of
           None \<Rightarrow> Inl Panic
         | Some n \<Rightarrow>
             (let hdr_len = 1 + n + 2
              in if left < hdr_len then Inr None
                 else
                   outcome_bind (send_emit (replicate (left - hdr_len) 0) send)
                     (\<lambda>(len, fin, payload, send).
                        outcome_bind
                          (encode_stream_header stream_id (of_nat stream_off) (of_nat len) fin
                             (fresh [] hdr_len))
                          (\<lambda>stream_hdr.
                             Inr (Some (o_buf stream_hdr @ take len payload,
                               \<lparr>sf_off = stream_off, sf_data = take len payload, sf_fin = fin\<rparr>,
                               send))))))"

text \<open>A chunk that has arrived, checked against the limits of the connection and of the stream.\<close>

definition take_stream_data ::
  "nat \<Rightarrow> range_buf \<Rightarrow> recv_buf \<Rightarrow> (quic_error + recv_buf) option" where
  "take_stream_data max_rx_data_left data recv =
     (let max_off_delta = buf_max_off data - rv_len recv
      in if max_rx_data_left < max_off_delta then Some (Inl FlowControl) else recv_write data recv)"

subsection \<open>Two endpoints\<close>

record transfer =
  tr_source :: source
  tr_wire :: "bytes list"
  tr_recv :: recv_buf
  tr_read :: bytes

datatype transfer_event =
    Local source_event
  | Pack nat
  | Deliver nat nat
  | Consume nat
  | Widen nat

text \<open>
  \<open>Deliver i left\<close> hands the bytes of the \<open>i\<close>-th frame to the receiver, whose connection has \<open>left\<close>
  bytes of credit.  \<open>None\<close> is a panic on either side.
\<close>

fun transfer_do :: "u64 \<Rightarrow> transfer_event \<Rightarrow> transfer \<Rightarrow> transfer option" where
  "transfer_do sid (Local ev) t =
     map_option (\<lambda>s. t\<lparr>tr_source := s\<rparr>) (source_do ev (tr_source t))"
| "transfer_do sid (Pack left) t =
     attempt (put_stream_frame sid left (sn_buf (tr_source t))) t (\<lambda>packed.
       case packed of
         None \<Rightarrow> t
       | Some (wire, f, b) \<Rightarrow>
           t\<lparr>tr_source := (tr_source t)\<lparr>sn_buf := b,
                                     sn_frames := sn_frames (tr_source t) @ [(f, InFlight)]\<rparr>,
             tr_wire := tr_wire t @ [wire]\<rparr>)"
| "transfer_do sid (Deliver i left) t =
     (case slice_at (tr_wire t) i of
        None \<Rightarrow> Some t
      | Some wire \<Rightarrow>
          (case frame_from_bytes Short (octets_with_slice wire) of
             Inr (Stream stream_id data, _) \<Rightarrow>
               if stream_id = sid then
                 (case take_stream_data left data (tr_recv t) of
                    None \<Rightarrow> None
                  | Some (Inl _) \<Rightarrow> Some t
                  | Some (Inr r) \<Rightarrow> Some (t\<lparr>tr_recv := r\<rparr>))
               else Some t
           | Inr _ \<Rightarrow> Some t
           | Inl (Error _) \<Rightarrow> Some t
           | Inl Panic \<Rightarrow> None))"
| "transfer_do sid (Consume cap) t =
     (case recv_emit cap (tr_recv t) of
        (_, out, r) \<Rightarrow> Some (t\<lparr>tr_recv := r, tr_read := tr_read t @ out\<rparr>))"
| "transfer_do sid (Widen now) t =
     Some (t\<lparr>tr_recv := recv_update_max_data now (tr_recv t)\<rparr>)"

fun transfer_run :: "u64 \<Rightarrow> transfer_event list \<Rightarrow> transfer \<Rightarrow> transfer option" where
  "transfer_run sid [] t = Some t"
| "transfer_run sid (e # es) t = Option.bind (transfer_do sid e t) (transfer_run sid es)"

definition transfer_new :: "nat \<Rightarrow> nat \<Rightarrow> nat \<Rightarrow> transfer" where
  "transfer_new max_data window max_window =
     \<lparr>tr_source = source_new max_data, tr_wire = [], tr_recv = recv_buf_new max_data window max_window,
      tr_read = []\<rparr>"

text \<open>Frames go through \<open>Pack\<close> only, a packet is shorter than \<open>2^14\<close> bytes, and the stream is not reset.\<close>

fun event_ok :: "transfer_event \<Rightarrow> bool" where
  "event_ok (Local (Transmit _)) \<longleftrightarrow> False"
| "event_ok (Local (Stop _)) \<longleftrightarrow> False"
| "event_ok (Local Shutdown) \<longleftrightarrow> False"
| "event_ok (Local ev) \<longleftrightarrow> grant_ok ev"
| "event_ok (Pack left) \<longleftrightarrow> left < 2 ^ 14"
| "event_ok _ \<longleftrightarrow> True"

subsection \<open>The frame on the wire\<close>

lemma put_stream_frame_spec:
  assumes inv: "source_inv s" and sid: "varint_ok sid" and left: "left < 2 ^ 14"
  obtains (no_room) "put_stream_frame sid left (sn_buf s) = Inr None"
  | (packed) f b where
      "put_stream_frame sid left (sn_buf s)
         = Inr (Some (frame_encoding (Stream sid (range_buf_from (sf_data f) (sf_off f) (sf_fin f))), f, b))"
      "source_inv (s\<lparr>sn_buf := b, sn_frames := sn_frames s @ [(f, InFlight)]\<rparr>)"
      "frame_ok (Stream sid (range_buf_from (sf_data f) (sf_off f) (sf_fin f)))"
      "length (frame_encoding (Stream sid (range_buf_from (sf_data f) (sf_off f) (sf_fin f)))) \<le> left"
      "sd_fin_off b = sd_fin_off (sn_buf s)"
proof -
  let ?b = "sn_buf s" and ?front = "off_front (sn_buf s)"
  have b: "send_inv (stream_of (sn_written s)) ?b" using inv by (simp add: source_inv_def)
  obtain lo where lim: "sd_off ?b \<le> sd_max_data ?b" "sd_max_data ?b < 2 ^ 62" "sd_emit_off ?b \<le> sd_off ?b"
    "pending (sd_data ?b) \<subseteq> {lo..<sd_off ?b}"
    using b by (rule send_invE)
  have front: "?front \<le> sd_emit_off ?b" by (rule off_front_spec(1) [OF b])
  then have ok: "varint_ok (of_nat ?front)" using lim by (intro varint_ok_length) simp
  then have n: "varints_len [sid, of_nat ?front] = Some (length (varints [sid, of_nat ?front]))"
    using sid by (intro varints_len_eq) simp
  let ?hdr = "1 + length (varints [sid, of_nat ?front]) + 2"
  show thesis
  proof (cases "left < ?hdr")
    case True
    then show thesis by (intro no_room) (simp only: put_stream_frame_def Let_def n option.case if_True)
  next
    case False
    let ?room = "left - ?hdr"
    obtain k out b' where r: "send_emit (replicate ?room 0) ?b = Inr (k, sd_fin_off ?b = Some (?front + k), out, b')"
      "k \<le> ?room" "take k out = map (stream_of (sn_written s)) [?front..<?front + k]"
      "{?front..<?front + k} \<subseteq> pending (sd_data ?b)" "sd_fin_off b' = sd_fin_off ?b"
      using send_emit_spec [OF b, of "replicate ?room 0"] by (metis length_replicate)
    define f where "f = \<lparr>sf_off = ?front, sf_data = take k out, sf_fin = (sd_fin_off ?b = Some (?front + k))\<rparr>"
    let ?data = "range_buf_from (sf_data f) (sf_off f) (sf_fin f)"
    have len: "length (take k out) = k" unfolding r(3) by simp
    then have view: "buf_len ?data = k" "buf_off ?data = ?front" "buf_bytes ?data = take k out" "rb_fin ?data = sf_fin f"
      "buf_max_off ?data = ?front + k" "buf_ok ?data"
      by (simp_all add: f_def range_buf_from_def buf_len_def buf_off_def buf_bytes_def buf_max_off_def buf_ok_def)
    have "?front + k \<le> sd_off ?b"
    proof (cases "k = 0")
      case False
      then have "?front + k - 1 \<in> {?front..<?front + k}" by auto
      then show ?thesis using r(4) lim(4) False by fastforce
    qed (use front lim(3) in simp)
    then have fok: "frame_ok (Stream sid ?data)" using sid lim r(2) left view by simp
    let ?bytes = "varints [if sf_fin f then 0x0f else 0x0e, sid, of_nat ?front] @ varint2_encoding k"
    have hdr: "length ?bytes = ?hdr" by (simp add: frame_type_ok)
    have "writes (encode_stream_header sid (of_nat ?front) (of_nat k) (sf_fin f)) ?bytes"
      using writes_stream_header [OF fok] unfolding view .
    then have "encode_stream_header sid (of_nat ?front) (of_nat k) (sf_fin f) (fresh [] ?hdr) = Inr (fresh ?bytes 0)"
      using hdr by (simp add: writes_def octets_write_fresh)
    then have "put_stream_frame sid left ?b = Inr (Some (?bytes @ take k out, f, b'))"
      unfolding put_stream_frame_def Let_def n option.case if_not_P [OF False] r(1) outcome_bind.simps prod.case
      by (simp add: f_def)
    moreover have enc: "frame_encoding (Stream sid ?data) = ?bytes @ take k out" by (simp add: view)
    moreover have "source_inv (s\<lparr>sn_buf := b', sn_frames := sn_frames s @ [(f, InFlight)]\<rparr>)"
      using source_transmitted [OF inv, of ?room] r(1) by (simp add: attempt_def f_def)
    moreover have "length (frame_encoding (Stream sid ?data)) \<le> left"
      using r(2) False hdr len unfolding enc by simp
    ultimately show thesis using fok r(5) by (intro packed [of f b']) simp_all
  qed
qed

subsection \<open>What holds at every moment\<close>

definition packed_as :: "u64 \<Rightarrow> stream_frame \<Rightarrow> bytes \<Rightarrow> bool" where
  "packed_as sid f wire \<longleftrightarrow>
     frame_ok (Stream sid (range_buf_from (sf_data f) (sf_off f) (sf_fin f)))
     \<and> wire = frame_encoding (Stream sid (range_buf_from (sf_data f) (sf_off f) (sf_fin f)))"

definition transfer_inv :: "u64 \<Rightarrow> transfer \<Rightarrow> bool" where
  "transfer_inv sid t \<longleftrightarrow>
     source_inv (tr_source t)
     \<and> list_all2 (packed_as sid) (map fst (sn_frames (tr_source t))) (tr_wire t)
     \<and> recv_inv (stream_of (sn_written (tr_source t))) (tr_recv t)
     \<and> \<not> rv_drain (tr_recv t) \<and> rv_error (tr_recv t) = None
     \<and> received (tr_recv t) \<subseteq> {..<length (sn_written (tr_source t))}
     \<and> rv_off (tr_recv t) \<le> length (sn_written (tr_source t))
     \<and> tr_read t = take (rv_off (tr_recv t)) (sn_written (tr_source t))
     \<and> (\<forall>n. rv_fin_off (tr_recv t) = Some n \<longrightarrow> sd_fin_off (sn_buf (tr_source t)) = Some n)"

lemma recv_inv_cong:
  assumes "recv_inv S r" and "\<And>x. x \<in> received r \<Longrightarrow> S x = S' x"
  shows "recv_inv S' r"
proof -
  have "carries S' b" if "b \<in> chunks r" "carries S b" for b
  proof -
    have "S x = S' x" if "x \<in> span b" for x using assms(2) \<open>b \<in> chunks r\<close> that by (auto simp: received_def)
    then have "map S [buf_off b..<buf_max_off b] = map S' [buf_off b..<buf_max_off b]" by auto
    with that show ?thesis by (simp add: carries_def)
  qed
  then show ?thesis using assms(1) unfolding recv_inv_def by blast
qed

lemma source_frame:
  assumes "source_inv s" and "slice_at (sn_frames s) i = Some (f, st)"
  shows "frame_true s f" "map fst ((sn_frames s)[i := (f, st')]) = map fst (sn_frames s)"
proof -
  have i: "i < length (sn_frames s)" "sn_frames s ! i = (f, st)" using assms(2) by (auto simp: slice_at_Some_iff)
  then have "(f, st) \<in> set (sn_frames s)" by (auto simp: in_set_conv_nth)
  then show "frame_true s f" using assms(1) unfolding source_inv_def by blast
  show "map fst ((sn_frames s)[i := (f, st')]) = map fst (sn_frames s)"
    using i by (simp add: map_update) (metis fst_conv list_update_id nth_map)
qed

lemma queued_fin:
  assumes "queued data n fin self self'" and "sd_fin_off self = Some x" and "x = sd_off self"
  shows "sd_fin_off self' = Some x"
proof -
  have "sd_fin_off self' = (if fin \<and> n = length data then Some (sd_off self + n) else sd_fin_off self)"
    "sd_fin_off self = None \<or> n = 0"
    by - (insert assms(1), unfold queued_def, elim conjE, assumption)+
  with assms(2,3) show ?thesis by auto
qed

lemma local_step:
  assumes inv: "source_inv s" and ok: "event_ok (Local ev)" and run: "source_do ev s = Some s'"
  shows "source_inv s' \<and> (\<exists>d. sn_written s' = sn_written s @ d) \<and> map fst (sn_frames s') = map fst (sn_frames s)
    \<and> (\<forall>n. sd_fin_off (sn_buf s) = Some n \<longrightarrow> sd_fin_off (sn_buf s') = Some n)"
proof -
  have b: "send_inv (stream_of (sn_written s)) (sn_buf s)" using inv by (simp add: source_inv_def)
  have fin: "sd_fin_off (sn_buf s) = None \<or> sd_fin_off (sn_buf s) = Some (sd_off (sn_buf s))"
    using b by (simp add: send_inv_def)
  have "grant_ok ev" using ok by (cases ev) auto
  from source_do_inv [OF inv this] run have "source_inv s'" by simp
  moreover have "(\<exists>d. sn_written s' = sn_written s @ d) \<and> map fst (sn_frames s') = map fst (sn_frames s)
    \<and> (\<forall>n. sd_fin_off (sn_buf s) = Some n \<longrightarrow> sd_fin_off (sn_buf s') = Some n)"
  proof (cases ev)
    case (Write data fin')
    from b show ?thesis
      by (cases rule: send_write_spec [where data = data and fin = fin'])
         (use run fin in \<open>auto simp: Write attempt_def dest: queued_fin\<close>)
  next
    case (Append data cap fin')
    from b show ?thesis
      by (cases rule: send_append_buf_spec [where data = data and cap = cap and fin = fin'])
         (use run fin in \<open>auto simp: Append attempt_def dest: queued_fin\<close>)
  next
    case (Acknowledge i)
    show ?thesis
    proof (cases "slice_at (sn_frames s) i")
      case (Some x)
      then obtain f st where f: "slice_at (sn_frames s) i = Some (f, st)" by (cases x) auto
      have "sf_off f + length (sf_data f) \<le> sd_emit_off (sn_buf s)"
        using source_frame(1) [OF inv f] unfolding frame_true_def by blast
      then obtain n b' where "ack_and_drop (sf_off f) (length (sf_data f)) (sn_buf s) = Inr (n, b')"
        "sd_fin_off b' = sd_fin_off (sn_buf s)"
        using ack_and_drop_spec [OF b] by metis
      then show ?thesis using run source_frame(2) [OF inv f, of Acked] by (auto simp: Acknowledge f attempt_def)
    qed (use run in \<open>simp add: Acknowledge\<close>)
  next
    case (Lose i)
    show ?thesis
    proof (cases "\<exists>f. slice_at (sn_frames s) i = Some (f, InFlight)")
      case True
      then obtain f where f: "slice_at (sn_frames s) i = Some (f, InFlight)" by blast
      have "sf_off f + length (sf_data f) \<le> sd_emit_off (sn_buf s)"
        using source_frame(1) [OF inv f] unfolding frame_true_def by blast
      then obtain n b' where "retransmit (sf_off f) (length (sf_data f)) (sn_buf s) = Inr (n, b')"
        "sd_fin_off b' = sd_fin_off (sn_buf s)"
        using retransmit_spec [OF b] unfolding same_but_queue_def by metis
      then show ?thesis using run source_frame(2) [OF inv f, of Lost] by (auto simp: Lose f attempt_def)
    next
      case False
      then have "s' = s" using run by (auto simp: Lose split: option.splits fate.splits)
      then show ?thesis by simp
    qed
  qed (use run ok in \<open>auto simp: send_update_max_data_def\<close>)
  ultimately show ?thesis by blast
qed

text \<open>A frame that arrives is the frame that was sent.\<close>

lemma delivered_frame:
  assumes "transfer_inv sid t" and "slice_at (tr_wire t) i = Some wire"
  obtains f where "frame_true (tr_source t) f"
    "frame_from_bytes Short (octets_with_slice wire)
       = Inr (Stream sid (range_buf_from (sf_data f) (sf_off f) (sf_fin f)), cursor_at wire [])"
proof -
  have all: "list_all2 (packed_as sid) (map fst (sn_frames (tr_source t))) (tr_wire t)"
    and src: "source_inv (tr_source t)"
    using assms(1) unfolding transfer_inv_def by blast+
  have i: "i < length (tr_wire t)" "tr_wire t ! i = wire" using assms(2) by (auto simp: slice_at_Some_iff)
  then have "i < length (sn_frames (tr_source t))" using list_all2_lengthD [OF all] by simp
  moreover define f where "f = fst (sn_frames (tr_source t) ! i)"
  ultimately have p: "packed_as sid f wire" and "(f, snd (sn_frames (tr_source t) ! i)) \<in> set (sn_frames (tr_source t))"
    using list_all2_nthD2 [OF all i(1)] i(2) by auto
  from this(2) have true: "frame_true (tr_source t) f" using src unfolding source_inv_def by blast
  let ?f = "Stream sid (range_buf_from (sf_data f) (sf_off f) (sf_fin f))"
  have "frame_from_bytes Short (cursor_at [] (frame_encoding ?f @ [])) = Inr (as_received ?f, cursor_at ([] @ frame_encoding ?f) [])"
    using p by (intro frame_from_encoding) (simp_all only: packed_as_def frame_allowed.simps frame.distinct simp_thms)
  moreover have "as_received ?f = ?f" by (simp add: range_buf_from_def buf_bytes_def buf_off_def)
  moreover have "frame_encoding ?f = wire" using p unfolding packed_as_def by blast
  ultimately have "frame_from_bytes Short (octets_with_slice wire) = Inr (?f, cursor_at wire [])"
    by (simp only: with_slice_at append_Nil append_Nil2)
  with true show thesis by (rule that)
qed

lemma transfer_local:
  assumes inv: "transfer_inv sid t" and "event_ok (Local ev)"
  shows "\<exists>t'. transfer_do sid (Local ev) t = Some t' \<and> transfer_inv sid t'"
proof -
  have src: "source_inv (tr_source t)" using inv by (simp add: transfer_inv_def)
  have "grant_ok ev" using assms(2) by (cases ev) auto
  then obtain s' where run: "source_do ev (tr_source t) = Some s'" using source_do_inv [OF src] by blast
  from local_step [OF src assms(2) run] obtain d where step: "source_inv s'" "sn_written s' = sn_written (tr_source t) @ d"
    "map fst (sn_frames s') = map fst (sn_frames (tr_source t))"
    "\<And>n. sd_fin_off (sn_buf (tr_source t)) = Some n \<Longrightarrow> sd_fin_off (sn_buf s') = Some n" by blast
  let ?w = "sn_written (tr_source t)"
  have r: "recv_inv (stream_of ?w) (tr_recv t)" "received (tr_recv t) \<subseteq> {..<length ?w}" "rv_off (tr_recv t) \<le> length ?w"
    using inv by (simp_all add: transfer_inv_def)
  have "recv_inv (stream_of (?w @ d)) (tr_recv t)"
    by (rule recv_inv_cong [OF r(1)]) (use r(2) in \<open>auto simp: stream_of_append\<close>)
  moreover have "received (tr_recv t) \<subseteq> {..<length (?w @ d)}" using r(2) by auto
  ultimately have "transfer_inv sid (t\<lparr>tr_source := s'\<rparr>)"
    using inv step r(3) by (simp add: transfer_inv_def)
  then show ?thesis by (simp add: run)
qed

lemma transfer_pack:
  assumes inv: "transfer_inv sid t" and "varint_ok sid" and "left < 2 ^ 14"
  shows "\<exists>t'. transfer_do sid (Pack left) t = Some t' \<and> transfer_inv sid t'"
proof -
  have src: "source_inv (tr_source t)" using inv by (simp add: transfer_inv_def)
  show ?thesis
  proof (rule put_stream_frame_spec [OF src assms(2,3)])
    assume "put_stream_frame sid left (sn_buf (tr_source t)) = Inr None"
    then show ?thesis using inv by (simp add: attempt_def)
  next
    fix f b
    let ?s = "tr_source t"
    assume p: "put_stream_frame sid left (sn_buf ?s)
         = Inr (Some (frame_encoding (Stream sid (range_buf_from (sf_data f) (sf_off f) (sf_fin f))), f, b))"
      "source_inv (?s\<lparr>sn_buf := b, sn_frames := sn_frames ?s @ [(f, InFlight)]\<rparr>)"
      "frame_ok (Stream sid (range_buf_from (sf_data f) (sf_off f) (sf_fin f)))"
      "sd_fin_off b = sd_fin_off (sn_buf ?s)"
    then show ?thesis using inv by (simp add: attempt_def transfer_inv_def list_all2_appendI packed_as_def)
  qed
qed

lemma transfer_deliver:
  assumes inv: "transfer_inv sid t"
  shows "\<exists>t'. transfer_do sid (Deliver i left) t = Some t' \<and> transfer_inv sid t'"
proof (cases "slice_at (tr_wire t) i")
  case None
  then show ?thesis using inv by simp
next
  case (Some wire)
  obtain f where f: "frame_true (tr_source t) f" "frame_from_bytes Short (octets_with_slice wire)
       = Inr (Stream sid (range_buf_from (sf_data f) (sf_off f) (sf_fin f)), cursor_at wire [])"
    using inv Some by (rule delivered_frame)
  let ?data = "range_buf_from (sf_data f) (sf_off f) (sf_fin f)" and ?w = "sn_written (tr_source t)"
  have t: "source_inv (tr_source t)" "recv_inv (stream_of ?w) (tr_recv t)" "\<not> rv_drain (tr_recv t)"
    "received (tr_recv t) \<subseteq> {..<length ?w}"
    using inv unfolding transfer_inv_def by blast+
  have e: "sd_emit_off (sn_buf (tr_source t)) \<le> length ?w"
    using t(1) by (auto simp: source_inv_def send_inv_def)
  have d: "whole ?data" "carries (stream_of ?w) ?data"
    "sf_off f + length (sf_data f) \<le> length ?w" "sf_fin f \<longrightarrow> sd_fin_off (sn_buf (tr_source t)) = Some (buf_max_off ?data)"
    using f(1) e unfolding frame_true_def range_buf_from_whole(3,4) by (auto simp: range_buf_from_whole(1))
  obtain res where res: "recv_write ?data (tr_recv t) = Some res"
    "\<And>r'. res = Inr r' \<Longrightarrow> recv_inv (stream_of ?w) r' \<and> \<not> rv_drain r' \<and> rv_off r' = rv_off (tr_recv t)
       \<and> rv_error r' = rv_error (tr_recv t) \<and> received r' = received (tr_recv t) \<union> (span ?data - {..<rv_off (tr_recv t)})
       \<and> (rv_fin_off r' = rv_fin_off (tr_recv t) \<or> rb_fin ?data \<and> rv_fin_off r' = Some (buf_max_off ?data))"
    using recv_write_spec [OF t(2) d(1,2)] t(3) by blast
  have "transfer_inv sid (t\<lparr>tr_recv := r'\<rparr>)" if "res = Inr r'" for r'
  proof -
    note r' = res(2) [OF that]
    have "received r' \<subseteq> {..<length ?w}" using r' t(4) d(3) by (auto simp: range_buf_from_whole)
    moreover have "rb_fin ?data = sf_fin f" by (simp add: range_buf_from_def)
    ultimately show ?thesis using inv r' d(4) by (auto simp: transfer_inv_def)
  qed
  then show ?thesis
    using inv res(1) f(2) Some by (auto simp: take_stream_data_def Let_def split: sum.split)
qed

lemma transfer_consume:
  assumes inv: "transfer_inv sid t"
  shows "\<exists>t'. transfer_do sid (Consume cap) t = Some t' \<and> transfer_inv sid t'"
proof -
  let ?w = "sn_written (tr_source t)" and ?r = "tr_recv t"
  have t: "recv_inv (stream_of ?w) ?r" "\<not> rv_drain ?r" "received ?r \<subseteq> {..<length ?w}" "rv_off ?r \<le> length ?w"
    "tr_read t = take (rv_off ?r) ?w" "rv_error ?r = None"
    using inv unfolding transfer_inv_def by blast+
  from t(1) show ?thesis
  proof (cases rule: recv_emit_spec [where cap = cap])
    case nothing_to_read
    then show ?thesis using inv by simp
  next
    case (was_reset e)
    then show ?thesis using t(6) by simp
  next
    case (bytes_read k r1)
    have p: "recv_inv (stream_of ?w) r1" "rv_off r1 = rv_off ?r + k" "received r1 = received ?r - {..<rv_off ?r + k}"
      "rv_drain r1 = rv_drain ?r" "rv_error r1 = rv_error ?r" "rv_fin_off r1 = rv_fin_off ?r"
      "{rv_off ?r..<rv_off ?r + k} \<subseteq> received ?r"
      using bytes_read(2) by (auto simp: emit_post_def)
    have le: "rv_off ?r + k \<le> length ?w"
    proof (cases "k = 0")
      case False
      then have "rv_off ?r + k - 1 \<in> {rv_off ?r..<rv_off ?r + k}" by auto
      then show ?thesis using p(7) t(3) False by fastforce
    qed (use t(4) in simp)
    have "take (rv_off ?r) ?w @ map (stream_of ?w) [rv_off ?r..<rv_off ?r + k] = take (rv_off ?r + k) ?w"
      by (simp add: map_stream_of_slice [OF le] take_add)
    then show ?thesis
      using inv p le t(3,5) bytes_read(1) by (auto simp: transfer_inv_def recv_inv_flow received_flow)
  qed
qed

lemma transfer_do_inv:
  assumes "transfer_inv sid t" and "varint_ok sid" and "event_ok ev"
  shows "\<exists>t'. transfer_do sid ev t = Some t' \<and> transfer_inv sid t'"
proof (cases ev)
  case (Local ev')
  then show ?thesis using transfer_local assms by simp
next
  case (Pack left)
  then show ?thesis using transfer_pack assms by simp
next
  case (Deliver i left)
  then show ?thesis using transfer_deliver assms by simp
next
  case (Consume cap)
  then show ?thesis using transfer_consume assms by simp
next
  case (Widen now)
  then show ?thesis
    using assms(1) by (simp add: transfer_inv_def recv_update_max_data_def recv_inv_flow received_flow)
qed

lemma transfer_run_inv:
  assumes "transfer_inv sid t" and "varint_ok sid" and "list_all event_ok events"
  shows "\<exists>t'. transfer_run sid events t = Some t' \<and> transfer_inv sid t'"
  using assms
proof (induction events arbitrary: t)
  case (Cons ev events)
  then show ?case using transfer_do_inv [of sid t ev] by fastforce
qed simp

lemma transfer_inv_new: "max_data < 2 ^ 62 \<Longrightarrow> transfer_inv sid (transfer_new max_data window max_window)"
  using source_inv_new [of max_data] recv_inv_new
  by (simp add: transfer_inv_def transfer_new_def, simp add: source_new_def recv_buf_new_def received_def chunks_def)

text \<open>
  C1: A stream arrives intact.  The sending application writes pieces as it likes, the connection
  packs them into STREAM frames of any size below \<open>2^14\<close> bytes, the network delivers the bytes of
  any frame at any time, any number of times or never, frames are acknowledged or declared lost and
  sent again, limits are raised, and the receiving application reads as it likes: neither side
  panics, what has been read is always a prefix of what has been written, and when the receiver
  reports the end of the stream, everything that was written has been read.
\<close>

theorem stream_arrives_intact:
  assumes "varint_ok sid" and "max_data < 2 ^ 62" and "list_all event_ok events"
  shows "\<exists>t. transfer_run sid events (transfer_new max_data window max_window) = Some t
    \<and> prefix (tr_read t) (sn_written (tr_source t))
    \<and> (recv_is_fin (tr_recv t) \<longrightarrow>
         tr_read t = sn_written (tr_source t) \<and> send_is_fin (sn_buf (tr_source t)))"
proof -
  obtain t where run: "transfer_run sid events (transfer_new max_data window max_window) = Some t"
    and inv: "transfer_inv sid t"
    using transfer_run_inv [OF transfer_inv_new [OF assms(2)] assms(1,3)] by blast
  let ?s = "tr_source t"
  have t: "source_inv ?s" "tr_read t = take (rv_off (tr_recv t)) (sn_written ?s)"
    "\<forall>n. rv_fin_off (tr_recv t) = Some n \<longrightarrow> sd_fin_off (sn_buf ?s) = Some n"
    using inv unfolding transfer_inv_def by blast+
  have "sd_off (sn_buf ?s) = length (sn_written ?s)"
    "sd_fin_off (sn_buf ?s) = None \<or> sd_fin_off (sn_buf ?s) = Some (sd_off (sn_buf ?s))"
    using t(1) by (auto simp: source_inv_def send_inv_def)
  then have "recv_is_fin (tr_recv t) \<longrightarrow> tr_read t = sn_written ?s \<and> send_is_fin (sn_buf ?s)"
    using t(2,3) by (auto simp: recv_is_fin_def send_is_fin_def)
  then show ?thesis using run t(2) by (simp add: take_is_prefix)
qed

definition rough_ride :: "transfer_event list" where
  "rough_ride =
     [Local (Write [1, 2, 3, 4, 5] False), Pack 8, Pack 6, Pack 7, Deliver 2 9, Local (Write [6, 7] True), Local (Lose 0),
      Pack 90, Deliver 3 9, Consume 2, Deliver 1 9, Deliver 3 0, Local (Acknowledge 3), Pack 90, Deliver 4 9, Deliver 2 9,
      Consume 9]"

theorem stream_arrives_intact_witness:
  "\<exists>t. transfer_run 4 rough_ride (transfer_new 30 30 30) = Some t \<and> recv_is_fin (tr_recv t)
     \<and> tr_read t = [1, 2, 3, 4, 5, 6, 7] \<and> tr_read t = sn_written (tr_source t)"
proof -
  have "map_option (\<lambda>t. (recv_is_fin (tr_recv t), tr_read t)) (transfer_run 4 rough_ride (transfer_new 30 30 30))
      = Some (True, [1, 2, 3, 4, 5, 6, 7])"
    by code_simp
  then obtain t where "transfer_run 4 rough_ride (transfer_new 30 30 30) = Some t" "recv_is_fin (tr_recv t)"
    "tr_read t = [1, 2, 3, 4, 5, 6, 7]" by auto
  moreover have "list_all event_ok rough_ride" by (simp add: rough_ride_def)
  ultimately show ?thesis
    using stream_arrives_intact [of 4 30 rough_ride 30 30] by (auto simp: varint_ok_def MAX_VAR_INT_def)
qed

end
