(* ===== verification/Virtual_Dns.thy ===== *)
theory Virtual_Dns
  imports Std_Net
begin

text \<open>
  The virtual DNS server of the packet tunnel:
  \<open>third_party/tun2proxy/src/virtual_dns.rs\<close>, with the helpers of \<open>dns.rs\<close> it calls.  Names are
  handed addresses of a pool, so that a later connection to such an address can be taken to its
  name.  The LRU cache is the one of the crate \<open>hashlink\<close> and the DNS messages are those of
  \<open>hickory\<close>: both are parameters.  Instants are seconds.
\<close>

definition MAPPING_TIMEOUT :: nat where "MAPPING_TIMEOUT = 60"

record name_cache_entry =
  ne_name :: string
  ne_expiry :: nat

text \<open>The operations of the cache that the code calls.\<close>

record 'c lru_ops =
  lru_new :: 'c
  lru_iter_next :: "'c \<Rightarrow> (ip_addr \<times> name_cache_entry) option"
  lru_remove :: "ip_addr \<Rightarrow> 'c \<Rightarrow> 'c"
  lru_get :: "ip_addr \<Rightarrow> 'c \<Rightarrow> name_cache_entry option \<times> 'c"
  lru_get_mut :: "ip_addr \<Rightarrow> (name_cache_entry \<Rightarrow> name_cache_entry) \<Rightarrow> 'c \<Rightarrow> 'c"
  lru_occupied :: "ip_addr \<Rightarrow> 'c \<Rightarrow> bool"
  lru_vacant_insert :: "ip_addr \<Rightarrow> name_cache_entry \<Rightarrow> 'c \<Rightarrow> 'c"

record 'c virtual_dns =
  vd_trailing_dot :: bool
  vd_lru_cache :: 'c
  vd_name_to_ip :: "string \<Rightarrow> ip_addr option"
  vd_network_addr :: ip_addr
  vd_broadcast_addr :: ip_addr
  vd_next_addr :: ip_addr

definition virtual_dns_new :: "'c lru_ops \<Rightarrow> ip_addr \<Rightarrow> ip_addr \<Rightarrow> 'c virtual_dns" where
  "virtual_dns_new ops first_address last_address =
     \<lparr>vd_trailing_dot = False, vd_lru_cache = lru_new ops, vd_name_to_ip = Map.empty,
      vd_network_addr = first_address, vd_broadcast_addr = last_address, vd_next_addr = first_address\<rparr>"

subsection \<open>Addresses\<close>

text \<open>From right to left until one can be added without a carry.\<close>

fun increment_from :: "nat \<Rightarrow> bytes \<Rightarrow> bytes" where
  "increment_from 0 ip_bytes = ip_bytes"
| "increment_from (Suc i) ip_bytes =
     (if ip_bytes ! i \<noteq> 255 then ip_bytes[i := ip_bytes ! i + 1]
      else increment_from i (ip_bytes[i := 0]))"

fun increment_ip :: "ip_addr \<Rightarrow> ip_addr" where
  "increment_ip (V4 ip) =
     (let ip_bytes = ipv4_octets ip in V4 (ipv4_of_octets (increment_from (length ip_bytes) ip_bytes)))"
| "increment_ip (V6 ip) =
     (let ip_bytes = ipv6_octets ip in V6 (ipv6_of_octets (increment_from (length ip_bytes) ip_bytes)))"

subsection \<open>Names\<close>

definition touch_ip :: "'c lru_ops \<Rightarrow> nat \<Rightarrow> ip_addr \<Rightarrow> 'c virtual_dns \<Rightarrow> 'c virtual_dns" where
  "touch_ip ops now addr self =
     self\<lparr>vd_lru_cache :=
       lru_get_mut ops addr (\<lambda>entry. entry\<lparr>ne_expiry := now + MAPPING_TIMEOUT\<rparr>) (vd_lru_cache self)\<rparr>"

definition resolve_ip ::
  "'c lru_ops \<Rightarrow> ip_addr \<Rightarrow> 'c virtual_dns \<Rightarrow> string option \<times> 'c virtual_dns" where
  "resolve_ip ops addr self =
     (case lru_get ops addr (vd_lru_cache self) of
        (entry, cache) \<Rightarrow> (map_option ne_name entry, self\<lparr>vd_lru_cache := cache\<rparr>))"

definition canonical_name :: "bool \<Rightarrow> string \<Rightarrow> string" where
  "canonical_name trailing_dot name =
     (if suffix ''.'' name \<and> \<not> trailing_dot then trim_end_matches (\<lambda>c. c = CHR ''.'') name else name)"

text \<open>Both loops may run forever for a cache that breaks its promises; that is \<open>None\<close>.\<close>

partial_function (option) remove_expired ::
  "'c lru_ops \<Rightarrow> nat \<Rightarrow> 'c virtual_dns \<Rightarrow> 'c virtual_dns option" where
  [code]: "remove_expired ops now self =
     (case lru_iter_next ops (vd_lru_cache self) of
        None \<Rightarrow> Some self
      | Some (ip, entry) \<Rightarrow>
          if ne_expiry entry < now
          then remove_expired ops now
                 (self\<lparr>vd_lru_cache := lru_remove ops ip (vd_lru_cache self),
                       vd_name_to_ip := (vd_name_to_ip self)(ne_name entry := None)\<rparr>)
          else Some self)"

definition step_addr :: "'c virtual_dns \<Rightarrow> ip_addr" where
  "step_addr self =
     (let next_addr = increment_ip (vd_next_addr self)
      in if next_addr = vd_broadcast_addr self then vd_network_addr self else next_addr)"

partial_function (option) allocate ::
  "'c lru_ops \<Rightarrow> nat \<Rightarrow> ip_addr \<Rightarrow> string \<Rightarrow> 'c virtual_dns \<Rightarrow> ((string + ip_addr) \<times> 'c virtual_dns) option" where
  [code]: "allocate ops now started_at insert_name self =
     (if \<not> lru_occupied ops (vd_next_addr self) (vd_lru_cache self)
      then Some (Inr (vd_next_addr self),
             self\<lparr>vd_lru_cache :=
                    lru_vacant_insert ops (vd_next_addr self)
                      \<lparr>ne_name = insert_name, ne_expiry = now + MAPPING_TIMEOUT\<rparr> (vd_lru_cache self),
                  vd_name_to_ip := (vd_name_to_ip self)(insert_name \<mapsto> vd_next_addr self)\<rparr>)
      else
        (let self = self\<lparr>vd_next_addr := step_addr self\<rparr>
         in if vd_next_addr self = started_at
            then Some (Inl ''Virtual IP space for DNS exhausted'', self)
            else allocate ops now started_at insert_name self))"

text \<open>The clock is read when the search starts and again when an entry is written.\<close>

definition find_or_allocate_ip ::
  "'c lru_ops \<Rightarrow> nat \<Rightarrow> nat \<Rightarrow> string \<Rightarrow> 'c virtual_dns
     \<Rightarrow> ((string + ip_addr) \<times> 'c virtual_dns) option" where
  "find_or_allocate_ip ops now later name self =
     (let insert_name = canonical_name (vd_trailing_dot self) name
      in Option.bind (remove_expired ops now self) (\<lambda>self.
           case vd_name_to_ip self insert_name of
             Some ip \<Rightarrow> Some (Inr ip, touch_ip ops later ip self)
           | None \<Rightarrow> allocate ops later (vd_next_addr self) insert_name self))"

subsection \<open>Messages\<close>

text \<open>
  The parts of \<open>hickory\<close>'s messages that the code reads or writes, over its type \<open>'n\<close> of domain names.
  Its functions are parameters.
\<close>

datatype message_type = Query | Response

datatype response_code = NoError | OtherCode nat

datatype 'n rdata = A "32 word" | AAAA "128 word" | CNAME 'n | OtherData nat bytes

record 'n dns_record =
  dr_name :: 'n
  dr_ttl :: nat
  dr_data :: "'n rdata"

record 'n dns_message =
  dm_id :: nat
  dm_message_type :: message_type
  dm_response_code :: response_code
  dm_queries :: "'n list"
  dm_answers :: "'n dns_record list"

record 'n dns_ops =
  message_from_vec :: "bytes \<Rightarrow> string + 'n dns_message"
  message_to_vec :: "'n dns_message \<Rightarrow> string + bytes"
  name_from_str :: "string \<Rightarrow> string + 'n"
  name_to_string :: "'n \<Rightarrow> string"
  name_to_utf8 :: "'n \<Rightarrow> string"
  debug_code :: "response_code \<Rightarrow> string"
  debug_answers :: "'n dns_record list \<Rightarrow> string"

definition build_dns_response ::
  "'n dns_ops \<Rightarrow> 'n dns_message \<Rightarrow> string \<Rightarrow> ip_addr \<Rightarrow> nat \<Rightarrow> string + 'n dns_message" where
  "build_dns_response dns request domain ip ttl =
     outcome_bind (name_from_str dns domain) (\<lambda>name.
       let record = \<lparr>dr_name = name, dr_ttl = ttl,
                     dr_data = (case ip of V4 ip \<Rightarrow> A ip | V6 ip \<Rightarrow> AAAA ip)\<rparr>
       in Inr (request\<lparr>dm_message_type := Response, dm_answers := dm_answers request @ [record]\<rparr>))"

fun is_aaaa :: "'n rdata \<Rightarrow> bool" where
  "is_aaaa (AAAA _) = True"
| "is_aaaa _ = False"

definition remove_ipv6_entries :: "'n dns_message \<Rightarrow> 'n dns_message" where
  "remove_ipv6_entries message =
     message\<lparr>dm_answers := filter (\<lambda>answer. \<not> is_aaaa (dr_data answer)) (dm_answers message)\<rparr>"

text \<open>The loop over the answers: the first address wins, else the last alias seen.\<close>

fun scan_answers :: "'n dns_ops \<Rightarrow> string option \<Rightarrow> 'n dns_record list \<Rightarrow> ip_addr + string option" where
  "scan_answers dns cname [] = Inr cname"
| "scan_answers dns cname (answer # answers) =
     (case dr_data answer of
        A addr \<Rightarrow> Inl (V4 addr)
      | AAAA addr \<Rightarrow> Inl (V6 addr)
      | CNAME name \<Rightarrow> scan_answers dns (Some (name_to_utf8 dns name)) answers
      | OtherData _ _ \<Rightarrow> scan_answers dns cname answers)"

definition extract_ipaddr_from_dns_message :: "'n dns_ops \<Rightarrow> 'n dns_message \<Rightarrow> string + ip_addr" where
  "extract_ipaddr_from_dns_message dns message =
     (if dm_response_code message \<noteq> NoError then Inl (debug_code dns (dm_response_code message))
      else case scan_answers dns None (dm_answers message) of
             Inl ip \<Rightarrow> Inr ip
           | Inr (Some cname) \<Rightarrow> Inl cname
           | Inr None \<Rightarrow> Inl (debug_answers dns (dm_answers message)))"

definition extract_domain_from_dns_message :: "'n dns_ops \<Rightarrow> 'n dns_message \<Rightarrow> string + string" where
  "extract_domain_from_dns_message dns message =
     (case dm_queries message of
        [] \<Rightarrow> Inl ''DnsRequest no query body'' | query # _ \<Rightarrow> Inr (name_to_string dns query))"

definition parse_data_to_dns_message :: "'n dns_ops \<Rightarrow> bytes \<Rightarrow> bool \<Rightarrow> string + 'n dns_message" where
  "parse_data_to_dns_message dns data used_by_tcp =
     (if used_by_tcp then
        (if length data < 2 then Inl ''invalid dns data''
         else
           (let len = be_val (take 2 data)
            in case slice_range data 2 (len + 2) of
                 None \<Rightarrow> Inl ''invalid dns data''
               | Some data \<Rightarrow> message_from_vec dns data))
      else message_from_vec dns data)"

definition generate_query ::
  "'c lru_ops \<Rightarrow> 'n dns_ops \<Rightarrow> nat \<Rightarrow> nat \<Rightarrow> bytes \<Rightarrow> 'c virtual_dns
     \<Rightarrow> ((string + bytes \<times> string \<times> ip_addr) \<times> 'c virtual_dns) option" where
  "generate_query ops dns now later data self =
     (case outcome_bind (parse_data_to_dns_message dns data False) (\<lambda>message.
             outcome_bind (extract_domain_from_dns_message dns message) (\<lambda>qname. Inr (message, qname))) of
        Inl e \<Rightarrow> Some (Inl e, self)
      | Inr (message, qname) \<Rightarrow>
          Option.bind (find_or_allocate_ip ops now later qname self) (\<lambda>(found, self).
            Some (outcome_bind found (\<lambda>ip.
                    outcome_bind (build_dns_response dns message qname ip 5) (\<lambda>message.
                      outcome_bind (message_to_vec dns message) (\<lambda>bytes. Inr (bytes, qname, ip)))),
                  self)))"

subsection \<open>Adding one\<close>

lemma increment_from_value:
  "length (increment_from (length xs) (xs @ zs)) = length xs + length zs
   \<and> be_val (increment_from (length xs) (xs @ zs))
     = ((be_val xs + 1) mod 256 ^ length xs) * 256 ^ length zs + be_val zs"
proof (induction xs arbitrary: zs rule: rev_induct)
  case Nil
  then show ?case by simp
next
  case (snoc b xs)
  have last: "(xs @ b # zs) ! length xs = b" "(xs @ b # zs)[length xs := c] = xs @ c # zs" for c
    by (simp_all add: nth_append)
  show ?case
  proof (cases "b = 255")
    case True
    have "be_val (xs @ [b]) + 1 = 256 * (be_val xs + 1)" by (simp add: be_val_append True)
    then have "(be_val (xs @ [b]) + 1) mod (256 * 256 ^ length xs) = 256 * ((be_val xs + 1) mod 256 ^ length xs)"
      by (simp only: mult_mod_right)
    moreover have "increment_from (length (xs @ [b])) ((xs @ [b]) @ zs) = increment_from (length xs) (xs @ 0 # zs)"
      using True last by simp
    ultimately show ?thesis using snoc.IH [of "0 # zs"] by (simp add: algebra_simps)
  next
    case False
    have "unat b < 256" using unat_less_exp [of b] by simp
    moreover have "unat b \<noteq> 255" using False by (auto simp: word_unat_eq_iff)
    ultimately have "unat b + 1 < 256" by linarith
    then have one: "unat (b + 1) = unat b + 1" by (simp add: unat_word_ariths)
    have "be_val (xs @ [b]) + 1 = be_val (xs @ [b + 1])" by (simp add: be_val_append one)
    also have "\<dots> mod 256 ^ length (xs @ [b]) = be_val (xs @ [b + 1])"
      using be_val_less [of "xs @ [b + 1]"] by simp
    finally have "(be_val (xs @ [b]) + 1) mod 256 ^ length (xs @ [b]) = be_val (xs @ [b + 1])"
      using be_val_less [of "xs @ [b + 1]"] \<open>be_val (xs @ [b]) + 1 = be_val (xs @ [b + 1])\<close> by simp
    moreover have "increment_from (length (xs @ [b])) ((xs @ [b]) @ zs) = (xs @ [b + 1]) @ zs"
      using False last by simp
    ultimately show ?thesis by (simp only: be_val_append length_append) simp
  qed
qed

lemma increment_ip_eq: "increment_ip (V4 a) = V4 (a + 1)" "increment_ip (V6 b) = V6 (b + 1)"
proof -
  have "be_val (increment_from 4 (ipv4_octets a)) = (unat a + 1) mod 2 ^ 32"
    using increment_from_value [of "ipv4_octets a" "[]"] unat_less_exp [of a]
    by (simp add: ipv4_octets_def del: be_bytes.simps)
  then have "of_nat (be_val (increment_from 4 (ipv4_octets a))) = (of_nat (unat a + 1) :: 32 word)"
    by (simp add: word_unat_eq_iff unat_of_nat del: of_nat_Suc)
  then show "increment_ip (V4 a) = V4 (a + 1)"
    by (simp add: ipv4_of_octets_def Let_def del: increment_from.simps)
  have "be_val (increment_from 16 (ipv6_octets b)) = (unat b + 1) mod 2 ^ 128"
    using increment_from_value [of "ipv6_octets b" "[]"] unat_less_exp [of b]
    by (simp add: ipv6_octets_def del: be_bytes.simps)
  then have "of_nat (be_val (increment_from 16 (ipv6_octets b))) = (of_nat (unat b + 1) :: 128 word)"
    by (simp add: word_unat_eq_iff unat_of_nat del: of_nat_Suc)
  then show "increment_ip (V6 b) = V6 (b + 1)"
    by (simp add: ipv6_of_octets_def Let_def del: increment_from.simps)
qed

subsection \<open>The pool\<close>

text \<open>
  The addresses from the first one up to, and without, the last one, counted from the first.  A
  pool is sound when both ends are of one family and the last one lies above the first.
\<close>

fun pool_at :: "ip_addr \<Rightarrow> nat \<Rightarrow> ip_addr" where
  "pool_at (V4 a) k = V4 (a + of_nat k)"
| "pool_at (V6 b) k = V6 (b + of_nat k)"

fun pool_size :: "ip_addr \<Rightarrow> ip_addr \<Rightarrow> nat" where
  "pool_size (V4 a) (V4 c) = unat c - unat a"
| "pool_size (V6 b) (V6 d) = unat d - unat b"
| "pool_size _ _ = 0"

definition in_pool :: "ip_addr \<Rightarrow> ip_addr \<Rightarrow> ip_addr \<Rightarrow> bool" where
  "in_pool first_address last_address ip \<longleftrightarrow>
     ip \<in> pool_at first_address ` {..<pool_size first_address last_address}"

lemma pool_at_0 [simp]: "pool_at p 0 = p"
  by (cases p) simp_all

lemma increment_pool_at: "increment_ip (pool_at p k) = pool_at p (Suc k)"
  by (cases p) (simp_all add: increment_ip_eq algebra_simps del: increment_ip.simps)

lemma word_offset_inject:
  fixes a c :: "'a::len word"
  assumes "i \<le> unat c - unat a" "j \<le> unat c - unat a"
  shows "(of_nat i :: 'a word) = of_nat j \<longleftrightarrow> i = j"
proof -
  have "i < 2 ^ LENGTH('a)" "j < 2 ^ LENGTH('a)" using assms unat_less_exp [of c] by linarith+
  then show ?thesis by (simp add: word_unat_eq_iff unat_of_nat)
qed

lemma pool_at_inject:
  "i \<le> pool_size p q \<Longrightarrow> j \<le> pool_size p q \<Longrightarrow> pool_at p i = pool_at p j \<longleftrightarrow> i = j"
  by (cases "(p, q)" rule: pool_size.cases) (simp_all add: word_offset_inject)

lemma pool_at_size: "0 < pool_size p q \<Longrightarrow> pool_at p (pool_size p q) = q"
  by (cases "(p, q)" rule: pool_size.cases) (simp_all add: of_nat_diff)

lemma step_addr_pool:
  assumes "vd_next_addr self = pool_at (vd_network_addr self) k"
    and "k < pool_size (vd_network_addr self) (vd_broadcast_addr self)"
  shows "step_addr self = pool_at (vd_network_addr self)
           (Suc k mod pool_size (vd_network_addr self) (vd_broadcast_addr self))"
proof -
  let ?p = "vd_network_addr self" and ?N = "pool_size (vd_network_addr self) (vd_broadcast_addr self)"
  have "pool_at ?p (Suc k) = vd_broadcast_addr self \<longleftrightarrow> Suc k = ?N"
    using pool_at_inject [of "Suc k" ?p "vd_broadcast_addr self" ?N] pool_at_size assms(2) by fastforce
  then show ?thesis
    using assms by (simp add: step_addr_def Let_def increment_pool_at del: increment_ip.simps)
qed

subsection \<open>What the cache promises\<close>

text \<open>
  The documented behaviour of \<open>hashlink\<close>'s cache, over the map \<open>contents\<close> of what it holds.  Nothing
  is asked of the order in which it iterates.
\<close>

definition lru_law :: "'c lru_ops \<Rightarrow> ('c \<Rightarrow> ip_addr \<Rightarrow> name_cache_entry option) \<Rightarrow> bool" where
  "lru_law ops contents \<longleftrightarrow>
     contents (lru_new ops) = Map.empty
     \<and> (\<forall>c. finite (dom (contents c)))
     \<and> (\<forall>c. lru_iter_next ops c = None \<longrightarrow> contents c = Map.empty)
     \<and> (\<forall>c ip e. lru_iter_next ops c = Some (ip, e) \<longrightarrow> contents c ip = Some e)
     \<and> (\<forall>c ip. contents (lru_remove ops ip c) = (contents c)(ip := None))
     \<and> (\<forall>c ip. fst (lru_get ops ip c) = contents c ip \<and> contents (snd (lru_get ops ip c)) = contents c)
     \<and> (\<forall>c ip f. contents (lru_get_mut ops ip f c) = (contents c)(ip := map_option f (contents c ip)))
     \<and> (\<forall>c ip. lru_occupied ops ip c \<longleftrightarrow> contents c ip \<noteq> None)
     \<and> (\<forall>c ip e. contents c ip = None \<longrightarrow> contents (lru_vacant_insert ops ip e c) = (contents c)(ip \<mapsto> e))"

lemma lru_lawD:
  assumes "lru_law ops contents"
  shows "contents (lru_new ops) = Map.empty" "finite (dom (contents c))"
    "lru_iter_next ops c = None \<Longrightarrow> contents c = Map.empty"
    "lru_iter_next ops c = Some (ip, e) \<Longrightarrow> contents c ip = Some e"
    "contents (lru_remove ops ip c) = (contents c)(ip := None)"
    "fst (lru_get ops ip c) = contents c ip" "contents (snd (lru_get ops ip c)) = contents c"
    "contents (lru_get_mut ops ip f c) = (contents c)(ip := map_option f (contents c ip))"
    "lru_occupied ops ip c \<longleftrightarrow> contents c ip \<noteq> None"
    "contents c ip = None \<Longrightarrow> contents (lru_vacant_insert ops ip e c) = (contents c)(ip \<mapsto> e)"
  using assms unfolding lru_law_def by blast+

text \<open>
  The two tables agree: a name is known exactly when some cached address carries it.  All cached
  addresses, and the next one to try, are of the pool.
\<close>

definition dns_inv :: "('c \<Rightarrow> ip_addr \<Rightarrow> name_cache_entry option) \<Rightarrow> 'c virtual_dns \<Rightarrow> bool" where
  "dns_inv contents self \<longleftrightarrow>
     (\<forall>name ip. vd_name_to_ip self name = Some ip
        \<longleftrightarrow> (\<exists>e. contents (vd_lru_cache self) ip = Some e \<and> ne_name e = name))
     \<and> (\<forall>ip \<in> dom (contents (vd_lru_cache self)). in_pool (vd_network_addr self) (vd_broadcast_addr self) ip)
     \<and> in_pool (vd_network_addr self) (vd_broadcast_addr self) (vd_next_addr self)"

text \<open>The configuration of a server, which no operation changes.\<close>

definition same_pool :: "'c virtual_dns \<Rightarrow> 'c virtual_dns \<Rightarrow> bool" where
  "same_pool self self' \<longleftrightarrow>
     vd_trailing_dot self' = vd_trailing_dot self \<and> vd_network_addr self' = vd_network_addr self
     \<and> vd_broadcast_addr self' = vd_broadcast_addr self"

lemma dns_inv_new:
  "lru_law ops contents \<Longrightarrow> 0 < pool_size first_address last_address \<Longrightarrow>
   dns_inv contents (virtual_dns_new ops first_address last_address)"
  by (auto simp: dns_inv_def virtual_dns_new_def lru_lawD(1) in_pool_def image_iff intro: bexI [of _ 0])

text \<open>A cached address holds one name, so a known name has one address.\<close>

lemma dns_inv_name:
  "dns_inv contents self \<Longrightarrow> contents (vd_lru_cache self) ip = Some e \<Longrightarrow> vd_name_to_ip self (ne_name e) = Some ip"
  by (auto simp: dns_inv_def)

text \<open>Removing expired entries ends, keeps the tables in step and removes nothing else.\<close>

lemma remove_expired_spec:
  assumes "lru_law ops contents" "dns_inv contents self"
  shows "\<exists>self'. remove_expired ops now self = Some self' \<and> dns_inv contents self' \<and> same_pool self self'
           \<and> vd_next_addr self' = vd_next_addr self
           \<and> (\<forall>ip e. contents (vd_lru_cache self') ip = Some e \<longrightarrow> contents (vd_lru_cache self) ip = Some e)
           \<and> (\<forall>ip e. contents (vd_lru_cache self) ip = Some e \<and> now \<le> ne_expiry e
                \<longrightarrow> contents (vd_lru_cache self') ip = Some e)"
  using assms(2)
proof (induction "card (dom (contents (vd_lru_cache self)))" arbitrary: self rule: less_induct)
  case less
  note law = lru_lawD [OF assms(1)]
  show ?case
  proof (cases "\<exists>ip e. lru_iter_next ops (vd_lru_cache self) = Some (ip, e) \<and> ne_expiry e < now")
    case False
    then have "remove_expired ops now self = Some self"
      by (subst remove_expired.simps) (auto split: option.split)
    then show ?thesis using less.prems by (auto simp: same_pool_def)
  next
    case True
    then obtain ip e where nxt: "lru_iter_next ops (vd_lru_cache self) = Some (ip, e)" and old: "ne_expiry e < now"
      by blast
    define self1 where "self1 = self\<lparr>vd_lru_cache := lru_remove ops ip (vd_lru_cache self),
                       vd_name_to_ip := (vd_name_to_ip self)(ne_name e := None)\<rparr>"
    have step: "remove_expired ops now self = remove_expired ops now self1"
      using nxt old by (subst remove_expired.simps) (simp add: self1_def)
    have held: "contents (vd_lru_cache self) ip = Some e" using law(4) [OF nxt] .
    then have c1: "contents (vd_lru_cache self1) = (contents (vd_lru_cache self))(ip := None)"
      by (simp add: self1_def law)
    have "card (dom (contents (vd_lru_cache self1))) < card (dom (contents (vd_lru_cache self)))"
      using held law(2) [of "vd_lru_cache self"] by (simp add: c1 domI card_Diff1_less del: card_Diff_insert)
    moreover have "dns_inv contents self1"
      using less.prems held unfolding dns_inv_def c1
      by (simp add: self1_def) (metis option.inject)
    ultimately obtain self' where run: "remove_expired ops now self1 = Some self'" "dns_inv contents self'"
      and pool: "same_pool self1 self'" "vd_next_addr self' = vd_next_addr self1"
      and sub: "\<forall>ip e. contents (vd_lru_cache self') ip = Some e \<longrightarrow> contents (vd_lru_cache self1) ip = Some e"
      and kept: "\<forall>ip e. contents (vd_lru_cache self1) ip = Some e \<and> now \<le> ne_expiry e
                \<longrightarrow> contents (vd_lru_cache self') ip = Some e"
      using less.hyps [of self1] by blast
    have older: "contents (vd_lru_cache self) ip' = Some e'" if "contents (vd_lru_cache self') ip' = Some e'" for ip' e'
      using sub [rule_format, OF that] by (simp add: c1 split: if_splits)
    have young: "contents (vd_lru_cache self') ip' = Some e'"
      if "contents (vd_lru_cache self) ip' = Some e'" "now \<le> ne_expiry e'" for ip' e'
      using kept [rule_format, of ip' e'] that held old by (cases "ip' = ip") (simp_all add: c1)
    have "same_pool self self'" "vd_next_addr self' = vd_next_addr self"
      using pool by (simp_all add: same_pool_def self1_def)
    then show ?thesis using run older young unfolding step by blast
  qed
qed

text \<open>
  The search tries every address of the pool once: it takes the first free one, and gives up
  only when there is none.
\<close>

definition allocated ::
  "('c \<Rightarrow> ip_addr \<Rightarrow> name_cache_entry option) \<Rightarrow> nat \<Rightarrow> string \<Rightarrow> 'c virtual_dns \<Rightarrow> ip_addr \<Rightarrow> 'c virtual_dns \<Rightarrow> bool"
  where
  "allocated contents now name self ip self' \<longleftrightarrow>
     in_pool (vd_network_addr self) (vd_broadcast_addr self) ip
     \<and> contents (vd_lru_cache self) ip = None
     \<and> contents (vd_lru_cache self')
       = (contents (vd_lru_cache self))(ip \<mapsto> \<lparr>ne_name = name, ne_expiry = now + MAPPING_TIMEOUT\<rparr>)
     \<and> vd_name_to_ip self' = (vd_name_to_ip self)(name \<mapsto> ip)
     \<and> vd_next_addr self' = ip \<and> same_pool self self'"

definition pool_full :: "('c \<Rightarrow> ip_addr \<Rightarrow> name_cache_entry option) \<Rightarrow> 'c virtual_dns \<Rightarrow> bool" where
  "pool_full contents self \<longleftrightarrow>
     (\<forall>ip. in_pool (vd_network_addr self) (vd_broadcast_addr self) ip \<longrightarrow> contents (vd_lru_cache self) ip \<noteq> None)"

lemma rotate_mod:
  assumes "s < N" "k \<le> (N :: nat)"
  shows "(s + k) mod N = (if s + k < N then s + k else s + k - N)"
  using assms by (simp add: le_mod_geq)

lemma rotate_covers:
  assumes "s < N" "k < (N :: nat)"
  shows "\<exists>j < N. (s + j) mod N = k"
proof (cases "s \<le> k")
  case True
  then show ?thesis using assms by (intro exI [of _ "k - s"]) simp
next
  case False
  then show ?thesis using assms by (intro exI [of _ "k + N - s"]) simp
qed

lemma allocate_from:
  assumes "lru_law ops contents" "s < pool_size p q" "i < pool_size p q"
    and "vd_network_addr self = p" "vd_broadcast_addr self = q"
    and "vd_next_addr self = pool_at p ((s + i) mod pool_size p q)"
    and "\<forall>j < i. contents (vd_lru_cache self) (pool_at p ((s + j) mod pool_size p q)) \<noteq> None"
  shows "(\<exists>ip self'. allocate ops now (pool_at p s) name self = Some (Inr ip, self')
            \<and> allocated contents now name self ip self')
         \<or> (\<exists>e self'. allocate ops now (pool_at p s) name self = Some (Inl e, self')
            \<and> same_pool self self' \<and> vd_lru_cache self' = vd_lru_cache self
            \<and> vd_name_to_ip self' = vd_name_to_ip self \<and> vd_next_addr self' = pool_at p s
            \<and> pool_full contents self)"
  using assms(3-)
proof (induction "pool_size p q - i" arbitrary: i self rule: less_induct)
  case less
  let ?N = "pool_size p q"
  note law = lru_lawD [OF assms(1)]
  have here: "in_pool p q (vd_next_addr self)" using less.prems by (auto simp: in_pool_def)
  show ?case
  proof (cases "contents (vd_lru_cache self) (vd_next_addr self)")
    case None
    then show ?thesis using less.prems here
      by (subst allocate.simps) (auto simp: law allocated_def same_pool_def)
  next
    case (Some e)
    define self1 where "self1 = self\<lparr>vd_next_addr := step_addr self\<rparr>"
    have next1: "vd_next_addr self1 = pool_at p (Suc (s + i) mod ?N)"
      using step_addr_pool [of self "(s + i) mod ?N"] less.prems by (simp add: self1_def mod_Suc_eq)
    have step: "allocate ops now (pool_at p s) name self
      = (if vd_next_addr self1 = pool_at p s then Some (Inl ''Virtual IP space for DNS exhausted'', self1)
         else allocate ops now (pool_at p s) name self1)"
      using Some by (subst allocate.simps) (simp add: law self1_def)
    have seen: "contents (vd_lru_cache self1) (pool_at p ((s + j) mod ?N)) \<noteq> None" if "j < Suc i" for j
      using that less.prems Some by (auto simp: self1_def less_Suc_eq)
    show ?thesis
    proof (cases "Suc i < ?N")
      case True
      have "(s + Suc i) mod ?N \<noteq> s" using True assms(2) by (auto simp: rotate_mod simp del: add_Suc_right)
      then have "vd_next_addr self1 \<noteq> pool_at p s"
        using next1 assms(2) pool_at_inject [of "Suc (s + i) mod ?N" p q s] by simp
      then have step: "allocate ops now (pool_at p s) name self = allocate ops now (pool_at p s) name self1"
        using step by simp
      have "?N - Suc i < ?N - i" using True by linarith
      note rec = less.hyps [OF this True, of self1]
      have "allocated contents now name self1 = allocated contents now name self"
        "pool_full contents self1 = pool_full contents self" "same_pool self1 = same_pool self"
        "vd_lru_cache self1 = vd_lru_cache self" "vd_name_to_ip self1 = vd_name_to_ip self"
        by (simp_all add: fun_eq_iff allocated_def pool_full_def same_pool_def self1_def)
      then show ?thesis using rec next1 seen less.prems(2,3) step by (simp add: self1_def)
    next
      case False
      then have "Suc i = ?N" using less.prems(1) by linarith
      then have "vd_next_addr self1 = pool_at p s" using next1 assms(2) by (simp flip: add_Suc_right)
      moreover have "contents (vd_lru_cache self) ip \<noteq> None" if "in_pool p q ip" for ip
        using that seen rotate_covers [OF assms(2)] \<open>Suc i = ?N\<close> by (force simp: in_pool_def self1_def)
      ultimately show ?thesis
        using step less.prems(2,3) by (auto simp: pool_full_def same_pool_def self1_def)
    qed
  qed
qed

lemma allocate_spec:
  assumes "lru_law ops contents" "dns_inv contents self"
  shows "(\<exists>ip self'. allocate ops now (vd_next_addr self) name self = Some (Inr ip, self')
            \<and> allocated contents now name self ip self')
         \<or> (\<exists>e self'. allocate ops now (vd_next_addr self) name self = Some (Inl e, self')
            \<and> same_pool self self' \<and> vd_lru_cache self' = vd_lru_cache self
            \<and> vd_name_to_ip self' = vd_name_to_ip self \<and> vd_next_addr self' = vd_next_addr self
            \<and> pool_full contents self)"
proof -
  obtain s where "s < pool_size (vd_network_addr self) (vd_broadcast_addr self)"
    "vd_next_addr self = pool_at (vd_network_addr self) s"
    using assms(2) by (auto simp: dns_inv_def in_pool_def)
  then show ?thesis
    using allocate_from [OF assms(1), of s "vd_network_addr self" "vd_broadcast_addr self" 0 self now name]
    by simp
qed

lemma dns_inv_allocated:
  assumes "dns_inv contents self" "allocated contents now name self ip self'" "vd_name_to_ip self name = None"
  shows "dns_inv contents self'"
proof -
  have "vd_name_to_ip self' n = Some ip' \<longleftrightarrow>
        (\<exists>e. contents (vd_lru_cache self') ip' = Some e \<and> ne_name e = n)" for n ip'
  proof -
    have "contents (vd_lru_cache self) ip' = Some e \<Longrightarrow> ne_name e \<noteq> name" for e
      using dns_inv_name [OF assms(1)] assms(3) by auto
    then show ?thesis
      using assms(1,2) unfolding dns_inv_def allocated_def by (auto split: if_splits)
  qed
  then show ?thesis
    using assms unfolding dns_inv_def allocated_def same_pool_def by auto
qed

lemma dns_inv_touch:
  assumes "lru_law ops contents" "dns_inv contents self"
  shows "dns_inv contents (touch_ip ops now ip self)"
  using assms(2) unfolding dns_inv_def touch_ip_def
  by (auto simp: lru_lawD(8) [OF assms(1)] split: if_splits)

lemma resolve_ip_eq:
  assumes "lru_law ops contents"
  shows "fst (resolve_ip ops ip self) = map_option ne_name (contents (vd_lru_cache self) ip)"
    and "contents (vd_lru_cache (snd (resolve_ip ops ip self))) = contents (vd_lru_cache self)"
    and "vd_name_to_ip (snd (resolve_ip ops ip self)) = vd_name_to_ip self"
    and "same_pool self (snd (resolve_ip ops ip self))"
    and "vd_next_addr (snd (resolve_ip ops ip self)) = vd_next_addr self"
  using lru_lawD(6,7) [OF assms, of ip "vd_lru_cache self"]
  by (auto simp: resolve_ip_def same_pool_def split: prod.split)

lemma dns_inv_resolve:
  assumes "lru_law ops contents" "dns_inv contents self"
  shows "dns_inv contents (snd (resolve_ip ops ip self))"
  using assms(2) resolve_ip_eq(2-) [OF assms(1), where ip = ip and self = self] unfolding dns_inv_def same_pool_def by simp

text \<open>
  An entry good until \<open>until\<close> or later is still there, under its name and as good.
\<close>

definition keeps ::
  "('c \<Rightarrow> ip_addr \<Rightarrow> name_cache_entry option) \<Rightarrow> nat \<Rightarrow> 'c virtual_dns \<Rightarrow> 'c virtual_dns \<Rightarrow> bool" where
  "keeps contents until self self' \<longleftrightarrow>
     (\<forall>ip e. contents (vd_lru_cache self) ip = Some e \<and> until \<le> ne_expiry e \<longrightarrow>
        (\<exists>e'. contents (vd_lru_cache self') ip = Some e' \<and> ne_name e' = ne_name e \<and> until \<le> ne_expiry e'))"

lemma keeps_trans: "keeps contents u a b \<Longrightarrow> keeps contents u b c \<Longrightarrow> keeps contents u a c"
  unfolding keeps_def by metis

lemma keeps_same: "contents (vd_lru_cache self') = contents (vd_lru_cache self) \<Longrightarrow> keeps contents u self self'"
  by (simp add: keeps_def)

lemma keeps_touch:
  "lru_law ops contents \<Longrightarrow> until \<le> now + MAPPING_TIMEOUT \<Longrightarrow> keeps contents until self (touch_ip ops now ip self)"
  by (auto simp: keeps_def touch_ip_def lru_lawD(8))

lemma keeps_allocated: "allocated contents now name self ip self' \<Longrightarrow> keeps contents until self self'"
  by (auto simp: keeps_def allocated_def)

text \<open>What an operation of the server keeps.\<close>

definition dns_step_ok ::
  "('c \<Rightarrow> ip_addr \<Rightarrow> name_cache_entry option) \<Rightarrow> nat \<Rightarrow> 'c virtual_dns \<Rightarrow> 'c virtual_dns \<Rightarrow> bool" where
  "dns_step_ok contents until self self' \<longleftrightarrow>
     dns_inv contents self' \<and> same_pool self self' \<and> keeps contents until self self'"

lemma dns_step_ok_trans:
  "dns_step_ok contents u a b \<Longrightarrow> dns_step_ok contents u b c \<Longrightarrow> dns_step_ok contents u a c"
  unfolding dns_step_ok_def same_pool_def using keeps_trans by metis

lemma find_or_allocate_ip_spec:
  assumes "lru_law ops contents" "dns_inv contents self" "now \<le> until" "until \<le> later + MAPPING_TIMEOUT"
  shows "\<exists>r self'. find_or_allocate_ip ops now later name self = Some (r, self')
           \<and> dns_step_ok contents until self self'
           \<and> (case r of
                Inl _ \<Rightarrow> pool_full contents self'
              | Inr ip \<Rightarrow> contents (vd_lru_cache self') ip
                  = Some \<lparr>ne_name = canonical_name (vd_trailing_dot self) name, ne_expiry = later + MAPPING_TIMEOUT\<rparr>)"
proof -
  let ?name = "canonical_name (vd_trailing_dot self) name"
  obtain self1 where fresh: "remove_expired ops now self = Some self1" and inv: "dns_inv contents self1"
    and "same_pool self self1"
    and "\<forall>ip e. contents (vd_lru_cache self) ip = Some e \<and> now \<le> ne_expiry e
           \<longrightarrow> contents (vd_lru_cache self1) ip = Some e"
    using remove_expired_spec [OF assms(1,2)] by blast
  then have one: "dns_step_ok contents until self self1"
    using assms(3) unfolding dns_step_ok_def keeps_def by (blast intro: order_trans)
  show ?thesis
  proof (cases "vd_name_to_ip self1 ?name")
    case (Some ip)
    let ?self2 = "touch_ip ops later ip self1"
    obtain e where "contents (vd_lru_cache self1) ip = Some e" "ne_name e = ?name"
      using inv Some by (auto simp: dns_inv_def)
    then have "contents (vd_lru_cache ?self2) ip = Some \<lparr>ne_name = ?name, ne_expiry = later + MAPPING_TIMEOUT\<rparr>"
      by (cases e) (simp add: touch_ip_def lru_lawD(8) [OF assms(1)])
    moreover have "dns_step_ok contents until self1 ?self2"
      using dns_inv_touch [OF assms(1) inv] keeps_touch [OF assms(1,4)]
      by (simp add: dns_step_ok_def same_pool_def touch_ip_def)
    ultimately show ?thesis
      using Some fresh dns_step_ok_trans [OF one] by (auto simp: find_or_allocate_ip_def Let_def)
  next
    case None
    have find: "find_or_allocate_ip ops now later name self = allocate ops later (vd_next_addr self1) ?name self1"
      using None fresh by (simp add: find_or_allocate_ip_def Let_def)
    from allocate_spec [OF assms(1) inv, of later ?name] show ?thesis
    proof (elim disjE exE conjE)
      fix ip self'
      assume run: "allocate ops later (vd_next_addr self1) ?name self1 = Some (Inr ip, self')"
        and new: "allocated contents later ?name self1 ip self'"
      have "dns_step_ok contents until self1 self'"
        using dns_inv_allocated [OF inv new None] keeps_allocated [OF new] new
        by (simp add: dns_step_ok_def allocated_def)
      then show ?thesis using find run new dns_step_ok_trans [OF one] by (auto simp: allocated_def)
    next
      fix e self'
      assume run: "allocate ops later (vd_next_addr self1) ?name self1 = Some (Inl e, self')"
        and same: "same_pool self1 self'" "vd_lru_cache self' = vd_lru_cache self1"
          "vd_name_to_ip self' = vd_name_to_ip self1" "vd_next_addr self' = vd_next_addr self1"
        and full: "pool_full contents self1"
      have "dns_step_ok contents until self1 self'"
        using inv same by (simp add: dns_step_ok_def dns_inv_def same_pool_def keeps_same)
      moreover have "pool_full contents self'" using full same by (simp add: pool_full_def same_pool_def)
      ultimately show ?thesis using find run dns_step_ok_trans [OF one] by auto
    qed
  qed
qed

subsection \<open>Running the server\<close>

text \<open>What the tunnel calls, with the instants at which the clock is read.\<close>

datatype dns_call = Ask nat nat bytes | Touch nat ip_addr | Resolve ip_addr

fun dns_call_step :: "'c lru_ops \<Rightarrow> 'n dns_ops \<Rightarrow> dns_call \<Rightarrow> 'c virtual_dns \<Rightarrow> 'c virtual_dns option" where
  "dns_call_step ops dns (Ask now later data) self = map_option snd (generate_query ops dns now later data self)"
| "dns_call_step ops dns (Touch now ip) self = Some (touch_ip ops now ip self)"
| "dns_call_step ops dns (Resolve ip) self = Some (snd (resolve_ip ops ip self))"

fun dns_calls :: "'c lru_ops \<Rightarrow> 'n dns_ops \<Rightarrow> dns_call list \<Rightarrow> 'c virtual_dns \<Rightarrow> 'c virtual_dns option" where
  "dns_calls ops dns [] self = Some self"
| "dns_calls ops dns (call # calls) self = Option.bind (dns_call_step ops dns call self) (dns_calls ops dns calls)"

text \<open>A call made once \<open>start\<close> is past, that looks for entries expired by \<open>start\<close> plus the timeout.\<close>

fun within :: "nat \<Rightarrow> dns_call \<Rightarrow> bool" where
  "within start (Ask now later _) \<longleftrightarrow> now \<le> start + MAPPING_TIMEOUT \<and> start \<le> later"
| "within start (Touch now _) \<longleftrightarrow> start \<le> now"
| "within start (Resolve _) \<longleftrightarrow> True"

lemma generate_query_spec:
  assumes "lru_law ops contents" "dns_inv contents self" "now \<le> until" "until \<le> later + MAPPING_TIMEOUT"
  shows "\<exists>r self'. generate_query ops dns now later data self = Some (r, self')
           \<and> dns_step_ok contents until self self'
           \<and> (\<forall>bytes qname ip. r = Inr (bytes, qname, ip) \<longrightarrow>
                contents (vd_lru_cache self') ip
                  = Some \<lparr>ne_name = canonical_name (vd_trailing_dot self) qname, ne_expiry = later + MAPPING_TIMEOUT\<rparr>)"
proof (cases "outcome_bind (parse_data_to_dns_message dns data False) (\<lambda>message.
             outcome_bind (extract_domain_from_dns_message dns message) (\<lambda>qname. Inr (message, qname)))")
  case (Inl e)
  then show ?thesis
    using assms(2) by (simp add: generate_query_def dns_step_ok_def same_pool_def keeps_same del: outcome_bind_Inr_iff)
next
  case (Inr asked)
  obtain message qname where asked: "asked = (message, qname)" by (cases asked)
  from find_or_allocate_ip_spec [OF assms, of qname] obtain r self' where
    "find_or_allocate_ip ops now later qname self = Some (r, self')" "dns_step_ok contents until self self'"
    "case r of Inl _ \<Rightarrow> pool_full contents self'
     | Inr ip \<Rightarrow> contents (vd_lru_cache self') ip
         = Some \<lparr>ne_name = canonical_name (vd_trailing_dot self) qname, ne_expiry = later + MAPPING_TIMEOUT\<rparr>"
    by blast
  then show ?thesis
    using Inr asked by (auto simp: generate_query_def)
qed

lemma dns_call_step_ok:
  assumes "lru_law ops contents" "dns_inv contents self" "within start call"
  shows "\<exists>self'. dns_call_step ops dns call self = Some self'
           \<and> dns_step_ok contents (start + MAPPING_TIMEOUT) self self'"
proof (cases call)
  case (Ask now later data)
  then show ?thesis
    using generate_query_spec [OF assms(1,2), of now "start + MAPPING_TIMEOUT" later dns data] assms(3) by auto
next
  case (Touch now ip)
  then show ?thesis
    using dns_inv_touch [OF assms(1,2)] keeps_touch [OF assms(1), of "start + MAPPING_TIMEOUT" now self ip] assms(3)
    by (simp add: dns_step_ok_def) (simp add: same_pool_def touch_ip_def)
next
  case (Resolve ip)
  then show ?thesis
    using dns_inv_resolve [OF assms(1,2)] resolve_ip_eq(4) [OF assms(1)] keeps_same [OF resolve_ip_eq(2) [OF assms(1)]]
    by (simp add: dns_step_ok_def)
qed

lemma dns_calls_ok:
  assumes "lru_law ops contents" "dns_inv contents self" "\<forall>call \<in> set calls. within start call"
  shows "\<exists>self'. dns_calls ops dns calls self = Some self'
           \<and> dns_step_ok contents (start + MAPPING_TIMEOUT) self self'"
  using assms(2,3)
proof (induction calls arbitrary: self)
  case Nil
  then show ?case by (simp add: dns_step_ok_def same_pool_def keeps_same)
next
  case (Cons call calls)
  from dns_call_step_ok [OF assms(1) Cons.prems(1), of start call dns] Cons.prems(2)
  obtain self1 where one: "dns_call_step ops dns call self = Some self1"
    "dns_step_ok contents (start + MAPPING_TIMEOUT) self self1" by auto
  moreover obtain self' where "dns_calls ops dns calls self1 = Some self'"
    "dns_step_ok contents (start + MAPPING_TIMEOUT) self1 self'"
    using Cons.IH [of self1] Cons.prems(2) one(2) by (auto simp: dns_step_ok_def)
  ultimately show ?case using dns_step_ok_trans by auto
qed

text \<open>The clock does not run backwards within a call.\<close>

fun clock_ok :: "dns_call \<Rightarrow> bool" where
  "clock_ok (Ask now later _) \<longleftrightarrow> now \<le> later"
| "clock_ok _ \<longleftrightarrow> True"

text \<open>A single call fits some start, so any sequence of calls keeps the invariant.\<close>

lemma dns_calls_inv:
  assumes "lru_law ops contents" "dns_inv contents self" "list_all clock_ok calls"
  shows "\<exists>self'. dns_calls ops dns calls self = Some self' \<and> dns_inv contents self' \<and> same_pool self self'"
  using assms(2,3)
proof (induction calls arbitrary: self)
  case Nil
  then show ?case by (simp add: same_pool_def)
next
  case (Cons call calls)
  have "within (case call of Ask now _ _ \<Rightarrow> now | Touch now _ \<Rightarrow> now | Resolve _ \<Rightarrow> 0) call"
    using Cons.prems(2) by (cases call) auto
  then obtain self1 where one: "dns_call_step ops dns call self = Some self1"
    "dns_inv contents self1" "same_pool self self1"
    using dns_call_step_ok [OF assms(1) Cons.prems(1)] unfolding dns_step_ok_def by blast
  with Cons.IH [of self1] Cons.prems(2) obtain self' where "dns_calls ops dns calls self1 = Some self'"
    "dns_inv contents self'" "same_pool self1 self'" by auto
  then show ?case using one by (simp add: same_pool_def)
qed

text \<open>The response to a question that had no answer yet carries the address.\<close>

lemma response_carries_address:
  assumes "build_dns_response dns request domain ip ttl = Inr message"
    and "dm_response_code request = NoError" "dm_answers request = []"
  shows "extract_ipaddr_from_dns_message dns message = Inr ip"
    and "dm_message_type message = Response"
  using assms by (auto simp: build_dns_response_def extract_ipaddr_from_dns_message_def Let_def split: ip_addr.splits)

subsection \<open>A cache kept as a list\<close>

text \<open>Least recently used first, as the crate keeps it.\<close>

definition without :: "ip_addr \<Rightarrow> (ip_addr \<times> name_cache_entry) list \<Rightarrow> (ip_addr \<times> name_cache_entry) list" where
  "without ip c = filter (\<lambda>kv. fst kv \<noteq> ip) c"

definition list_lru :: "(ip_addr \<times> name_cache_entry) list lru_ops" where
  "list_lru = \<lparr>
     lru_new = [],
     lru_iter_next = (\<lambda>c. case c of [] \<Rightarrow> None | kv # _ \<Rightarrow> Some kv),
     lru_remove = without,
     lru_get = (\<lambda>ip c. case map_of c ip of None \<Rightarrow> (None, c) | Some e \<Rightarrow> (Some e, without ip c @ [(ip, e)])),
     lru_get_mut = (\<lambda>ip f c. case map_of c ip of None \<Rightarrow> c | Some e \<Rightarrow> without ip c @ [(ip, f e)]),
     lru_occupied = (\<lambda>ip c. map_of c ip \<noteq> None),
     lru_vacant_insert = (\<lambda>ip e c. c @ [(ip, e)])\<rparr>"

lemma map_of_without: "map_of (without ip c) = (map_of c)(ip := None)"
  by (induction c) (auto simp: without_def)

lemma list_lru_law: "lru_law list_lru map_of"
  unfolding lru_law_def list_lru_def
  by (auto simp: map_of_without finite_dom_map_of map_add_def fun_eq_iff split: option.split list.splits)

text \<open>Names as themselves, and a message that is the name asked for.\<close>

definition plain_dns :: "string dns_ops" where
  "plain_dns = \<lparr>
     message_from_vec = (\<lambda>data. Inr \<lparr>dm_id = 7, dm_message_type = Query, dm_response_code = NoError,
        dm_queries = [map (\<lambda>b. char_of (unat b)) data], dm_answers = []\<rparr>),
     message_to_vec = (\<lambda>message. Inr [of_nat (length (dm_answers message))]),
     name_from_str = Inr, name_to_string = (\<lambda>n. n), name_to_utf8 = (\<lambda>n. n),
     debug_code = (\<lambda>_. ''''), debug_answers = (\<lambda>_. '''')\<rparr>"

lemma find_respects_binding:
  assumes "lru_law ops contents" "dns_inv contents self"
    and "contents (vd_lru_cache self) ip = Some e" "start + MAPPING_TIMEOUT \<le> ne_expiry e"
    and "now \<le> start + MAPPING_TIMEOUT" "start \<le> later"
    and "find_or_allocate_ip ops now later name self = Some (Inr ip', self')"
  shows "ip' = ip \<longleftrightarrow> canonical_name (vd_trailing_dot self) name = ne_name e"
proof -
  let ?until = "start + MAPPING_TIMEOUT" and ?name = "canonical_name (vd_trailing_dot self) name"
  have "?until \<le> later + MAPPING_TIMEOUT" using assms(6) by simp
  from find_or_allocate_ip_spec [OF assms(1,2,5) this, of name] assms(7)
  have step: "dns_step_ok contents ?until self self'"
    and new: "contents (vd_lru_cache self') ip' = Some \<lparr>ne_name = ?name, ne_expiry = later + MAPPING_TIMEOUT\<rparr>"
    by auto
  obtain e' where e': "contents (vd_lru_cache self') ip = Some e'" "ne_name e' = ne_name e"
    using step assms(3,4) unfolding dns_step_ok_def keeps_def by metis
  have inv: "dns_inv contents self'" using step by (simp add: dns_step_ok_def)
  show ?thesis
    using dns_inv_name [OF inv e'(1)] dns_inv_name [OF inv new] new e' by auto
qed

subsection \<open>Properties\<close>

text \<open>
  C6: Every question to the virtual DNS server ends: both loops of the allocation stop after any
  history of calls, and the answer is an address of the pool under which the name is found again,
  or an error that is only given when every address of the pool is taken.
\<close>

theorem virtual_dns_always_answers:
  assumes "lru_law ops contents" "0 < pool_size first_address last_address"
    and "list_all clock_ok calls" "now \<le> later"
  shows "\<exists>self r self'.
    dns_calls ops dns calls (virtual_dns_new ops first_address last_address) = Some self
    \<and> find_or_allocate_ip ops now later name self = Some (r, self')
    \<and> (case r of
         Inl _ \<Rightarrow> \<forall>ip. in_pool first_address last_address ip \<longrightarrow> contents (vd_lru_cache self') ip \<noteq> None
       | Inr ip \<Rightarrow> in_pool first_address last_address ip
                  \<and> fst (resolve_ip ops ip self') = Some (canonical_name False name))"
proof -
  let ?new = "virtual_dns_new ops first_address last_address"
  obtain self where run: "dns_calls ops dns calls ?new = Some self" "dns_inv contents self" "same_pool ?new self"
    using dns_calls_inv [OF assms(1) dns_inv_new [OF assms(1,2)] assms(3)] by blast
  obtain r self' where found: "find_or_allocate_ip ops now later name self = Some (r, self')"
      "dns_step_ok contents now self self'"
    and result: "case r of Inl _ \<Rightarrow> pool_full contents self'
      | Inr ip \<Rightarrow> contents (vd_lru_cache self') ip
          = Some \<lparr>ne_name = canonical_name (vd_trailing_dot self) name, ne_expiry = later + MAPPING_TIMEOUT\<rparr>"
    using find_or_allocate_ip_spec [OF assms(1) run(2) order_refl trans_le_add1 [OF assms(4)], of name] by blast
  have pool: "vd_network_addr self' = first_address" "vd_broadcast_addr self' = last_address"
    "vd_trailing_dot self = False"
    using run(3) found(2) by (simp_all add: dns_step_ok_def same_pool_def virtual_dns_new_def)
  have "\<forall>ip e. contents (vd_lru_cache self') ip = Some e \<longrightarrow> in_pool first_address last_address ip"
    using found(2) pool unfolding dns_step_ok_def dns_inv_def by auto
  then show ?thesis
    using run(1) found(1) result pool by (auto simp: pool_full_def resolve_ip_eq(1) [OF assms(1)] split: sum.splits)
qed

theorem virtual_dns_always_answers_witness:
  "\<exists>self r self'.
    dns_calls list_lru plain_dns [Ask 1 2 [97], Ask 3 3 [98, 46], Resolve (V4 11)] (virtual_dns_new list_lru (V4 10) (V4 12))
      = Some self
    \<and> find_or_allocate_ip list_lru 4 4 ''c'' self = Some (r, self')
    \<and> (case r of
         Inl _ \<Rightarrow> \<forall>ip. in_pool (V4 10) (V4 12) ip \<longrightarrow> map_of (vd_lru_cache self') ip \<noteq> None
       | Inr ip \<Rightarrow> in_pool (V4 10) (V4 12) ip \<and> fst (resolve_ip list_lru ip self') = Some (canonical_name False ''c''))"
  using virtual_dns_always_answers [OF list_lru_law, of "V4 10" "V4 12"
      "[Ask 1 2 [97], Ask 3 3 [98, 46], Resolve (V4 11)]" 4 4 plain_dns "''c''"]
  by simp

text \<open>
  C7: An address handed out stays bound to its name: whatever is asked, touched or resolved in the
  minute that follows, the address still resolves to that name, asking for the name again gives the
  same address, and no other name is given it.
\<close>

theorem virtual_address_stays_bound:
  assumes "lru_law ops contents" "0 < pool_size first_address last_address"
    and "list_all clock_ok before"
    and "dns_calls ops dns before (virtual_dns_new ops first_address last_address) = Some self"
    and "now \<le> start"
    and "generate_query ops dns now start data self = Some (Inr (bytes, qname, ip), self1)"
    and "list_all (within start) calls"
  shows "\<exists>self2. dns_calls ops dns calls self1 = Some self2
    \<and> in_pool first_address last_address ip
    \<and> fst (resolve_ip ops ip self2) = Some (canonical_name False qname)
    \<and> (\<forall>now' later' name' ip' self3. now' \<le> start + MAPPING_TIMEOUT \<and> start \<le> later'
         \<and> find_or_allocate_ip ops now' later' name' self2 = Some (Inr ip', self3)
         \<longrightarrow> (ip' = ip \<longleftrightarrow> canonical_name False name' = canonical_name False qname))"
proof -
  let ?until = "start + MAPPING_TIMEOUT" and ?new = "virtual_dns_new ops first_address last_address"
  have inv: "dns_inv contents self" "same_pool ?new self"
    using dns_calls_inv [OF assms(1) dns_inv_new [OF assms(1,2)] assms(3), of dns] assms(4) by auto
  have one: "dns_step_ok contents ?until self self1"
    and entry: "contents (vd_lru_cache self1) ip
      = Some \<lparr>ne_name = canonical_name (vd_trailing_dot self) qname, ne_expiry = ?until\<rparr>"
    using generate_query_spec [OF assms(1) inv(1) trans_le_add1 [OF assms(5)] order_refl, of dns data] assms(6) by auto
  obtain self2 where run: "dns_calls ops dns calls self1 = Some self2" and two: "dns_step_ok contents ?until self1 self2"
    using dns_calls_ok [OF assms(1), of self1 calls start dns] one assms(7) by (auto simp: dns_step_ok_def list_all_iff)
  have pool: "vd_network_addr self2 = first_address" "vd_broadcast_addr self2 = last_address"
    "vd_trailing_dot self2 = False" "vd_trailing_dot self = False"
    using inv(2) one two by (simp_all add: dns_step_ok_def same_pool_def virtual_dns_new_def)
  have "\<exists>e. contents (vd_lru_cache self2) ip = Some e \<and> ne_name e = canonical_name False qname \<and> ?until \<le> ne_expiry e"
    using two entry pool(4) unfolding dns_step_ok_def keeps_def by fastforce
  then obtain e where e: "contents (vd_lru_cache self2) ip = Some e" "ne_name e = canonical_name False qname"
    "?until \<le> ne_expiry e" by blast
  have inv2: "dns_inv contents self2" using two by (simp add: dns_step_ok_def)
  then have "in_pool first_address last_address ip"
    using e(1) pool unfolding dns_inv_def by auto
  moreover have "fst (resolve_ip ops ip self2) = Some (canonical_name False qname)"
    using e by (simp add: resolve_ip_eq(1) [OF assms(1)])
  ultimately show ?thesis
    using run find_respects_binding [OF assms(1) inv2 e(1,3)] unfolding pool(3) e(2) by blast
qed

theorem virtual_address_stays_bound_witness:
  "\<exists>self self1 self2.
    dns_calls list_lru plain_dns [Ask 1 2 [97]] (virtual_dns_new list_lru (V4 10) (V4 20)) = Some self
    \<and> generate_query list_lru plain_dns 5 6 [98, 46] self = Some (Inr ([1], ''b.'', V4 11), self1)
    \<and> dns_calls list_lru plain_dns [Ask 62 62 [99], Touch 63 (V4 10), Ask 66 67 [100]] self1 = Some self2
    \<and> fst (resolve_ip list_lru (V4 11) self2) = Some ''b''"
proof -
  let ?new = "virtual_dns_new list_lru (V4 10) (V4 20)" and ?before = "[Ask 1 2 [97]]"
  have "map_option fst (Option.bind (dns_calls list_lru plain_dns ?before ?new)
          (generate_query list_lru plain_dns 5 6 [98, 46])) = Some (Inr ([1], ''b.'', V4 11))"
    by code_simp
  then obtain self self1 where before: "dns_calls list_lru plain_dns ?before ?new = Some self"
    and asked: "generate_query list_lru plain_dns 5 6 [98, 46] self = Some (Inr ([1], ''b.'', V4 11), self1)"
    by (auto split: bind_splits)
  have "canonical_name False ''b.'' = ''b''" by code_simp
  then show ?thesis
    using virtual_address_stays_bound [OF list_lru_law _ _ before _ asked, of "[Ask 62 62 [99], Touch 63 (V4 10), Ask 66 67 [100]]"]
      before asked by (auto simp: MAPPING_TIMEOUT_def)
qed

end
