(* ===== verification/Huffman_Code.thy ===== *)
theory Huffman_Code
  imports Huffman_Table "HOL-Library.Sublist"
begin

text \<open>
  What the tables of the Huffman code mean.  A code word is a list of bits; a state of the decoder
  is a node of the code tree, named by the bits that lead to it.  Every entry of the decoding table
  is checked against the code table, and the code words are shown to form a complete prefix code,
  so that a sequence of bits is cut into code words in one way only.
\<close>

unbundle bit_operations_syntax

subsection \<open>Bits\<close>

text \<open>The last \<open>n\<close> binary digits of a number, the most significant first.\<close>

fun bits :: "nat \<Rightarrow> nat \<Rightarrow> bool list" where
  "bits 0 v = []"
| "bits (Suc n) v = bits n (v div 2) @ [odd v]"

lemma length_bits [simp]: "length (bits n v) = n"
  by (induction n v rule: bits.induct) simp_all

lemma bits_append: "w < 2 ^ k \<Longrightarrow> bits n v @ bits k w = bits (n + k) (v * 2 ^ k + w)"
proof (induction k arbitrary: w)
  case 0
  then show ?case by simp
next
  case (Suc k)
  have "(v * 2 ^ Suc k + w) div 2 = v * 2 ^ k + w div 2" "odd (v * 2 ^ Suc k + w) = odd w"
    by (simp_all add: div_add)
  moreover have "w div 2 < 2 ^ k" using Suc.prems by simp
  ultimately show ?case using Suc.IH [of "w div 2"] by simp
qed

lemma bits_split: "bits (n + k) v = bits n (v div 2 ^ k) @ bits k (v mod 2 ^ k)"
  using bits_append [of "v mod 2 ^ k" k n "v div 2 ^ k"] by (simp only: div_mult_mod_eq) simp

lemma bits_inject: "v < 2 ^ n \<Longrightarrow> w < 2 ^ n \<Longrightarrow> bits n v = bits n w \<longleftrightarrow> v = w"
proof (induction n arbitrary: v w)
  case (Suc n)
  have "v = w \<longleftrightarrow> v div 2 = w div 2 \<and> odd v = odd w" by (metis odd_two_times_div_two_succ dvd_mult_div_cancel)
  moreover have "v div 2 < 2 ^ n" "w div 2 < 2 ^ n" using Suc.prems by simp_all
  ultimately show ?case using Suc.IH by simp
qed simp

lemma bits_ones: "bits n (2 ^ n - 1) = replicate n True"
proof (induction n)
  case (Suc n)
  have "(2 ^ Suc n - 1) div 2 = (2 ^ n - 1 :: nat)" "odd (2 ^ Suc n - 1 :: nat)" by simp_all
  then show ?case using Suc by (simp add: replicate_append_same)
qed simp

subsection \<open>Code words and states\<close>

definition code_at :: "nat \<Rightarrow> nat \<times> nat" where
  "code_at s = (case ENCODE_TABLE ! s of (n, c) \<Rightarrow> (n, unat c))"

definition code_bits :: "nat \<Rightarrow> bool list" where
  "code_bits s = (case code_at s of (n, c) \<Rightarrow> bits n c)"

text \<open>The end marker is the 257th symbol.\<close>

definition EOS :: nat where "EOS = 256"

text \<open>
  For each state the bits that lead to it, as their number and their value, and a symbol whose
  code word they begin; and the symbols in the order of their code words.
\<close>

definition state_paths :: "(nat \<times> nat \<times> nat) list" where
  "state_paths = [
     (0, 0, 0), (1, 0, 32), (2, 0, 48), (3, 0, 48), (4, 0, 48), (4, 1, 50), (3, 1, 99),
     (4, 2, 99), (4, 3, 105), (2, 1, 32), (3, 2, 32), (4, 4, 115), (4, 5, 32), (5, 10, 32),
     (5, 11, 45), (3, 3, 47), (4, 6, 47), (5, 12, 47), (5, 13, 52), (4, 7, 54), (5, 14, 54),
     (5, 15, 56), (1, 1, 0), (2, 2, 58), (3, 4, 61), (4, 8, 61), (5, 16, 61), (5, 17, 95),
     (4, 9, 100), (5, 18, 100), (5, 19, 103), (3, 5, 58), (4, 10, 108), (5, 20, 108), (5, 21, 110),
     (4, 11, 58), (5, 22, 114), (5, 23, 58), (6, 46, 58), (6, 47, 67), (2, 3, 0), (3, 6, 69),
     (4, 12, 69), (5, 24, 69), (6, 48, 69), (6, 49, 71), (5, 25, 73), (6, 50, 73), (6, 51, 75),
     (4, 13, 77), (5, 26, 77), (6, 52, 77), (6, 53, 79), (5, 27, 81), (6, 54, 81), (6, 55, 83),
     (3, 7, 0), (4, 14, 85), (5, 28, 85), (6, 56, 85), (6, 57, 87), (5, 29, 106), (6, 58, 106),
     (6, 59, 113), (4, 15, 0), (5, 30, 119), (6, 60, 119), (6, 61, 121), (5, 31, 0), (6, 62, 38),
     (7, 124, 38), (7, 125, 44), (6, 63, 0), (7, 126, 88), (7, 127, 0), (8, 254, 33), (9, 508, 33),
     (9, 509, 40), (8, 255, 0), (9, 510, 39), (10, 1021, 39), (9, 511, 0), (10, 1022, 35), (11, 2045, 35),
     (10, 1023, 0), (11, 2046, 0), (12, 4092, 0), (12, 4093, 64), (11, 2047, 1), (12, 4094, 93), (12, 4095, 1),
     (13, 8190, 94), (13, 8191, 1), (14, 16382, 60), (14, 16383, 1), (15, 32767, 1), (16, 65534, 92), (17, 131068, 92),
     (18, 262136, 92), (18, 262137, 128), (19, 524275, 128), (17, 131069, 131), (18, 262138, 131), (19, 524276, 131), (19, 524277, 184),
     (18, 262139, 153), (19, 524278, 224), (19, 524279, 153), (20, 1048558, 153), (20, 1048559, 167), (16, 65535, 1), (17, 131070, 129),
     (18, 262140, 176), (19, 524280, 176), (20, 1048560, 176), (20, 1048561, 179), (19, 524281, 216), (20, 1048562, 216), (20, 1048563, 227),
     (18, 262141, 129), (19, 524282, 129), (20, 1048564, 129), (21, 2097129, 129), (20, 1048565, 133), (21, 2097130, 133), (21, 2097131, 136),
     (19, 524283, 154), (20, 1048566, 154), (21, 2097132, 154), (21, 2097133, 160), (20, 1048567, 164), (21, 2097134, 164), (21, 2097135, 170),
     (17, 131071, 1), (18, 262142, 1), (19, 524284, 178), (20, 1048568, 178), (21, 2097136, 178), (21, 2097137, 185), (20, 1048569, 187),
     (21, 2097138, 187), (21, 2097139, 190), (19, 524285, 1), (20, 1048570, 198), (21, 2097140, 198), (21, 2097141, 232), (20, 1048571, 1),
     (21, 2097142, 1), (22, 4194284, 1), (22, 4194285, 137), (21, 2097143, 139), (22, 4194286, 139), (22, 4194287, 141), (18, 262143, 2),
     (19, 524286, 147), (20, 1048572, 147), (21, 2097144, 147), (22, 4194288, 147), (22, 4194289, 150), (21, 2097145, 152), (22, 4194290, 152),
     (22, 4194291, 157), (20, 1048573, 165), (21, 2097146, 165), (22, 4194292, 165), (22, 4194293, 168), (21, 2097147, 175), (22, 4194294, 175),
     (22, 4194295, 182), (19, 524287, 2), (20, 1048574, 9), (21, 2097148, 188), (22, 4194296, 188), (22, 4194297, 197), (21, 2097149, 9),
     (22, 4194298, 9), (23, 8388597, 9), (22, 4194299, 144), (23, 8388598, 144), (23, 8388599, 148), (20, 1048575, 2), (21, 2097150, 171),
     (22, 4194300, 171), (23, 8388600, 171), (23, 8388601, 215), (22, 4194301, 199), (23, 8388602, 236), (23, 8388603, 199), (24, 16777206, 199),
     (24, 16777207, 234), (21, 2097151, 2), (22, 4194302, 192), (23, 8388604, 192), (24, 16777208, 192), (25, 33554416, 192), (25, 33554417, 200),
     (24, 16777209, 202), (25, 33554418, 202), (25, 33554419, 210), (23, 8388605, 203), (24, 16777210, 218), (25, 33554420, 218), (25, 33554421, 238),
     (24, 16777211, 203), (25, 33554422, 242), (25, 33554423, 203), (26, 67108847, 203), (22, 4194303, 2), (23, 8388606, 211), (24, 16777212, 211),
     (25, 33554424, 211), (26, 67108848, 211), (26, 67108849, 214), (25, 33554425, 222), (26, 67108850, 222), (26, 67108851, 241), (24, 16777213, 245),
     (25, 33554426, 245), (26, 67108852, 245), (26, 67108853, 247), (25, 33554427, 250), (26, 67108854, 250), (26, 67108855, 252), (23, 8388607, 2),
     (24, 16777214, 2), (25, 33554428, 2), (26, 67108856, 2), (27, 134217713, 2), (26, 67108857, 4), (27, 134217714, 4), (27, 134217715, 6),
     (25, 33554429, 8), (26, 67108858, 8), (27, 134217716, 8), (27, 134217717, 12), (26, 67108859, 15), (27, 134217718, 15), (27, 134217719, 17),
     (24, 16777215, 10), (25, 33554430, 19), (26, 67108860, 19), (27, 134217720, 19), (27, 134217721, 21), (26, 67108861, 24), (27, 134217722, 24),
     (27, 134217723, 26), (25, 33554431, 10), (26, 67108862, 28), (27, 134217724, 28), (27, 134217725, 30), (26, 67108863, 10), (27, 134217726, 127),
     (27, 134217727, 10), (28, 268435455, 10), (29, 536870910, 10), (29, 536870911, 22)]"

definition code_order :: "nat list" where
  "code_order = [
     48, 49, 50, 97, 99, 101, 105, 111, 115, 116, 32, 37, 45, 46, 47, 51, 52, 53,
     54, 55, 56, 57, 61, 65, 95, 98, 100, 102, 103, 104, 108, 109, 110, 112, 114, 117,
     58, 66, 67, 68, 69, 70, 71, 72, 73, 74, 75, 76, 77, 78, 79, 80, 81, 82,
     83, 84, 85, 86, 87, 89, 106, 107, 113, 118, 119, 120, 121, 122, 38, 42, 44, 59,
     88, 90, 33, 34, 40, 41, 63, 39, 43, 124, 35, 62, 0, 36, 64, 91, 93, 126,
     94, 125, 60, 96, 123, 92, 195, 208, 128, 130, 131, 162, 184, 194, 224, 226, 153, 161,
     167, 172, 176, 177, 179, 209, 216, 217, 227, 229, 230, 129, 132, 133, 134, 136, 146, 154,
     156, 160, 163, 164, 169, 170, 173, 178, 181, 185, 186, 187, 189, 190, 196, 198, 228, 232,
     233, 1, 135, 137, 138, 139, 140, 141, 143, 147, 149, 150, 151, 152, 155, 157, 158, 165,
     166, 168, 174, 175, 180, 182, 183, 188, 191, 197, 231, 239, 9, 142, 144, 145, 148, 159,
     171, 206, 215, 225, 236, 237, 199, 207, 234, 235, 192, 193, 200, 201, 202, 205, 210, 213,
     218, 219, 238, 240, 242, 243, 255, 203, 204, 211, 212, 214, 221, 222, 223, 241, 244, 245,
     246, 247, 248, 250, 251, 252, 253, 254, 2, 3, 4, 5, 6, 7, 8, 11, 12, 14,
     15, 16, 17, 18, 19, 20, 21, 23, 24, 25, 26, 27, 28, 29, 30, 31, 127, 220,
     249, 10, 13, 22, 256]"


definition path_at :: "nat \<Rightarrow> nat \<times> nat" where
  "path_at q = (case state_paths ! q of (n, v, s) \<Rightarrow> (n, v))"

definition path_bits :: "nat \<Rightarrow> bool list" where
  "path_bits q = (case path_at q of (n, v) \<Rightarrow> bits n v)"

text \<open>A predicate of the elements of a list and their positions.\<close>

fun all_from :: "(nat \<Rightarrow> 'a \<Rightarrow> bool) \<Rightarrow> nat \<Rightarrow> 'a list \<Rightarrow> bool" where
  "all_from P i [] \<longleftrightarrow> True"
| "all_from P i (x # xs) \<longleftrightarrow> P i x \<and> all_from P (Suc i) xs"

lemma all_from_iff: "all_from P i xs \<longleftrightarrow> (\<forall>j < length xs. P (i + j) (xs ! j))"
  by (induction xs arbitrary: i) (auto simp: nth_Cons less_Suc_eq_0_disj split: nat.splits)

lemma all_from_append: "all_from P i (xs @ ys) \<longleftrightarrow> all_from P i xs \<and> all_from P (i + length xs) ys"
  by (induction xs arbitrary: i) simp_all

lemma length_tables: "length state_paths = 256" "length ENCODE_TABLE = 257" "length code_order = 257"
  by (simp_all add: state_paths_def ENCODE_TABLE_def code_order_def)

text \<open>Both tables as rewrite rules, one for each entry.\<close>

lemma path_facts: "all_from (\<lambda>q p. path_at q = (case p of (n, v, s) \<Rightarrow> (n, v))) 0 state_paths"
  by (simp add: all_from_iff path_at_def)

lemma code_facts: "all_from (\<lambda>s p. code_at s = (case p of (n, c) \<Rightarrow> (n, unat c))) 0 ENCODE_TABLE"
  by (simp add: all_from_iff code_at_def)

lemma nat_two: "Suc (Suc 0) = 2"
  by simp

lemmas path_at_eqs =
  path_facts [unfolded state_paths_def, simplified all_from.simps nat_two Suc_numeral prod.case Num.add_num_simps]

lemmas code_at_eqs =
  code_facts [unfolded ENCODE_TABLE_def, simplified all_from.simps nat_two Suc_numeral prod.case Num.add_num_simps, simplified]

subsection \<open>The code tree\<close>

text \<open>Every code word has at most 30 bits and fits them.\<close>

lemma code_sizes: "all_from (\<lambda>s _. case code_at s of (n, c) \<Rightarrow> 5 \<le> n \<and> n \<le> 30 \<and> c < 2 ^ n) 0 ENCODE_TABLE"
  by (simp add: ENCODE_TABLE_def nat_two code_at_eqs)

text \<open>Every state begins the code word of the symbol named with it, and only the first one is the root.\<close>

lemma state_sizes:
  "all_from (\<lambda>q (n, v, s). s < 257 \<and> v < 2 ^ n \<and> (n = 0 \<longleftrightarrow> q = 0)
     \<and> (case code_at s of (m, c) \<Rightarrow> n < m \<and> c div 2 ^ (m - n) = v)) 0 state_paths"
  by (simp add: state_paths_def nat_two code_at_eqs)

text \<open>
  Read as fractions of \<open>2 ^ 30\<close>, the code words in order cover everything without a gap.
\<close>

fun tiles :: "nat \<Rightarrow> nat list \<Rightarrow> bool" where
  "tiles start [] \<longleftrightarrow> start = 2 ^ 30"
| "tiles start (s # ss) \<longleftrightarrow>
     snd (code_at s) * 2 ^ (30 - fst (code_at s)) = start \<and> tiles (start + 2 ^ (30 - fst (code_at s))) ss"

lemma code_tiles: "tiles 0 code_order"
  by (simp add: code_order_def code_at_eqs)

subsection \<open>The decoding table\<close>

definition FLAG_END :: u8 where "FLAG_END = 1"

definition FLAG_SYM :: u8 where "FLAG_SYM = 2"

definition FLAG_ERR :: u8 where "FLAG_ERR = 4"

text \<open>
  What an entry for half byte \<open>d\<close> must say at a node: an error exactly where the end marker is
  complete; else the node reached, past the code word of a symbol if one is complete; and that the
  input may stop here, where the node is on the way to the end marker by less than a byte.
\<close>

definition entry_ok :: "nat \<times> nat \<Rightarrow> nat \<Rightarrow> nat \<times> u8 \<times> u8 \<Rightarrow> bool" where
  "entry_ok p d e \<longleftrightarrow>
     (case (p, e) of ((n, v), (q', s, flags)) \<Rightarrow>
        if flags AND FLAG_ERR = FLAG_ERR then 30 \<le> n + 4 \<and> (16 * v + d) div 2 ^ (n + 4 - 30) = 2 ^ 30 - 1
        else q' < 256 \<and>
          (case path_at q' of (k, w) \<Rightarrow>
             (if flags AND FLAG_SYM = FLAG_SYM
              then (case code_at (unat s) of (m, c) \<Rightarrow> n + 4 = m + k \<and> 16 * v + d = c * 2 ^ k + w)
              else n + 4 = k \<and> 16 * v + d = w)
             \<and> (flags AND FLAG_END = FLAG_END \<longleftrightarrow> 0 < k \<and> k < 8 \<and> w = 2 ^ k - 1)))"

definition row_ok :: "nat \<Rightarrow> (nat \<times> u8 \<times> u8) list \<Rightarrow> bool" where
  "row_ok q row \<longleftrightarrow> length row = 16 \<and> all_from (entry_ok (path_at q)) 0 row"

lemmas row_simps = row_ok_def entry_ok_def nat_two path_at_eqs code_at_eqs FLAG_END_def FLAG_SYM_def FLAG_ERR_def

lemmas decode_rows_defs =
  decode_rows_0_def decode_rows_8_def decode_rows_16_def decode_rows_24_def decode_rows_32_def
  decode_rows_40_def decode_rows_48_def decode_rows_56_def decode_rows_64_def decode_rows_72_def
  decode_rows_80_def decode_rows_88_def decode_rows_96_def decode_rows_104_def decode_rows_112_def
  decode_rows_120_def decode_rows_128_def decode_rows_136_def decode_rows_144_def
  decode_rows_152_def decode_rows_160_def decode_rows_168_def decode_rows_176_def
  decode_rows_184_def decode_rows_192_def decode_rows_200_def decode_rows_208_def
  decode_rows_216_def decode_rows_224_def decode_rows_232_def decode_rows_240_def
  decode_rows_248_def

lemma decode_rows_ok:
  "all_from row_ok 0 decode_rows_0"
  "all_from row_ok 8 decode_rows_8"
  "all_from row_ok 16 decode_rows_16"
  "all_from row_ok 24 decode_rows_24"
  "all_from row_ok 32 decode_rows_32"
  "all_from row_ok 40 decode_rows_40"
  "all_from row_ok 48 decode_rows_48"
  "all_from row_ok 56 decode_rows_56"
  "all_from row_ok 64 decode_rows_64"
  "all_from row_ok 72 decode_rows_72"
  "all_from row_ok 80 decode_rows_80"
  "all_from row_ok 88 decode_rows_88"
  "all_from row_ok 96 decode_rows_96"
  "all_from row_ok 104 decode_rows_104"
  "all_from row_ok 112 decode_rows_112"
  "all_from row_ok 120 decode_rows_120"
  "all_from row_ok 128 decode_rows_128"
  "all_from row_ok 136 decode_rows_136"
  "all_from row_ok 144 decode_rows_144"
  "all_from row_ok 152 decode_rows_152"
  "all_from row_ok 160 decode_rows_160"
  "all_from row_ok 168 decode_rows_168"
  "all_from row_ok 176 decode_rows_176"
  "all_from row_ok 184 decode_rows_184"
  "all_from row_ok 192 decode_rows_192"
  "all_from row_ok 200 decode_rows_200"
  "all_from row_ok 208 decode_rows_208"
  "all_from row_ok 216 decode_rows_216"
  "all_from row_ok 224 decode_rows_224"
  "all_from row_ok 232 decode_rows_232"
  "all_from row_ok 240 decode_rows_240"
  "all_from row_ok 248 decode_rows_248"
  by (simp_all add: decode_rows_defs row_simps)

lemma decode_rows_length:
  "length decode_rows_0 = 8" "length decode_rows_8 = 8" "length decode_rows_16 = 8"
  "length decode_rows_24 = 8" "length decode_rows_32 = 8" "length decode_rows_40 = 8"
  "length decode_rows_48 = 8" "length decode_rows_56 = 8" "length decode_rows_64 = 8"
  "length decode_rows_72 = 8" "length decode_rows_80 = 8" "length decode_rows_88 = 8"
  "length decode_rows_96 = 8" "length decode_rows_104 = 8" "length decode_rows_112 = 8"
  "length decode_rows_120 = 8" "length decode_rows_128 = 8" "length decode_rows_136 = 8"
  "length decode_rows_144 = 8" "length decode_rows_152 = 8" "length decode_rows_160 = 8"
  "length decode_rows_168 = 8" "length decode_rows_176 = 8" "length decode_rows_184 = 8"
  "length decode_rows_192 = 8" "length decode_rows_200 = 8" "length decode_rows_208 = 8"
  "length decode_rows_216 = 8" "length decode_rows_224 = 8" "length decode_rows_232 = 8"
  "length decode_rows_240 = 8" "length decode_rows_248 = 8"
  by (simp_all add: decode_rows_defs)

lemma decode_table_ok: "all_from row_ok 0 DECODE_TABLE" "length DECODE_TABLE = 256"
  using decode_rows_ok by (simp_all add: DECODE_TABLE_def all_from_append decode_rows_length)

subsection \<open>A prefix code\<close>

lemma code_size:
  assumes "s < 257"
  shows "5 \<le> fst (code_at s)" "fst (code_at s) \<le> 30" "snd (code_at s) < 2 ^ fst (code_at s)"
  using code_sizes assms by (simp_all add: all_from_iff length_tables case_prod_unfold)

lemma code_bits_eq: "code_bits s = bits (fst (code_at s)) (snd (code_at s))"
  by (simp add: code_bits_def split: prod.split)

text \<open>The interval of the numbers below \<open>2 ^ 30\<close> whose binary digits begin with a code word.\<close>

definition code_lo :: "nat \<Rightarrow> nat" where
  "code_lo s = snd (code_at s) * 2 ^ (30 - fst (code_at s))"

definition code_hi :: "nat \<Rightarrow> nat" where
  "code_hi s = code_lo s + 2 ^ (30 - fst (code_at s))"

lemma tiles_above: "tiles start ss \<Longrightarrow> s \<in> set ss \<Longrightarrow> start \<le> code_lo s"
  by (induction start ss rule: tiles.induct) (auto simp: code_lo_def)

lemma tiles_disjoint:
  "tiles start ss \<Longrightarrow> i < j \<Longrightarrow> j < length ss \<Longrightarrow> code_hi (ss ! i) \<le> code_lo (ss ! j)"
proof (induction start ss arbitrary: i j rule: tiles.induct)
  case (2 start s ss)
  obtain j' where j: "j = Suc j'" using 2(3) by (cases j) simp_all
  show ?case
  proof (cases i)
    case 0
    then show ?thesis
      using 2(2,4) j tiles_above [of "start + 2 ^ (30 - fst (code_at s))" ss "ss ! j'"]
      by (simp add: code_hi_def code_lo_def)
  next
    case (Suc i')
    then show ?thesis using 2 j by simp
  qed
qed simp

lemma code_hi_above: "code_lo s < code_hi s"
  by (simp add: code_hi_def)

lemma code_order_all: "set code_order = {..<257}"
proof -
  have "inj_on ((!) code_order) {..<257}"
  proof (rule inj_onI)
    fix i j
    assume "i \<in> {..<257}" "j \<in> {..<257}" and same: "code_order ! i = code_order ! j"
    then show "i = j"
      using tiles_disjoint [OF code_tiles, of i j] tiles_disjoint [OF code_tiles, of j i]
        code_hi_above [of "code_order ! i"] by (simp add: length_tables) (metis not_less_iff_gr_or_eq leD)
  qed
  then have "distinct code_order"
    by (auto simp: distinct_conv_nth length_tables inj_on_def)
  then have "card (set code_order) = card {..<257 :: nat}"
    using distinct_card [of code_order] by (simp add: length_tables)
  moreover have "set code_order \<subseteq> {..<257}"
    by (simp add: code_order_def)
  ultimately show ?thesis
    using card_subset_eq [of "{..<257 :: nat}" "set code_order"] by simp
qed

lemma code_prefix_bounds:
  assumes "s < 257" "t < 257" "prefix (code_bits s) (code_bits t)"
  shows "code_lo s \<le> code_lo t" "code_lo t < code_hi s"
proof -
  obtain n c m d where s: "code_at s = (n, c)" and t: "code_at t = (m, d)" by fastforce
  have "n \<le> m" using prefix_length_le [OF assms(3)] s t by (simp add: code_bits_eq)
  have "take n (bits m d) = bits n (d div 2 ^ (m - n))"
    using bits_split [of n "m - n" d] \<open>n \<le> m\<close> by simp
  moreover have "take n (bits m d) = bits n c"
    using assms(3) s t by (auto simp: code_bits_eq prefix_def)
  moreover have "d div 2 ^ (m - n) < 2 ^ n"
    using code_size(3) [OF assms(2)] t \<open>n \<le> m\<close> by (simp add: less_mult_imp_div_less flip: power_add)
  ultimately have c: "c = d div 2 ^ (m - n)"
    using bits_inject [of c n "d div 2 ^ (m - n)"] code_size(3) [OF assms(1)] s by simp
  have m: "m \<le> 30" using code_size(2) [OF assms(2)] t by simp
  have split: "2 ^ (30 - n) = (2 :: nat) ^ (m - n) * 2 ^ (30 - m)"
    using \<open>n \<le> m\<close> m by (simp flip: power_add)
  have "c * 2 ^ (m - n) \<le> d" "d < (c + 1) * 2 ^ (m - n)"
    unfolding c using dividend_less_times_div [of "2 ^ (m - n)" d] by (simp_all add: algebra_simps)
  then have "c * 2 ^ (m - n) * 2 ^ (30 - m) \<le> d * 2 ^ (30 - m)"
    "d * 2 ^ (30 - m) < (c + 1) * 2 ^ (m - n) * 2 ^ (30 - m)"
    by simp_all
  then show "code_lo s \<le> code_lo t" "code_lo t < code_hi s"
    by (simp_all add: code_lo_def code_hi_def s t split algebra_simps)
qed

lemma code_prefix_free:
  assumes "s < 257" "t < 257" "prefix (code_bits s) (code_bits t)"
  shows "s = t"
proof -
  obtain i j where i: "i < 257" "s = code_order ! i" and j: "j < 257" "t = code_order ! j"
    using assms(1,2) code_order_all by (metis in_set_conv_nth lessThan_iff length_tables(3))
  have "\<not> i < j" "\<not> j < i"
    using tiles_disjoint [OF code_tiles, of i j] tiles_disjoint [OF code_tiles, of j i]
      code_prefix_bounds [OF assms] code_hi_above [of t] i j by (auto simp: length_tables)
  then show ?thesis using i j by simp
qed

text \<open>A rest of the bits that begins no code word: an inner node of the code tree.\<close>

definition no_code :: "bool list \<Rightarrow> bool" where
  "no_code r \<longleftrightarrow> (\<forall>s < 257. \<not> prefix (code_bits s) r)"

lemma no_code_strict:
  assumes "t < 257" "strict_prefix r (code_bits t)"
  shows "no_code r"
  unfolding no_code_def
proof (intro allI impI notI)
  fix s
  assume "s < 257" "prefix (code_bits s) r"
  then have "prefix (code_bits s) (code_bits t)"
    using assms(2) by (meson prefix_order.order_trans strict_prefixE)
  then have "s = t" using code_prefix_free assms(1) \<open>s < 257\<close> by blast
  then show False
    using assms(2) \<open>prefix (code_bits s) r\<close> by (auto simp: strict_prefix_def prefix_def)
qed

definition huffman_bits :: "nat list \<Rightarrow> bool list" where
  "huffman_bits ss = concat (map code_bits ss)"

lemma huffman_bits_simps [simp]:
  "huffman_bits [] = []" "huffman_bits (s # ss) = code_bits s @ huffman_bits ss"
  "huffman_bits (xs @ ys) = huffman_bits xs @ huffman_bits ys"
  by (simp_all add: huffman_bits_def)

text \<open>Bits are cut into code words in one way only.\<close>

lemma huffman_cut:
  assumes "huffman_bits xs @ x = huffman_bits ys @ r" "no_code r"
    and "\<forall>s \<in> set xs. s < 257" "\<forall>s \<in> set ys. s < 257"
  shows "\<exists>zs. ys = xs @ zs \<and> x = huffman_bits zs @ r"
  using assms
proof (induction xs arbitrary: ys)
  case (Cons a xs)
  show ?case
  proof (cases ys)
    case Nil
    then have "prefix (code_bits a) r" using Cons.prems(1) by (auto simp: prefix_def)
    then show ?thesis using Cons.prems(2,3) by (simp add: no_code_def)
  next
    case (Cons b ys')
    have "code_bits b @ huffman_bits ys' @ r = code_bits a @ (huffman_bits xs @ x)"
      using Cons.prems(1) Cons by simp
    then have "prefix (code_bits a) (code_bits b @ huffman_bits ys' @ r)" by (metis prefixI)
    then have "prefix (code_bits a) (code_bits b) \<or> prefix (code_bits b) (code_bits a)"
      by (metis prefixI prefix_same_cases)
    then have "a = b"
      using code_prefix_free [of a b] code_prefix_free [of b a] Cons.prems Cons by auto
    then show ?thesis
      using Cons.IH [of ys'] Cons.prems Cons by auto
  qed
qed simp

lemma huffman_unique:
  assumes "huffman_bits xs @ x = huffman_bits ys @ r" "no_code x" "no_code r"
    and "\<forall>s \<in> set xs. s < 257" "\<forall>s \<in> set ys. s < 257"
  shows "xs = ys \<and> x = r"
proof -
  obtain zs where zs: "ys = xs @ zs" "x = huffman_bits zs @ r" using huffman_cut assms by blast
  have "zs = []"
    using zs assms(2,5) by (cases zs) (auto simp: no_code_def prefix_def)
  then show ?thesis using zs by simp
qed

lemma code_bits_EOS: "code_bits EOS = replicate 30 True"
  using bits_ones [of 30] by (simp add: code_bits_def EOS_def code_at_eqs del: bits.simps)

lemma no_code_ones:
  assumes "k < 30"
  shows "no_code (replicate k True)"
proof (rule no_code_strict)
  have "code_bits EOS = replicate k True @ replicate (30 - k) True"
    using assms by (simp add: code_bits_EOS flip: replicate_add)
  moreover have "replicate k True \<noteq> code_bits EOS" using assms by (simp add: code_bits_EOS)
  ultimately show "strict_prefix (replicate k True) (code_bits EOS)" by (auto simp: strict_prefix_def prefix_def)
qed (simp add: EOS_def)

subsection \<open>Steps of the decoder\<close>

lemma path_size:
  assumes "q < 256"
  shows "snd (path_at q) < 2 ^ fst (path_at q)" "fst (path_at q) = 0 \<longleftrightarrow> q = 0" "no_code (path_bits q)"
proof -
  obtain n v s where p: "state_paths ! q = (n, v, s)" by (metis prod_cases3)
  obtain m c where t: "code_at s = (m, c)" by fastforce
  have facts: "s < 257" "v < 2 ^ n" "n = 0 \<longleftrightarrow> q = 0" "n < m" "c div 2 ^ (m - n) = v"
    using state_sizes assms p t by (auto simp: all_from_iff length_tables dest!: spec [of _ q])
  then show "snd (path_at q) < 2 ^ fst (path_at q)" "fst (path_at q) = 0 \<longleftrightarrow> q = 0"
    by (simp_all add: path_at_def p)
  have "bits m c = bits n v @ bits (m - n) (c mod 2 ^ (m - n))"
    using bits_split [of n "m - n" c] facts by simp
  then have "strict_prefix (path_bits q) (code_bits s)"
    using facts(4) by (auto simp: path_bits_def path_at_def p code_bits_def t strict_prefix_def prefix_def)
      (metis length_bits less_irrefl)
  then show "no_code (path_bits q)" using no_code_strict facts(1) by blast
qed

lemma path_bits_Nil: "q < 256 \<Longrightarrow> path_bits q = [] \<longleftrightarrow> q = 0"
  using path_size(2) [of q] by (auto simp: path_bits_def split: prod.splits dest: arg_cong [of _ _ length])

lemma path_bits_ones:
  assumes "q < 256"
  shows "(\<exists>j. 0 < j \<and> j < 8 \<and> path_bits q = replicate j True)
    \<longleftrightarrow> 0 < fst (path_at q) \<and> fst (path_at q) < 8 \<and> snd (path_at q) = 2 ^ fst (path_at q) - 1"
proof -
  obtain k w where p: "path_at q = (k, w)" by fastforce
  have "path_bits q = replicate k True \<longleftrightarrow> w = 2 ^ k - 1"
    using bits_inject [of w k "2 ^ k - 1"] bits_ones [of k] path_size(1) [OF assms] p by (simp add: path_bits_def)
  moreover have "path_bits q = replicate j True \<Longrightarrow> j = k" for j
    by (metis length_bits length_replicate p path_bits_def prod.case)
  ultimately show ?thesis using p by auto
qed

text \<open>
  What the table says of a state and a half byte, in terms of the bits seen: the end marker is
  complete, or a symbol is, or none.
\<close>

definition entry_meaning :: "nat \<Rightarrow> nat \<Rightarrow> nat \<times> u8 \<times> u8 \<Rightarrow> bool" where
  "entry_meaning q d e \<longleftrightarrow>
     (case e of (q', s, flags) \<Rightarrow>
        if flags AND FLAG_ERR = FLAG_ERR then \<exists>z. path_bits q @ bits 4 d = code_bits EOS @ z
        else q' < 256
          \<and> path_bits q @ bits 4 d
            = (if flags AND FLAG_SYM = FLAG_SYM then code_bits (unat s) else []) @ path_bits q'
          \<and> (flags AND FLAG_END = FLAG_END \<longleftrightarrow> (\<exists>k. 0 < k \<and> k < 8 \<and> path_bits q' = replicate k True)))"

lemma entry_ok_meaning:
  assumes "entry_ok (path_at q) d (q', s, flags)" "q < 256" "d < 16"
  shows "entry_meaning q d (q', s, flags)"
proof -
  obtain n v where p: "path_at q = (n, v)" by fastforce
  obtain k w where p': "path_at q' = (k, w)" by fastforce
  have here: "path_bits q @ bits 4 d = bits (n + 4) (16 * v + d)"
    using bits_append [of d 4 n v] assms(3) by (simp add: path_bits_def p mult.commute del: bits.simps)
  show ?thesis
  proof (cases "flags AND FLAG_ERR = FLAG_ERR")
    case True
    then have "30 \<le> n + 4" "(16 * v + d) div 2 ^ (n + 4 - 30) = 2 ^ 30 - 1"
      using assms(1) p by (simp_all add: entry_ok_def)
    then have "bits (n + 4) (16 * v + d) = code_bits EOS @ bits (n + 4 - 30) ((16 * v + d) mod 2 ^ (n + 4 - 30))"
      using bits_split [of 30 "n + 4 - 30" "16 * v + d"] bits_ones [of 30]
      by (simp add: code_bits_EOS add.commute [of n] del: bits.simps)
    then show ?thesis using True here by (auto simp: entry_meaning_def)
  next
    case False
    then have q': "q' < 256" using assms(1) p by (simp add: entry_ok_def)
    have w: "w < 2 ^ k" using path_size(1) [OF q'] p' by simp
    obtain m c where code: "code_at (unat s) = (m, c)" by fastforce
    have "bits (n + 4) (16 * v + d)
        = (if flags AND FLAG_SYM = FLAG_SYM then code_bits (unat s) else []) @ path_bits q'"
      using assms(1) False p p' code bits_append [OF w, of m c]
      by (auto simp: entry_ok_def path_bits_def code_bits_def)
    moreover have "flags AND FLAG_END = FLAG_END \<longleftrightarrow> 0 < k \<and> k < 8 \<and> w = 2 ^ k - 1"
      using assms(1) False p p' by (simp add: entry_ok_def)
    ultimately show ?thesis
      using False q' here path_bits_ones [OF q'] p' by (simp add: entry_meaning_def)
  qed
qed

lemma decode_entry:
  assumes "q < 256" "d < 16"
  shows "\<exists>e. Option.bind (slice_at DECODE_TABLE q) (\<lambda>row. slice_at row d) = Some e \<and> entry_meaning q d e"
proof -
  have row: "row_ok q (DECODE_TABLE ! q)"
    using decode_table_ok assms(1) by (simp add: all_from_iff)
  then have "entry_ok (path_at q) d (DECODE_TABLE ! q ! d)"
    using assms(2) by (auto simp: row_ok_def all_from_iff)
  then have "entry_meaning q d (DECODE_TABLE ! q ! d)"
    using entry_ok_meaning [OF _ assms] by (cases "DECODE_TABLE ! q ! d") simp
  then show ?thesis
    using row assms decode_table_ok(2) by (simp add: slice_at_def row_ok_def)
qed

end
