(* ===== verification/Huffman.thy ===== *)
theory Huffman
  imports Huffman_Code Octets
begin

text \<open>
  Huffman coding of byte strings on the cursor of \<open>engine/quiche/octets/src/lib.rs\<close>:
  \<open>get_huffman_decoded\<close>, \<open>put_huffman_encoded\<close> and \<open>huffman_encoding_len\<close>.  The decoder accepts exactly
  the encodings padded with less than a byte of ones; the encoder, which collects bits in a
  64-bit word, writes such an encoding.
\<close>

subsection \<open>Decoding\<close>

type_synonym decode_state = "nat \<times> bool \<times> bytes"

definition decode_nibble :: "nat \<Rightarrow> nat \<Rightarrow> decode_state \<Rightarrow> decode_state octets_result" where
  "decode_nibble max_len data st =
     (case st of (state, eos, out) \<Rightarrow>
        case Option.bind (slice_at DECODE_TABLE state) (\<lambda>row. slice_at row data) of
          None \<Rightarrow> Inl Panic
        | Some (next_state, s, flags) \<Rightarrow>
            if flags AND FLAG_ERR = FLAG_ERR then Inl (Error BufferTooShortError)
            else
              outcome_bind
                (if flags AND FLAG_SYM = FLAG_SYM
                 then (if max_len < length out + 1 then Inl (Error BufferTooShortError) else Inr (out @ [s]))
                 else Inr out)
                (\<lambda>out. Inr (next_state, flags AND FLAG_END = FLAG_END, out)))"

function huffman_decode_loop :: "nat \<Rightarrow> decode_state \<Rightarrow> octets \<Rightarrow> (decode_state \<times> octets) octets_result" where
  "huffman_decode_loop max_len st b =
     (case get_u8 b of
        Inl Panic \<Rightarrow> Inl Panic
      | Inl (Error _) \<Rightarrow> Inr (st, b)
      | Inr (byte, b') \<Rightarrow>
          outcome_bind (decode_nibble max_len (unat (drop_bit 4 byte)) st) (\<lambda>st.
          outcome_bind (decode_nibble max_len (unat (byte AND 0xf)) st) (\<lambda>st.
            huffman_decode_loop max_len st b')))"
  by pat_completeness auto
termination
  by (relation "measure (\<lambda>(_, _, b). o_cap b)") (auto dest: get_u8_advances)

declare huffman_decode_loop.simps [simp del]

definition get_huffman_decoded_with_max_length :: "nat \<Rightarrow> octets \<Rightarrow> (bytes \<times> octets) octets_result" where
  "get_huffman_decoded_with_max_length max_len b =
     outcome_bind (huffman_decode_loop max_len (0, False, []) b) (\<lambda>((state, eos, out), b).
       if state \<noteq> 0 \<and> \<not> eos then Inl (Error BufferTooShortError) else Inr (out, b))"

definition get_huffman_decoded :: "octets \<Rightarrow> (bytes \<times> octets) octets_result" where
  "get_huffman_decoded b = get_huffman_decoded_with_max_length (2 ^ 64 - 1) b"

subsection \<open>Encoding\<close>

definition byte_lower :: "u8 \<Rightarrow> u8" where
  "byte_lower b = (if 65 \<le> b \<and> b \<le> 90 then b + 32 else b)"

definition put_u32 :: "u32 \<Rightarrow> octets \<Rightarrow> octets octets_result" where
  "put_u32 = put_u 4"

definition put_u64 :: "u64 \<Rightarrow> octets \<Rightarrow> octets octets_result" where
  "put_u64 = put_u 8"

text \<open>The loop over the bytes: bits not yet written are the first \<open>pending\<close> ones of the word.\<close>

fun huffman_encode_loop ::
  "bool \<Rightarrow> bytes \<Rightarrow> u64 \<Rightarrow> nat \<Rightarrow> octets \<Rightarrow> (u64 \<times> nat \<times> octets) octets_result" where
  "huffman_encode_loop lower_case [] acc pending b = Inr (acc, pending, b)"
| "huffman_encode_loop lower_case (c # v) acc pending b =
     (let c = (if lower_case then byte_lower c else c)
      in case slice_at ENCODE_TABLE (unat c) of
           None \<Rightarrow> Inl Panic
         | Some (nbits, code) \<Rightarrow>
             let pending = pending + nbits
             in if pending < 64
                then huffman_encode_loop lower_case v (acc OR push_bit (64 - pending) code) pending b
                else
                  let pending = pending - 64
                  in outcome_bind (put_u64 (acc OR drop_bit pending code) b) (\<lambda>b.
                       huffman_encode_loop lower_case v
                         (if pending = 0 then 0 else push_bit (64 - pending) code) pending b))"

fun huffman_put_tail :: "u64 \<Rightarrow> nat \<Rightarrow> octets \<Rightarrow> octets octets_result" where
  "huffman_put_tail acc pending b =
     (if 0 < pending
      then (let pending = pending - 8
            in outcome_bind (put_u8 (ucast (drop_bit pending acc)) b) (huffman_put_tail acc pending))
      else Inr b)"

definition put_huffman_encoded :: "bool \<Rightarrow> bytes \<Rightarrow> octets \<Rightarrow> octets octets_result" where
  "put_huffman_encoded lower_case v b =
     outcome_bind (huffman_encode_loop lower_case v 0 0 b) (\<lambda>(acc, pending, b).
       if pending = 0 then Inr b
       else
         let acc = acc OR drop_bit pending (- 1);
             pending = (pending + 7) div 8 * 8;
             acc = drop_bit (64 - pending) acc
         in outcome_bind
              (if 32 \<le> pending
               then outcome_bind (put_u32 (ucast (drop_bit (pending - 32) acc)) b) (\<lambda>b. Inr (pending - 32, b))
               else Inr (pending, b))
              (\<lambda>(pending, b). huffman_put_tail acc pending b))"

fun huffman_bit_count :: "bool \<Rightarrow> bytes \<Rightarrow> nat \<Rightarrow> nat option" where
  "huffman_bit_count lower_case [] n = Some n"
| "huffman_bit_count lower_case (c # v) n =
     Option.bind (slice_at ENCODE_TABLE (unat (if lower_case then byte_lower c else c)))
       (\<lambda>(nbits, _). huffman_bit_count lower_case v (n + nbits))"

definition huffman_encoding_len :: "bool \<Rightarrow> bytes \<Rightarrow> nat octets_result" where
  "huffman_encoding_len lower_case src =
     (case huffman_bit_count lower_case src 0 of
        None \<Rightarrow> Inl Panic
      | Some n \<Rightarrow>
          let len = n div 8; len = (if n AND 7 \<noteq> 0 then len + 1 else len)
          in if length src < len then Inl (Error BufferTooShortError) else Inr len)"

subsection \<open>The decoder reads code words\<close>

definition byte_bits :: "u8 \<Rightarrow> bool list" where
  "byte_bits b = bits 8 (unat b)"

definition bytes_bits :: "bytes \<Rightarrow> bool list" where
  "bytes_bits bs = concat (map byte_bits bs)"

lemma byte_bits_nibbles: "byte_bits b = bits 4 (unat (drop_bit 4 b)) @ bits 4 (unat (b AND 0xf))"
  and nibble_less: "unat (drop_bit 4 b) < 16" "unat (b AND 0xf) < 16"
proof -
  have hi: "unat (drop_bit 4 b) = unat b div 16" 
    using unat_drop_bit_eq [of 4 b] by (simp add: drop_bit_eq_div unat_div)
  have "unat b AND 15 = unat b mod 16"
    using take_bit_eq_mask [of 4 "unat b"] by (simp add: take_bit_eq_mod mask_eq_exp_minus_1)
  then have lo: "unat (b AND 0xf) = unat b mod 16" by (simp add: unsigned_and_eq)
  show "unat (drop_bit 4 b) < 16" "unat (b AND 0xf) < 16"
    unfolding hi lo using less_mult_imp_div_less [of "unat b" 16 16] unat_byte_less [of b] by simp_all
  show "byte_bits b = bits 4 (unat (drop_bit 4 b)) @ bits 4 (unat (b AND 0xf))"
    unfolding hi lo byte_bits_def using bits_split [of 4 4 "unat b"] by (simp del: bits.simps)
qed

text \<open>Symbols as numbers; all are below the end marker.\<close>

definition symbol_bits :: "bytes \<Rightarrow> bool list" where
  "symbol_bits out = huffman_bits (map unat out)"

lemma symbols_small: "\<forall>s \<in> set (map unat (out :: bytes)). s < 257"
  using unat_byte_less by (auto intro: less_trans)

lemma symbols_not_EOS: "EOS \<notin> set (map unat (out :: bytes))"
  by (metis EOS_def imageE less_irrefl set_map unat_byte_less)

text \<open>The state of the decoder after some bits: the symbols read and the node reached.\<close>

fun decode_inv :: "bool list \<Rightarrow> decode_state \<Rightarrow> bool" where
  "decode_inv seen (state, eos, out) \<longleftrightarrow>
     state < 256 \<and> seen = symbol_bits out @ path_bits state
     \<and> (state \<noteq> 0 \<longrightarrow> (eos \<longleftrightarrow> (\<exists>k. 0 < k \<and> k < 8 \<and> path_bits state = replicate k True)))"

text \<open>Bits that no encoding, padded by less than a byte and not longer than allowed, begins with.\<close>

definition no_encoding :: "nat \<Rightarrow> bool list \<Rightarrow> bool" where
  "no_encoding max_len seen \<longleftrightarrow>
     (\<forall>out k rest. k < 8 \<and> length out \<le> max_len \<longrightarrow> seen @ rest \<noteq> symbol_bits out @ replicate k True)"

lemma too_long_no_encoding:
  assumes "seen = symbol_bits out @ code_bits s @ z" "s < 257" "s = EOS \<or> max_len < length out + 1"
  shows "no_encoding max_len seen"
  unfolding no_encoding_def
proof (intro allI impI notI)
  fix out' k rest
  assume k: "k < 8 \<and> length out' \<le> max_len" and "seen @ rest = symbol_bits out' @ replicate k True"
  then have "huffman_bits (map unat out @ [s]) @ (z @ rest) = huffman_bits (map unat out') @ replicate k True"
    using assms(1) by (simp add: symbol_bits_def)
  moreover have "no_code (replicate k True)" using k by (intro no_code_ones) simp
  moreover have "\<forall>t \<in> set (map unat out @ [s]). t < 257" using symbols_small [of out] assms(2) by simp
  ultimately obtain zs where zs: "map unat out' = (map unat out @ [s]) @ zs"
    using huffman_cut symbols_small [of out'] by blast
  have "s \<in> set (map unat out')" unfolding zs by simp
  moreover have "length out + 1 \<le> length out'" using arg_cong [OF zs, of length] by simp
  ultimately show False using assms(3) k symbols_not_EOS [of out'] by auto
qed

lemma decode_nibble_step:
  assumes "decode_inv seen st" "d < 16"
  shows "(\<exists>st'. decode_nibble max_len d st = Inr st' \<and> decode_inv (seen @ bits 4 d) st'
            \<and> (length (snd (snd st)) \<le> max_len \<longrightarrow> length (snd (snd st')) \<le> max_len))
         \<or> (decode_nibble max_len d st = Inl (Error BufferTooShortError) \<and> no_encoding max_len (seen @ bits 4 d))"
proof -
  obtain q eos out where st: "st = (q, eos, out)" by (metis prod_cases3)
  have q: "q < 256" "seen = symbol_bits out @ path_bits q" using assms(1) st by auto
  obtain q' s flags where e: "Option.bind (slice_at DECODE_TABLE q) (\<lambda>row. slice_at row d) = Some (q', s, flags)"
    and m: "entry_meaning q d (q', s, flags)"
    using decode_entry [OF q(1) assms(2)] by (metis prod_cases3)
  have step: "decode_nibble max_len d st =
      (if flags AND FLAG_ERR = FLAG_ERR then Inl (Error BufferTooShortError)
       else if flags AND FLAG_SYM = FLAG_SYM \<and> max_len < length out + 1 then Inl (Error BufferTooShortError)
       else Inr (q', flags AND FLAG_END = FLAG_END, if flags AND FLAG_SYM = FLAG_SYM then out @ [s] else out))"
    by (simp add: decode_nibble_def st e del: option_bind_Some_iff)
  show ?thesis
  proof (cases "flags AND FLAG_ERR = FLAG_ERR")
    case True
    then obtain z where "path_bits q @ bits 4 d = code_bits EOS @ z" using m by (auto simp: entry_meaning_def)
    then have "seen @ bits 4 d = symbol_bits out @ code_bits EOS @ z" using q(2) by simp
    then have "no_encoding max_len (seen @ bits 4 d)"
      by (rule too_long_no_encoding) (simp_all add: EOS_def)
    then show ?thesis using step True by simp
  next
    case noerr: False
    show ?thesis
    proof (cases "flags AND FLAG_SYM = FLAG_SYM \<and> max_len < length out + 1")
      case True
      then have "seen @ bits 4 d = symbol_bits out @ code_bits (unat s) @ path_bits q'"
        using q(2) m noerr by (simp add: entry_meaning_def)
      then have "no_encoding max_len (seen @ bits 4 d)"
        by (rule too_long_no_encoding) (use True less_trans [OF unat_byte_less [of s], of 257] in auto)
      then show ?thesis using step True noerr by simp
    next
      case False
      let ?out = "if flags AND FLAG_SYM = FLAG_SYM then out @ [s] else out"
      have "decode_nibble max_len d st = Inr (q', flags AND FLAG_END = FLAG_END, ?out)"
        using step False noerr by simp
      moreover have "decode_inv (seen @ bits 4 d) (q', flags AND FLAG_END = FLAG_END, ?out)"
        using q(2) m noerr by (auto simp: entry_meaning_def symbol_bits_def)
      ultimately show ?thesis using st False by auto
    qed
  qed
qed

lemma no_encoding_append: "no_encoding max_len seen \<Longrightarrow> no_encoding max_len (seen @ x)"
  by (simp add: no_encoding_def)

lemma bytes_bits_simps [simp]:
  "bytes_bits [] = []" "bytes_bits (b # bs) = byte_bits b @ bytes_bits bs"
  "bytes_bits (xs @ ys) = bytes_bits xs @ bytes_bits ys"
  by (simp_all add: bytes_bits_def)

definition within_len :: "nat \<Rightarrow> decode_state \<Rightarrow> bool" where
  "within_len max_len st \<longleftrightarrow> length (snd (snd st)) \<le> max_len"

lemma decode_byte_step:
  assumes "decode_inv seen st" "within_len max_len st"
  shows "(\<exists>st1 st'. decode_nibble max_len (unat (drop_bit 4 byte)) st = Inr st1
            \<and> decode_nibble max_len (unat (byte AND 0xf)) st1 = Inr st'
            \<and> decode_inv (seen @ byte_bits byte) st' \<and> within_len max_len st')
         \<or> (outcome_bind (decode_nibble max_len (unat (drop_bit 4 byte)) st) (decode_nibble max_len (unat (byte AND 0xf)))
              = Inl (Error BufferTooShortError)
            \<and> no_encoding max_len (seen @ byte_bits byte))"
proof -
  let ?hi = "unat (drop_bit 4 byte)" and ?lo = "unat (byte AND 0xf)"
  have split: "seen @ byte_bits byte = (seen @ bits 4 ?hi) @ bits 4 ?lo" by (simp add: byte_bits_nibbles del: bits.simps)
  show ?thesis
    using decode_nibble_step [OF assms(1) nibble_less(1) [of byte], of max_len]
  proof (elim disjE exE conjE)
    fix st1
    assume one: "decode_nibble max_len ?hi st = Inr st1" and inv: "decode_inv (seen @ bits 4 ?hi) st1"
      and len: "length (snd (snd st)) \<le> max_len \<longrightarrow> length (snd (snd st1)) \<le> max_len"
    show ?thesis
      using decode_nibble_step [OF inv nibble_less(2) [of byte], of max_len] one len assms(2)
      unfolding split by (auto simp: within_len_def)
  next
    assume fail: "decode_nibble max_len ?hi st = Inl (Error BufferTooShortError)"
      and none: "no_encoding max_len (seen @ bits 4 ?hi)"
    have "no_encoding max_len (seen @ byte_bits byte)" unfolding split by (rule no_encoding_append [OF none])
    then show ?thesis using fail by simp
  qed
qed

lemma huffman_decode_loop_spec:
  assumes "decode_inv seen st" "within_len max_len st"
  shows "(\<exists>st'. huffman_decode_loop max_len st b = Inr (st', octets_skip (o_cap b) b)
            \<and> decode_inv (seen @ bytes_bits (o_rest b)) st' \<and> within_len max_len st')
         \<or> (huffman_decode_loop max_len st b = Inl (Error BufferTooShortError)
            \<and> no_encoding max_len (seen @ bytes_bits (o_rest b)))"
  using assms
proof (induction "o_rest b" arbitrary: b seen st)
  case Nil
  then have "get_u8 b = Inl (Error BufferTooShortError)"
    by (simp add: get_u8_def get_u_def peek_u_def)
  moreover have "o_cap b = 0" using Nil.hyps by (simp add: o_cap_rest)
  ultimately show ?case using Nil by (simp add: huffman_decode_loop.simps)
next
  case (Cons byte r)
  have get: "get_u8 b = Inr (byte, octets_skip 1 b)" using get_u8_Cons Cons.hyps(2) by metis
  have rest: "r = o_rest (octets_skip 1 b)" by (simp flip: Cons.hyps(2))
  have cap: "octets_skip (o_cap (octets_skip 1 b)) (octets_skip 1 b) = octets_skip (o_cap b) b"
    using Cons.hyps(2) [symmetric] by (simp add: o_cap_rest flip: rest)
  have here: "seen @ bytes_bits (o_rest b) = (seen @ byte_bits byte) @ bytes_bits (o_rest (octets_skip 1 b))"
    by (simp flip: Cons.hyps(2))
  show ?case
    using decode_byte_step [OF Cons.prems, of byte]
  proof (elim disjE exE conjE)
    fix st1 st'
    assume one: "decode_nibble max_len (unat (drop_bit 4 byte)) st = Inr st1"
      "decode_nibble max_len (unat (byte AND 0xf)) st1 = Inr st'"
      and inv: "decode_inv (seen @ byte_bits byte) st'" "within_len max_len st'"
    have "huffman_decode_loop max_len st b = huffman_decode_loop max_len st' (octets_skip 1 b)"
      using get one by (subst huffman_decode_loop.simps) simp
    then show ?thesis
      using Cons.hyps(1) [OF rest inv] unfolding here cap by simp
  next
    assume fail: "outcome_bind (decode_nibble max_len (unat (drop_bit 4 byte)) st)
        (decode_nibble max_len (unat (byte AND 0xf))) = Inl (Error BufferTooShortError)"
      and none: "no_encoding max_len (seen @ byte_bits byte)"
    have "huffman_decode_loop max_len st b = Inl (Error BufferTooShortError)"
      using get fail by (subst huffman_decode_loop.simps)
        (cases "decode_nibble max_len (unat (drop_bit 4 byte)) st"; simp)
    then show ?thesis using no_encoding_append [OF none] unfolding here by simp
  qed
qed

text \<open>The decoder accepts exactly the padded encodings, and reads the whole buffer.\<close>

lemma path_bits_0: "path_bits 0 = []"
  using path_bits_Nil [of 0] by simp

lemma huffman_decode_iff:
  "get_huffman_decoded_with_max_length max_len b = Inr (out, b') \<longleftrightarrow>
     b' = octets_skip (o_cap b) b \<and> length out \<le> max_len
     \<and> (\<exists>k < 8. bytes_bits (o_rest b) = symbol_bits out @ replicate k True)"
proof -
  let ?all = "bytes_bits (o_rest b)"
  have start: "decode_inv [] (0, False, [])" "within_len max_len (0, False, [])"
    by (simp_all add: path_bits_0 symbol_bits_def within_len_def)
  show ?thesis
    using huffman_decode_loop_spec [OF start, of b]
  proof (elim disjE exE conjE)
    fix st'
    assume loop: "huffman_decode_loop max_len (0, False, []) b = Inr (st', octets_skip (o_cap b) b)"
      and inv: "decode_inv ([] @ ?all) st'" and len: "within_len max_len st'"
    obtain q eos got where st: "st' = (q, eos, got)" by (metis prod_cases3)
    have q: "q < 256" "?all = symbol_bits got @ path_bits q"
      "q \<noteq> 0 \<longrightarrow> (eos \<longleftrightarrow> (\<exists>k. 0 < k \<and> k < 8 \<and> path_bits q = replicate k True))"
      using inv st by auto
    have run: "get_huffman_decoded_with_max_length max_len b
        = (if q \<noteq> 0 \<and> \<not> eos then Inl (Error BufferTooShortError) else Inr (got, octets_skip (o_cap b) b))"
      using loop st by (simp add: get_huffman_decoded_with_max_length_def)
    have pad: "(\<exists>k < 8. path_bits q = replicate k True) \<longleftrightarrow> q = 0 \<or> eos"
      using q(3) path_bits_Nil [OF q(1)] by (metis gr0I replicate_0 zero_less_numeral)
    have unique: "got = out \<and> path_bits q = replicate k True"
      if "k < 8" "?all = symbol_bits out @ replicate k True" for k
    proof -
      have "map unat got = map unat out \<and> path_bits q = replicate k True"
        using huffman_unique [of "map unat got" "path_bits q" "map unat out" "replicate k True"]
          path_size(3) [OF q(1)] no_code_ones [of k] symbols_small that q(2) by (simp add: symbol_bits_def)
      then show ?thesis using map_injective [of unat got out] by (simp add: inj_def word_unat_eq_iff)
    qed
    show ?thesis
      using run pad unique q(2) len st by (auto simp: within_len_def)
  next
    assume "huffman_decode_loop max_len (0, False, []) b = Inl (Error BufferTooShortError)"
      and none: "no_encoding max_len ([] @ ?all)"
    then show ?thesis
      using none [unfolded no_encoding_def, rule_format, of _ out "[]"]
      by (auto simp: get_huffman_decoded_with_max_length_def)
  qed
qed

subsection \<open>The encoder writes code words\<close>

lemma bits_mod: "bits n (v mod 2 ^ n) = bits n v"
  using bits_split [of 0 n v] by simp

lemma bytes_bits_be_bytes: "bytes_bits (be_bytes k w) = bits (8 * k) w"
proof (induction k arbitrary: w)
  case (Suc k)
  have "byte_bits (of_nat (w div 256 ^ k)) = bits 8 (w div 256 ^ k)"
    using bits_mod [of 8 "w div 256 ^ k"] by (simp add: byte_bits_def del: bits.simps)
  then have "bytes_bits (be_bytes (Suc k) w) = bits 8 (w div 2 ^ (8 * k)) @ bits (8 * k) w"
    using Suc by (simp add: power_mult del: bits.simps)
  also have "\<dots> = bits (8 + 8 * k) w"
    using bits_split [of 8 "8 * k" w] bits_mod [of "8 * k" w] by (simp del: bits.simps)
  finally show ?case by (simp del: bits.simps be_bytes.simps)
qed simp

lemma be_bytes_split: "be_bytes (j + k) w = be_bytes j (w div 256 ^ k) @ be_bytes k w"
  by (induction j) (simp_all add: div_mult2_eq [symmetric] power_add mult.commute)

lemma or_disjoint: "x < 2 ^ k \<Longrightarrow> a * 2 ^ k OR x = a * 2 ^ k + (x :: nat)"
proof -
  assume "x < 2 ^ k"
  then have "take_bit k x = x" by (simp add: take_bit_nat_eq_self)
  then have "bit x n \<Longrightarrow> n < k" for n by (metis bit_take_bit_iff)
  then have "\<not> bit (push_bit k a) n \<or> \<not> bit x n" for n
    using bit_push_bit_iff_nat [of k a n] by fastforce
  then have "push_bit k a + x = push_bit k a OR x" by (rule disjunctive_add)
  then show ?thesis by (simp add: push_bit_eq_mult)
qed

text \<open>The word holds the number \<open>p\<close> in its first \<open>pending\<close> bits and zeros after.\<close>

definition acc_holds :: "u64 \<Rightarrow> nat \<Rightarrow> nat \<Rightarrow> bool" where
  "acc_holds acc pending p \<longleftrightarrow> pending < 64 \<and> p < 2 ^ pending \<and> unat acc = p * 2 ^ (64 - pending)"

lemma acc_holds_0: "acc_holds 0 0 0"
  by (simp add: acc_holds_def)

lemma acc_room:
  assumes "acc_holds acc pending p" "unat code < 2 ^ n" "pending + n < 64"
  shows "acc_holds (acc OR push_bit (64 - (pending + n)) code) (pending + n) (p * 2 ^ n + unat code)"
proof -
  let ?m = "64 - (pending + n)"
  have split: "(2 :: nat) ^ (64 - pending) = 2 ^ n * 2 ^ ?m" using assms(3) by (simp flip: power_add)
  have small: "unat code * 2 ^ ?m < 2 ^ (64 - pending)"
    unfolding split using assms(2) by simp
  also have "\<dots> \<le> (2 :: nat) ^ 64" by (intro power_increasing) simp_all
  finally have "unat (push_bit ?m code) = unat code * 2 ^ ?m"
    by (subst unsigned_push_bit_eq) (simp add: push_bit_eq_mult take_bit_eq_mod)
  then have "unat (acc OR push_bit ?m code) = p * 2 ^ (64 - pending) + unat code * 2 ^ ?m"
    using assms(1) or_disjoint [OF small, of p] by (simp add: acc_holds_def unsigned_or_eq)
  moreover have "p * 2 ^ n + unat code < 2 ^ (pending + n)"
  proof -
    have "p * 2 ^ n + unat code < (p + 1) * 2 ^ n" using assms(2) by (simp add: algebra_simps)
    also have "\<dots> \<le> 2 ^ pending * 2 ^ n" using assms(1) by (intro mult_right_mono) (auto simp: acc_holds_def)
    finally show ?thesis by (simp add: power_add)
  qed
  ultimately show ?thesis
    using assms(3) by (simp add: acc_holds_def split algebra_simps)
qed

lemma acc_full:
  assumes "acc_holds acc pending p" "unat code < 2 ^ n" "n \<le> 30" "\<not> pending + n < 64"
  defines "left \<equiv> pending + n - 64"
  shows "unat (acc OR drop_bit left code) = p * 2 ^ (64 - pending) + unat code div 2 ^ left"
    and "acc_holds (if left = 0 then 0 else push_bit (64 - left) code) left (unat code mod 2 ^ left)"
    and "bits pending p @ bits n (unat code)
         = bits 64 (p * 2 ^ (64 - pending) + unat code div 2 ^ left) @ bits left (unat code mod 2 ^ left)"
proof -
  have pending: "pending < 64" "p < 2 ^ pending" "unat acc = p * 2 ^ (64 - pending)"
    using assms(1) by (auto simp: acc_holds_def)
  have n: "n = (64 - pending) + left" and left: "left < 64"
    using pending(1) assms(3,4) by (simp_all add: left_def)
  have small: "unat code div 2 ^ left < 2 ^ (64 - pending)"
    using assms(2) by (simp add: n power_add less_mult_imp_div_less)
  have "unat (drop_bit left code) = unat code div 2 ^ left"
    by (subst unat_drop_bit_eq) (simp add: drop_bit_eq_div)
  then show "unat (acc OR drop_bit left code) = p * 2 ^ (64 - pending) + unat code div 2 ^ left"
    using or_disjoint [OF small, of p] pending(3) by (simp add: unsigned_or_eq)
  have "(2 :: nat) ^ 64 = 2 ^ left * 2 ^ (64 - left)" using left by (simp flip: power_add)
  then have "unat (push_bit (64 - left) code) = unat code mod 2 ^ left * 2 ^ (64 - left)"
    by (subst unsigned_push_bit_eq) (simp add: push_bit_eq_mult take_bit_eq_mod mult_mod_left)
  then show "acc_holds (if left = 0 then 0 else push_bit (64 - left) code) left (unat code mod 2 ^ left)"
    using left by (simp add: acc_holds_def)
  have "bits n (unat code) = bits (64 - pending) (unat code div 2 ^ left) @ bits left (unat code mod 2 ^ left)"
    using bits_split [of "64 - pending" left "unat code"] n by simp
  then show "bits pending p @ bits n (unat code)
         = bits 64 (p * 2 ^ (64 - pending) + unat code div 2 ^ left) @ bits left (unat code mod 2 ^ left)"
    using bits_append [OF small, of pending p] pending(1) by simp
qed

definition huffman_symbol :: "bool \<Rightarrow> u8 \<Rightarrow> u8" where
  "huffman_symbol lower_case c = (if lower_case then byte_lower c else c)"

lemma encode_entry:
  obtains n code where "slice_at ENCODE_TABLE (unat (c :: u8)) = Some (n, code)" "n \<le> 30" "unat code < 2 ^ n"
    "code_bits (unat c) = bits n (unat code)"
proof -
  obtain n code where e: "ENCODE_TABLE ! unat c = (n, code)" by fastforce
  have c: "unat c < 257" using unat_byte_less [of c] by (rule less_trans) simp
  then have "slice_at ENCODE_TABLE (unat c) = Some (n, code)" by (simp add: slice_at_def length_tables e)
  moreover have "code_at (unat c) = (n, unat code)" by (simp add: code_at_def e)
  ultimately show ?thesis using that code_size [OF c] by (simp add: code_bits_def)
qed

lemma symbol_bits_simps [simp]:
  "symbol_bits [] = []" "symbol_bits (c # v) = code_bits (unat c) @ symbol_bits v"
  by (simp_all add: symbol_bits_def)

text \<open>A run of the loop writes fixed bytes and leaves a fixed word.\<close>

definition leaves ::
  "(octets \<Rightarrow> (u64 \<times> nat \<times> octets) octets_result) \<Rightarrow> bytes \<Rightarrow> u64 \<Rightarrow> nat \<Rightarrow> bool" where
  "leaves p w acc pending \<longleftrightarrow>
     (\<forall>b. octets_wf b \<longrightarrow>
        p b = (if length w \<le> o_cap b then Inr (acc, pending, octets_write w b)
               else Inl (Error BufferTooShortError)))"

lemma leaves_bind:
  assumes "puts BufferTooShortError p u" and "leaves q w acc pending"
  shows "leaves (\<lambda>b. outcome_bind (p b) q) (u @ w) acc pending"
  unfolding leaves_def
proof (intro allI impI)
  fix b
  assume wf: "octets_wf b"
  show "outcome_bind (p b) q = (if length (u @ w) \<le> o_cap b then Inr (acc, pending, octets_write (u @ w) b)
      else Inl (Error BufferTooShortError))"
  proof (cases "length u \<le> o_cap b")
    case True
    then show ?thesis
      using assms wf octets_write_wf [OF wf True] octets_write_append [OF wf, of u w]
      by (auto simp: puts_def leaves_def)
  next
    case False
    then show ?thesis using assms wf by (simp add: puts_def leaves_def)
  qed
qed

lemma huffman_encode_loop_spec:
  assumes "acc_holds acc pending p"
  shows "\<exists>w acc' pending' p'. acc_holds acc' pending' p'
           \<and> leaves (huffman_encode_loop lower_case v acc pending) w acc' pending'
           \<and> bits pending p @ symbol_bits (map (huffman_symbol lower_case) v) = bytes_bits w @ bits pending' p'"
  using assms
proof (induction v arbitrary: acc pending p)
  case Nil
  have "leaves (huffman_encode_loop lower_case [] acc pending) [] acc pending"
    by (simp add: leaves_def octets_write_Nil)
  then show ?case using Nil by fastforce
next
  case (Cons c v)
  let ?c = "huffman_symbol lower_case c"
  obtain n code where e: "slice_at ENCODE_TABLE (unat ?c) = Some (n, code)" "n \<le> 30" "unat code < 2 ^ n"
    "code_bits (unat ?c) = bits n (unat code)" by (rule encode_entry)
  show ?case
  proof (cases "pending + n < 64")
    case True
    have step: "huffman_encode_loop lower_case (c # v) acc pending
        = huffman_encode_loop lower_case v (acc OR push_bit (64 - (pending + n)) code) (pending + n)"
      using e(1) True by (simp add: huffman_symbol_def Let_def fun_eq_iff)
    have seen: "bits pending p @ symbol_bits (map (huffman_symbol lower_case) (c # v))
        = bits (pending + n) (p * 2 ^ n + unat code) @ symbol_bits (map (huffman_symbol lower_case) v)"
      using e(4) by (simp flip: bits_append [OF e(3)])
    show ?thesis
      using Cons.IH [OF acc_room [OF Cons.prems e(3) True]] unfolding step seen .
  next
    case False
    let ?left = "pending + n - 64" and ?w = "acc OR drop_bit (pending + n - 64) code"
    note full = acc_full [OF Cons.prems e(3,2) False]
    obtain w acc' pending' p' where rest: "acc_holds acc' pending' p'"
      "leaves (huffman_encode_loop lower_case v (if ?left = 0 then 0 else push_bit (64 - ?left) code) ?left) w acc' pending'"
      "bits ?left (unat code mod 2 ^ ?left) @ symbol_bits (map (huffman_symbol lower_case) v)
         = bytes_bits w @ bits pending' p'"
      using Cons.IH [OF full(2)] by blast
    have step: "huffman_encode_loop lower_case (c # v) acc pending = (\<lambda>b. outcome_bind (put_u64 ?w b)
        (huffman_encode_loop lower_case v (if ?left = 0 then 0 else push_bit (64 - ?left) code) ?left))"
      using e(1) False by (simp add: huffman_symbol_def Let_def fun_eq_iff)
    have "leaves (huffman_encode_loop lower_case (c # v) acc pending) (be_bytes 8 (unat ?w) @ w) acc' pending'"
      unfolding step put_u64_def by (rule leaves_bind [OF puts_u rest(2)])
    moreover have "bits pending p @ symbol_bits (map (huffman_symbol lower_case) (c # v))
        = bytes_bits (be_bytes 8 (unat ?w) @ w) @ bits pending' p'"
      using full(1,3) rest(3) e(4) by (simp add: bytes_bits_be_bytes del: be_bytes.simps bits.simps) (metis append_assoc)
    ultimately show ?thesis using rest(1) by blast
  qed
qed

lemma huffman_put_tail_Suc:
  "huffman_put_tail acc (8 * Suc k)
     = (\<lambda>b. outcome_bind (put_u8 (ucast (drop_bit (8 * k) acc)) b) (huffman_put_tail acc (8 * k)))"
  by (rule ext, subst huffman_put_tail.simps) (simp add: Let_def)

declare huffman_put_tail.simps [simp del]

lemma huffman_put_tail_spec:
  "puts BufferTooShortError (huffman_put_tail acc (8 * k)) (be_bytes k (unat acc))"
proof (induction k)
  case 0
  then show ?case using puts_Nil by (simp add: puts_def huffman_put_tail.simps)
next
  case (Suc k)
  have "unat (drop_bit (8 * k) acc) = unat acc div 256 ^ k"
    by (subst unat_drop_bit_eq) (simp add: drop_bit_eq_div power_mult)
  then have "(ucast (drop_bit (8 * k) acc) :: u8) = of_nat (unat acc div 256 ^ k)"
    by (metis of_nat_unat)
  then show ?case
    using puts_bind [OF puts_u8 Suc, of "ucast (drop_bit (8 * k) acc)"] unfolding huffman_put_tail_Suc by simp
qed

text \<open>The rest of the word, filled up with ones to whole bytes.\<close>

lemma ones_div: "(p * 2 ^ (a + b) + (2 ^ (a + b) - 1)) div 2 ^ b = p * 2 ^ a + (2 ^ a - 1 :: nat)"
proof -
  obtain x y where "(2 :: nat) ^ a = Suc x" "(2 :: nat) ^ b = Suc y" by (metis gr0_implies_Suc zero_less_power zero_less_numeral)
  then have "p * 2 ^ (a + b) + (2 ^ (a + b) - 1) = (p * 2 ^ a + (2 ^ a - 1)) * Suc y + y" "(2 :: nat) ^ b = Suc y"
    by (simp_all add: power_add algebra_simps)
  then show ?thesis by (simp del: mult_Suc_right)
qed

lemma acc_padded:
  assumes "acc_holds acc pending p" "0 < pending"
  defines "r \<equiv> (pending + 7) div 8 * 8"
  shows "unat (drop_bit (64 - r) (acc OR drop_bit pending (- 1))) = p * 2 ^ (r - pending) + (2 ^ (r - pending) - 1)"
    and "bits r (p * 2 ^ (r - pending) + (2 ^ (r - pending) - 1)) = bits pending p @ replicate (r - pending) True"
    and "r - pending < 8" "pending \<le> r" "r \<le> 64"
proof -
  have pending: "pending < 64" "p < 2 ^ pending" "unat acc = p * 2 ^ (64 - pending)"
    using assms(1) by (auto simp: acc_holds_def)
  show r: "r - pending < 8" "pending \<le> r" "r \<le> 64"
    using pending(1) by (simp_all add: r_def)
  have ones: "unat (drop_bit pending (- 1) :: u64) = 2 ^ (64 - pending) - 1"
    by (subst unat_drop_bit_eq, subst unsigned_minus_1_eq_mask, subst drop_bit_mask_eq) (simp add: mask_eq_exp_minus_1)
  have pad: "(2 :: nat) ^ (64 - pending) - 1 < 2 ^ (64 - pending)" by simp
  have "unat (acc OR drop_bit pending (- 1)) = p * 2 ^ (64 - pending) + (2 ^ (64 - pending) - 1)"
    using or_disjoint [OF pad, of p] pending(3) ones by (simp add: unsigned_or_eq)
  moreover have "(p * 2 ^ (64 - pending) + (2 ^ (64 - pending) - 1)) div 2 ^ (64 - r)
      = p * 2 ^ (r - pending) + (2 ^ (r - pending) - 1)"
    using ones_div [of p "r - pending" "64 - r"] r(2,3) by simp
  ultimately show "unat (drop_bit (64 - r) (acc OR drop_bit pending (- 1))) = p * 2 ^ (r - pending) + (2 ^ (r - pending) - 1)"
    by (subst unat_drop_bit_eq) (simp add: drop_bit_eq_div)
  show "bits r (p * 2 ^ (r - pending) + (2 ^ (r - pending) - 1)) = bits pending p @ replicate (r - pending) True"
    using bits_append [of "2 ^ (r - pending) - 1" "r - pending" pending p] bits_ones [of "r - pending"] r(2) by simp
qed

lemma puts_encoded_tail:
  assumes "r = 8 * k"
  shows "puts BufferTooShortError
    (\<lambda>b. outcome_bind
       (if 32 \<le> r
        then outcome_bind (put_u32 (ucast (drop_bit (r - 32) acc)) b) (\<lambda>b. Inr (r - 32, b))
        else Inr (r, b))
       (\<lambda>(pending, b). huffman_put_tail acc pending b))
    (be_bytes k (unat acc))"
proof (cases "32 \<le> r")
  case True
  then have k: "k = 4 + (k - 4)" "r - 32 = 8 * (k - 4)" using assms by simp_all
  have "unat (drop_bit (r - 32) acc) = unat acc div 256 ^ (k - 4)"
    unfolding k(2) by (subst unat_drop_bit_eq) (simp add: drop_bit_eq_div power_mult)
  then have "be_bytes 4 (unat (ucast (drop_bit (r - 32) acc) :: u32)) = be_bytes 4 (unat acc div 256 ^ (k - 4))"
    using ucast_be_bytes [where 'a = 32, of 4 "drop_bit (r - 32) acc"] by (simp del: be_bytes.simps)
  then have "puts BufferTooShortError (put_u32 (ucast (drop_bit (r - 32) acc))) (be_bytes 4 (unat acc div 256 ^ (k - 4)))"
    unfolding put_u32_def by (metis puts_u)
  from puts_bind [OF this huffman_put_tail_spec [of acc "k - 4"]]
  have "puts BufferTooShortError (\<lambda>b. outcome_bind (put_u32 (ucast (drop_bit (r - 32) acc)) b)
      (huffman_put_tail acc (r - 32))) (be_bytes k (unat acc))"
    using be_bytes_split [of 4 "k - 4" "unat acc"] k by simp
  moreover have "outcome_bind (outcome_bind (put_u32 (ucast (drop_bit (r - 32) acc)) b) (\<lambda>b. Inr (r - 32, b)))
        (\<lambda>(pending, b). huffman_put_tail acc pending b)
      = outcome_bind (put_u32 (ucast (drop_bit (r - 32) acc)) b) (huffman_put_tail acc (r - 32))" for b
    by (cases "put_u32 (ucast (drop_bit (r - 32) acc)) b") simp_all
  ultimately show ?thesis using True by simp
next
  case False
  then show ?thesis using huffman_put_tail_spec [of acc k] assms by simp
qed

lemma puts_leaves:
  assumes "leaves p u acc pending" "puts BufferTooShortError (q acc pending) v"
  shows "puts BufferTooShortError (\<lambda>b. outcome_bind (p b) (\<lambda>(acc, pending, b). q acc pending b)) (u @ v)"
  unfolding puts_def
proof (intro allI impI)
  fix b
  assume wf: "octets_wf b"
  show "outcome_bind (p b) (\<lambda>(acc, pending, b). q acc pending b)
      = (if length (u @ v) \<le> o_cap b then Inr (octets_write (u @ v) b) else Inl (Error BufferTooShortError))"
  proof (cases "length u \<le> o_cap b")
    case True
    then show ?thesis
      using assms wf octets_write_wf [OF wf True] octets_write_append [OF wf, of u v]
      by (auto simp: puts_def leaves_def)
  next
    case False
    then show ?thesis using assms wf by (simp add: leaves_def)
  qed
qed

lemma put_huffman_encoded_spec:
  "\<exists>w k. k < 8 \<and> bytes_bits w = symbol_bits (map (huffman_symbol lower_case) v) @ replicate k True
     \<and> puts BufferTooShortError (put_huffman_encoded lower_case v) w"
proof -
  obtain w acc pending p where run: "acc_holds acc pending p"
    "leaves (huffman_encode_loop lower_case v 0 0) w acc pending"
    "symbol_bits (map (huffman_symbol lower_case) v) = bytes_bits w @ bits pending p"
    using huffman_encode_loop_spec [OF acc_holds_0, of lower_case v] by auto
  show ?thesis
  proof (cases "pending = 0")
    case True
    have "puts BufferTooShortError (put_huffman_encoded lower_case v) (w @ [])"
      unfolding put_huffman_encoded_def
      by (rule puts_leaves [OF run(2)]) (use True puts_Nil in simp)
    then show ?thesis using run(3) True by (intro exI [of _ w] exI [of _ 0]) simp
  next
    case False
    define r where "r = (pending + 7) div 8 * 8"
    define acc' where "acc' = drop_bit (64 - r) (acc OR drop_bit pending (- 1))"
    note pad = acc_padded [OF run(1), folded r_def, folded acc'_def]
    have acc': "unat acc' = p * 2 ^ (r - pending) + (2 ^ (r - pending) - 1)" using pad(1) False by simp
    have r: "r = 8 * (r div 8)" by (simp add: r_def)
    have tail: "bytes_bits (be_bytes (r div 8) (unat acc')) = bits pending p @ replicate (r - pending) True"
      using pad(2) False r acc' by (simp add: bytes_bits_be_bytes)
    have "puts BufferTooShortError (put_huffman_encoded lower_case v) (w @ be_bytes (r div 8) (unat acc'))"
      unfolding put_huffman_encoded_def
      by (rule puts_leaves [OF run(2)])
        (simp only: False if_False Let_def puts_encoded_tail [OF r] flip: r_def acc'_def)
    then show ?thesis
      using run(3) tail pad(3) False by (intro exI [of _ "w @ be_bytes (r div 8) (unat acc')"] exI [of _ "r - pending"]) simp
  qed
qed

lemma length_bytes_bits: "length (bytes_bits w) = 8 * length w"
  by (induction w) (simp_all add: byte_bits_def)

lemma huffman_bit_count_eq:
  "huffman_bit_count lower_case v n = Some (n + length (symbol_bits (map (huffman_symbol lower_case) v)))"
proof (induction v arbitrary: n)
  case (Cons c v)
  obtain m code where "slice_at ENCODE_TABLE (unat (huffman_symbol lower_case c)) = Some (m, code)"
    "code_bits (unat (huffman_symbol lower_case c)) = bits m (unat code)"
    by (rule encode_entry)
  then show ?case using Cons by (simp add: huffman_symbol_def)
qed simp

lemma nat_and_7: "(n :: nat) AND 7 = n mod 8"
  using take_bit_eq_mask [of 3 n] by (simp add: take_bit_eq_mod mask_eq_exp_minus_1)

lemma round_up:
  assumes "n + k = 8 * m" "k < 8"
  shows "(if n mod 8 \<noteq> 0 then n div 8 + 1 else n div 8) = (m :: nat)"
proof (cases "k = 0")
  case True
  then show ?thesis using assms(1) by simp
next
  case False
  obtain j where j: "m = Suc j" using False assms(1) by (cases m) simp_all
  then have "n = (8 - k) + 8 * j" using assms by simp
  then have "n div 8 = j" "n mod 8 = 8 - k" using False by simp_all
  then show ?thesis using assms(2) j by simp
qed

lemma huffman_encoding_len_eq:
  assumes "k < 8" "bytes_bits w = symbol_bits (map (huffman_symbol lower_case) v) @ replicate k True"
  shows "huffman_encoding_len lower_case v
    = (if length v < length w then Inl (Error BufferTooShortError) else Inr (length w))"
proof -
  let ?n = "length (symbol_bits (map (huffman_symbol lower_case) v))"
  have "?n + k = 8 * length w" using arg_cong [OF assms(2), of length] by (simp add: length_bytes_bits)
  then have "(if ?n AND 7 \<noteq> 0 then ?n div 8 + 1 else ?n div 8) = length w"
    using round_up assms(1) by (simp add: nat_and_7)
  then show ?thesis by (simp add: huffman_encoding_len_def huffman_bit_count_eq Let_def)
qed

lemma huffman_no_panic: "get_huffman_decoded_with_max_length max_len b \<noteq> Inl Panic"
proof -
  have "decode_inv [] (0, False, [])" "within_len max_len (0, False, [])"
    by (simp_all add: path_bits_0 symbol_bits_def within_len_def)
  from huffman_decode_loop_spec [OF this, of b] show ?thesis
    by (auto simp: get_huffman_decoded_with_max_length_def split: prod.splits if_splits)
qed

subsection \<open>Properties\<close>

text \<open>
  C11: The table-driven Huffman decoder accepts exactly the encodings of the code table, and each in
  one way: reading succeeds with \<open>out\<close> if and only if the bits of the buffer are the code words of
  \<open>out\<close> followed by less than a byte of ones and \<open>out\<close> is within the limit; the whole buffer is read
  and nothing panics.
\<close>

theorem huffman_decoder_exact:
  "(get_huffman_decoded_with_max_length max_len b = Inr (out, b') \<longleftrightarrow>
      b' = octets_skip (o_cap b) b \<and> length out \<le> max_len
      \<and> (\<exists>k < 8. bytes_bits (o_rest b) = symbol_bits out @ replicate k True))
   \<and> get_huffman_decoded_with_max_length max_len b \<noteq> Inl Panic"
  using huffman_decode_iff huffman_no_panic by blast

text \<open>
  C19: What the encoder writes is read back: the bytes written for \<open>v\<close> have the length announced for
  them, and decoding them gives \<open>v\<close>, in lower case where that was asked for, whatever stands in the
  buffer around them.
\<close>

theorem huffman_round_trip:
  assumes "octets_wf b"
  shows "\<exists>w. (put_huffman_encoded lower_case v b
              = (if length w \<le> o_cap b then Inr (octets_write w b) else Inl (Error BufferTooShortError)))
    \<and> huffman_encoding_len lower_case v
       = (if length v < length w then Inl (Error BufferTooShortError) else Inr (length w))
    \<and> get_huffman_decoded_with_max_length (length v) (octets_with_slice w)
       = Inr (if lower_case then map byte_lower v else v, octets_skip (length w) (octets_with_slice w))"
proof -
  obtain w k where w: "k < 8" "bytes_bits w = symbol_bits (map (huffman_symbol lower_case) v) @ replicate k True"
    "puts BufferTooShortError (put_huffman_encoded lower_case v) w"
    using put_huffman_encoded_spec by blast
  have "get_huffman_decoded_with_max_length (length v) (octets_with_slice w)
      = Inr (map (huffman_symbol lower_case) v, octets_skip (length w) (octets_with_slice w))"
    using w(1,2) by (auto simp: huffman_decode_iff)
  moreover have "map (huffman_symbol lower_case) v = (if lower_case then map byte_lower v else v)"
    by (simp add: huffman_symbol_def map_idI)
  ultimately show ?thesis
    using w(3) assms huffman_encoding_len_eq [OF w(1,2)] by (intro exI [of _ w]) (simp add: puts_def)
qed

theorem huffman_round_trip_witness:
  "octets_wf (fresh [] 8) \<and>
   (\<exists>w. (put_huffman_encoded True [0x57, 0x2e] (fresh [] 8)
           = (if length w \<le> 8 then Inr (octets_write w (fresh [] 8)) else Inl (Error BufferTooShortError)))
    \<and> huffman_encoding_len True [0x57, 0x2e]
       = (if 2 < length w then Inl (Error BufferTooShortError) else Inr (length w))
    \<and> get_huffman_decoded_with_max_length 2 (octets_with_slice w)
       = Inr ([0x77, 0x2e], octets_skip (length w) (octets_with_slice w)))"
proof -
  let ?v = "[0x57, 0x2e] :: bytes"
  have v: "map byte_lower ?v = [0x77, 0x2e]" "length ?v = 2" by (simp_all add: byte_lower_def)
  show ?thesis
    using fresh_simps(1) [of "[]" 8] huffman_round_trip [of "fresh [] 8" True ?v] unfolding v if_True fresh_simps(2) by blast
qed

end
