(* ===== verification/Qpack_Table.thy ===== *)
theory Qpack_Table
  imports Rust_Text
begin

text \<open>
  The static table of QPACK, entry by entry: \<open>engine/quiche/quiche/src/h3/qpack/static_table.rs\<close>.
  For encoding the names are sorted by their length, each with its values and their indices; for
  decoding it is the list of all entries.
\<close>

definition static_encode_strings :: "(string \<times> (string \<times> u64) list) list list" where
  "static_encode_strings = [
     [],
     [],
     [],
     [(''age'', [(''0'', 2)])],
     [(''etag'', [('''', 7)]),
      (''date'', [('''', 6)]),
      (''link'', [('''', 11)]),
      (''vary'', [(''accept-encoding'', 59), (''origin'', 60)])],
     [(''range'', [(''bytes=0-'', 55)]),
      ('':path'', [(''/'', 1)])],
     [(''cookie'', [('''', 5)]),
      (''origin'', [('''', 90)]),
      (''server'', [('''', 92)]),
      (''accept'', [(''*/*'', 29), (''application/dns-message'', 30)])],
     [(''purpose'', [(''prefetch'', 91)]),
      (''referer'', [('''', 13)]),
      (''alt-svc'', [(''clear'', 83)]),
      ('':status'', [
          (''103'', 24), (''200'', 25), (''304'', 26), (''404'', 27), (''503'', 28),
          (''100'', 63), (''204'', 64), (''206'', 65), (''302'', 66), (''400'', 67),
          (''403'', 68), (''421'', 69), (''425'', 70), (''500'', 71)]),
      ('':scheme'', [(''http'', 22), (''https'', 23)]),
      ('':method'', [
          (''CONNECT'', 15), (''DELETE'', 16), (''GET'', 17), (''HEAD'', 18), (''OPTIONS'', 19),
          (''POST'', 20), (''PUT'', 21)])],
     [(''location'', [('''', 12)]),
      (''if-range'', [('''', 89)])],
     [(''expect-ct'', [('''', 87)]),
      (''forwarded'', [('''', 88)])],
     [(''user-agent'', [('''', 95)]),
      ('':authority'', [('''', 0)]),
      (''set-cookie'', [('''', 14)]),
      (''early-data'', [(''1'', 86)])],
     [],
     [(''content-type'', [
          (''application/dns-message'', 44), (''application/javascript'', 45),
          (''application/json'', 46), (''application/x-www-form-urlencoded'', 47),
          (''image/gif'', 48), (''image/jpeg'', 49), (''image/png'', 50), (''text/css'', 51),
          (''text/html; charset=utf-8'', 52), (''text/plain'', 53),
          (''text/plain;charset=utf-8'', 54)])],
     [(''last-modified'', [('''', 10)]),
      (''accept-ranges'', [(''bytes'', 32)]),
      (''authorization'', [('''', 84)]),
      (''if-none-match'', [('''', 9)]),
      (''cache-control'', [
          (''max-age=0'', 36), (''max-age=2592000'', 37), (''max-age=604800'', 38),
          (''no-cache'', 39), (''no-store'', 40), (''public, max-age=31536000'', 41)])],
     [(''content-length'', [(''0'', 4)])],
     [(''accept-encoding'', [(''gzip, deflate, br'', 31)]),
      (''x-forwarded-for'', [('''', 96)]),
      (''accept-language'', [('''', 72)]),
      (''x-frame-options'', [(''deny'', 97), (''sameorigin'', 98)])],
     [(''content-encoding'', [(''br'', 42), (''gzip'', 43)]),
      (''x-xss-protection'', [(''1; mode=block'', 62)])],
     [(''if-modified-since'', [('''', 8)])],
     [],
     [(''content-disposition'', [('''', 3)]),
      (''timing-allow-origin'', [(''*'', 93)])],
     [],
     [],
     [(''x-content-type-options'', [(''nosniff'', 61)])],
     [(''content-security-policy'', [
          (''script-src 'none'; object-src 'none'; base-uri 'none'' @ [CHR 0x27], 85)])],
     [],
     [(''upgrade-insecure-requests'', [(''1'', 94)]),
      (''strict-transport-security'', [
          (''max-age=31536000'', 56), (''max-age=31536000; includesubdomains'', 57),
          (''max-age=31536000; includesubdomains; preload'', 58)])],
     [],
     [(''access-control-allow-origin'', [(''*'', 35)])],
     [(''access-control-allow-methods'', [
          (''get'', 76), (''get, post, options'', 77), (''options'', 78)]),
      (''access-control-allow-headers'', [
          (''cache-control'', 33), (''content-type'', 34), (''*'', 75)])],
     [(''access-control-expose-headers'', [(''content-length'', 79)]),
      (''access-control-request-method'', [(''get'', 81), (''post'', 82)])],
     [(''access-control-request-headers'', [(''content-type'', 80)])],
     [],
     [(''access-control-allow-credentials'', [(''FALSE'', 73), (''TRUE'', 74)])]]"

definition STATIC_ENCODE_TABLE :: "(bytes \<times> (bytes \<times> u64) list) list list" where
  "STATIC_ENCODE_TABLE =
     map (map (\<lambda>(name, values). (bytes_of_text name, map (\<lambda>(value, enc). (bytes_of_text value, enc)) values)))
       static_encode_strings"

definition static_decode_strings :: "(string \<times> string) list" where
  "static_decode_strings = [
     ('':authority'', ''''),
     ('':path'', ''/''),
     (''age'', ''0''),
     (''content-disposition'', ''''),
     (''content-length'', ''0''),
     (''cookie'', ''''),
     (''date'', ''''),
     (''etag'', ''''),
     (''if-modified-since'', ''''),
     (''if-none-match'', ''''),
     (''last-modified'', ''''),
     (''link'', ''''),
     (''location'', ''''),
     (''referer'', ''''),
     (''set-cookie'', ''''),
     ('':method'', ''CONNECT''),
     ('':method'', ''DELETE''),
     ('':method'', ''GET''),
     ('':method'', ''HEAD''),
     ('':method'', ''OPTIONS''),
     ('':method'', ''POST''),
     ('':method'', ''PUT''),
     ('':scheme'', ''http''),
     ('':scheme'', ''https''),
     ('':status'', ''103''),
     ('':status'', ''200''),
     ('':status'', ''304''),
     ('':status'', ''404''),
     ('':status'', ''503''),
     (''accept'', ''*/*''),
     (''accept'', ''application/dns-message''),
     (''accept-encoding'', ''gzip, deflate, br''),
     (''accept-ranges'', ''bytes''),
     (''access-control-allow-headers'', ''cache-control''),
     (''access-control-allow-headers'', ''content-type''),
     (''access-control-allow-origin'', ''*''),
     (''cache-control'', ''max-age=0''),
     (''cache-control'', ''max-age=2592000''),
     (''cache-control'', ''max-age=604800''),
     (''cache-control'', ''no-cache''),
     (''cache-control'', ''no-store''),
     (''cache-control'', ''public, max-age=31536000''),
     (''content-encoding'', ''br''),
     (''content-encoding'', ''gzip''),
     (''content-type'', ''application/dns-message''),
     (''content-type'', ''application/javascript''),
     (''content-type'', ''application/json''),
     (''content-type'', ''application/x-www-form-urlencoded''),
     (''content-type'', ''image/gif''),
     (''content-type'', ''image/jpeg''),
     (''content-type'', ''image/png''),
     (''content-type'', ''text/css''),
     (''content-type'', ''text/html; charset=utf-8''),
     (''content-type'', ''text/plain''),
     (''content-type'', ''text/plain;charset=utf-8''),
     (''range'', ''bytes=0-''),
     (''strict-transport-security'', ''max-age=31536000''),
     (''strict-transport-security'', ''max-age=31536000; includesubdomains''),
     (''strict-transport-security'', ''max-age=31536000; includesubdomains; preload''),
     (''vary'', ''accept-encoding''),
     (''vary'', ''origin''),
     (''x-content-type-options'', ''nosniff''),
     (''x-xss-protection'', ''1; mode=block''),
     ('':status'', ''100''),
     ('':status'', ''204''),
     ('':status'', ''206''),
     ('':status'', ''302''),
     ('':status'', ''400''),
     ('':status'', ''403''),
     ('':status'', ''421''),
     ('':status'', ''425''),
     ('':status'', ''500''),
     (''accept-language'', ''''),
     (''access-control-allow-credentials'', ''FALSE''),
     (''access-control-allow-credentials'', ''TRUE''),
     (''access-control-allow-headers'', ''*''),
     (''access-control-allow-methods'', ''get''),
     (''access-control-allow-methods'', ''get, post, options''),
     (''access-control-allow-methods'', ''options''),
     (''access-control-expose-headers'', ''content-length''),
     (''access-control-request-headers'', ''content-type''),
     (''access-control-request-method'', ''get''),
     (''access-control-request-method'', ''post''),
     (''alt-svc'', ''clear''),
     (''authorization'', ''''),
     (''content-security-policy'', ''script-src 'none'; object-src 'none'; base-uri 'none'' @ [CHR 0x27]),
     (''early-data'', ''1''),
     (''expect-ct'', ''''),
     (''forwarded'', ''''),
     (''if-range'', ''''),
     (''origin'', ''''),
     (''purpose'', ''prefetch''),
     (''server'', ''''),
     (''timing-allow-origin'', ''*''),
     (''upgrade-insecure-requests'', ''1''),
     (''user-agent'', ''''),
     (''x-forwarded-for'', ''''),
     (''x-frame-options'', ''deny''),
     (''x-frame-options'', ''sameorigin'')]"

definition STATIC_DECODE_TABLE :: "(bytes \<times> bytes) list" where
  "STATIC_DECODE_TABLE = map (\<lambda>(name, value). (bytes_of_text name, bytes_of_text value)) static_decode_strings"

end
