(* ===== verification/Qpack.thy ===== *)
theory Qpack
  imports Huffman Qpack_Table
begin

text \<open>
  Header compression of HTTP/3: \<open>engine/quiche/quiche/src/h3/qpack/encoder.rs\<close> and \<open>decoder.rs\<close>.  Only
  the static table is used.  A header is a pair of byte strings.
\<close>

datatype qpack_error =
  QpackBufferTooShort | InvalidHuffmanEncoding | InvalidStaticTableIndex | InvalidHeaderValue | HeaderListTooLarge

type_synonym 'a qpack_result = "(qpack_error, 'a) outcome"

type_synonym h3_header = "bytes \<times> bytes"

text \<open>\<open>From<BufferTooShortError>\<close>, which the \<open>?\<close> operator applies.\<close>

fun qpack_from_octets :: "'a octets_result \<Rightarrow> 'a qpack_result" where
  "qpack_from_octets (Inl Panic) = Inl Panic"
| "qpack_from_octets (Inl (Error _)) = Inl (Error QpackBufferTooShort)"
| "qpack_from_octets (Inr x) = Inr x"

definition INDEXED :: u8 where "INDEXED = 0x80"

definition INDEXED_WITH_POST_BASE :: u8 where "INDEXED_WITH_POST_BASE = 0x10"

definition LITERAL :: u8 where "LITERAL = 0x20"

definition LITERAL_WITH_NAME_REF :: u8 where "LITERAL_WITH_NAME_REF = 0x40"

subsection \<open>Encoder\<close>

text \<open>Only the second operand is lowered: the table holds lower case names.\<close>

definition cmp_lowercase :: "bytes \<Rightarrow> bytes \<Rightarrow> bool" where
  "cmp_lowercase a b \<longleftrightarrow> list_all (\<lambda>(a, b). a = byte_lower b) (zip a b)"

fun match_value :: "bytes \<Rightarrow> (bytes \<times> u64) list \<Rightarrow> (u64 \<times> bool) option" where
  "match_value h_value [] = None"
| "match_value h_value ((v, enc) # values) =
     (if v = [] then Some (enc, False)
      else if h_value = v then Some (enc, True)
      else match_value h_value values)"

fun match_name :: "h3_header \<Rightarrow> (bytes \<times> (bytes \<times> u64) list) list \<Rightarrow> (u64 \<times> bool) option" where
  "match_name h [] = None"
| "match_name h ((name, values) # entries) =
     (if cmp_lowercase name (fst h)
      then (case match_value (snd h) values of
              Some found \<Rightarrow> Some found
            | None \<Rightarrow> (case values of [] \<Rightarrow> None | (_, enc) # _ \<Rightarrow> Some (enc, False)))
      else match_name h entries)"

definition encoder_lookup_static :: "h3_header \<Rightarrow> (u64 \<times> bool) option" where
  "encoder_lookup_static h = Option.bind (slice_at STATIC_ENCODE_TABLE (length (fst h))) (match_name h)"

function encode_int_rest :: "u64 \<Rightarrow> octets \<Rightarrow> octets qpack_result" where
  "encode_int_rest v b =
     (if 128 \<le> v
      then outcome_bind (qpack_from_octets (put_u8 (ucast (v mod 128 + 128)) b)) (encode_int_rest (drop_bit 7 v))
      else qpack_from_octets (put_u8 (ucast v) b))"
  by pat_completeness auto
termination
proof (relation "measure (\<lambda>(v, _). unat v)", goal_cases)
  case (2 v b b')
  then have "0 < unat v" by (simp add: word_le_nat_alt)
  moreover have "unat (drop_bit 7 v) = unat v div 128"
    by (subst unat_drop_bit_eq) (simp add: drop_bit_eq_div)
  ultimately show ?case by simp
qed simp

declare encode_int_rest.simps [simp del]

definition encode_int :: "u64 \<Rightarrow> u8 \<Rightarrow> nat \<Rightarrow> octets \<Rightarrow> octets qpack_result" where
  "encode_int v first pfx b =
     (let mask = 2 ^ pfx - 1
      in if v < mask then qpack_from_octets (put_u8 (first OR ucast v) b)
         else outcome_bind (qpack_from_octets (put_u8 (first OR ucast mask) b)) (encode_int_rest (v - mask)))"

definition encode_str :: "bool \<Rightarrow> bytes \<Rightarrow> u8 \<Rightarrow> nat \<Rightarrow> octets \<Rightarrow> octets qpack_result" where
  "encode_str lower_case v first pfx b =
     (case huffman_encoding_len lower_case v of
        Inl Panic \<Rightarrow> Inl Panic
      | Inr len \<Rightarrow>
          outcome_bind (encode_int (of_nat len) (first OR push_bit pfx 1) pfx b) (\<lambda>b.
            qpack_from_octets (put_huffman_encoded lower_case v b))
      | Inl (Error _) \<Rightarrow>
          outcome_bind (encode_int (of_nat (length v)) first pfx b) (\<lambda>b.
            qpack_from_octets (put_bytes (if lower_case then map byte_lower v else v) b)))"

definition encode_header :: "h3_header \<Rightarrow> octets \<Rightarrow> octets qpack_result" where
  "encode_header h b =
     (case encoder_lookup_static h of
        Some (idx, True) \<Rightarrow> encode_int idx (INDEXED OR 0x40) 6 b
      | Some (idx, False) \<Rightarrow>
          outcome_bind (encode_int idx (LITERAL_WITH_NAME_REF OR 0x10) 4 b) (encode_str False (snd h) 0 7)
      | None \<Rightarrow>
          outcome_bind (encode_str True (fst h) LITERAL 3 b) (encode_str False (snd h) 0 7))"

fun encode_headers :: "h3_header list \<Rightarrow> octets \<Rightarrow> octets qpack_result" where
  "encode_headers [] b = Inr b"
| "encode_headers (h # headers) b = outcome_bind (encode_header h b) (encode_headers headers)"

text \<open>The number of bytes written, and the buffer they are in.\<close>

definition qpack_encode :: "h3_header list \<Rightarrow> bytes \<Rightarrow> (nat \<times> bytes) qpack_result" where
  "qpack_encode headers out =
     outcome_bind (encode_int 0 0 8 (octets_with_slice out)) (\<lambda>b.
     outcome_bind (encode_int 0 0 7 b) (\<lambda>b.
     outcome_bind (encode_headers headers b) (\<lambda>b. Inr (o_off b, o_buf b))))"

subsection \<open>Decoder\<close>

datatype representation = Indexed | IndexedWithPostBase | Literal | LiteralWithNameRef | LiteralWithPostBase

definition representation_from_byte :: "u8 \<Rightarrow> representation" where
  "representation_from_byte b =
     (if b AND INDEXED = INDEXED then Indexed
      else if b AND LITERAL_WITH_NAME_REF = LITERAL_WITH_NAME_REF then LiteralWithNameRef
      else if b AND LITERAL = LITERAL then Literal
      else if b AND INDEXED_WITH_POST_BASE = INDEXED_WITH_POST_BASE then IndexedWithPostBase
      else LiteralWithPostBase)"

record field_list_size_tracker =
  remaining :: u64

text \<open>\<open>checked_sub\<close>, by the overhead of a field or by the length of a part of it.\<close>

definition on_field_part_decoded :: "nat \<Rightarrow> field_list_size_tracker \<Rightarrow> field_list_size_tracker qpack_result" where
  "on_field_part_decoded len t =
     (if unat (remaining t) < len then Inl (Error HeaderListTooLarge)
      else Inr (t\<lparr>remaining := of_nat (unat (remaining t) - len)\<rparr>))"

definition on_field_start :: "field_list_size_tracker \<Rightarrow> field_list_size_tracker qpack_result" where
  "on_field_start t = on_field_part_decoded 32 t"

definition lookup_static :: "u64 \<Rightarrow> h3_header qpack_result" where
  "lookup_static idx =
     (if length STATIC_DECODE_TABLE \<le> unat idx then Inl (Error InvalidStaticTableIndex)
      else Inr (STATIC_DECODE_TABLE ! unat idx))"

text \<open>\<open>checked_shl\<close> fails for a shift by the whole width only; bits pushed out are lost.\<close>

function decode_int_rest :: "u64 \<Rightarrow> nat \<Rightarrow> octets \<Rightarrow> (u64 \<times> octets) qpack_result" where
  "decode_int_rest val shift b =
     (if 0 < o_cap b
      then outcome_bind (qpack_from_octets (get_u8 b)) (\<lambda>(byte, b).
             if 64 \<le> shift then Inl (Error QpackBufferTooShort)
             else
               (let inc = push_bit shift (ucast (byte AND 0x7f))
                in if 2 ^ 64 \<le> unat val + unat inc then Inl (Error QpackBufferTooShort)
                   else if byte AND 0x80 = 0 then Inr (val + inc, b)
                   else decode_int_rest (val + inc) (shift + 7) b))
      else Inl (Error QpackBufferTooShort))"
  by pat_completeness auto
termination
proof (relation "measure (\<lambda>(_, _, b). o_cap b)", goal_cases)
  case (2 val shift b x byte b')
  then have "get_u8 b = Inr (byte, b')" by (cases "get_u8 b" rule: qpack_from_octets.cases) auto
  then show ?case using get_u8_advances by auto
qed simp

declare decode_int_rest.simps [simp del]

definition decode_int :: "nat \<Rightarrow> octets \<Rightarrow> (u64 \<times> octets) qpack_result" where
  "decode_int pfx b =
     (let mask = 2 ^ pfx - 1
      in outcome_bind (qpack_from_octets (get_u8 b)) (\<lambda>(first, b).
           let val = ucast first AND mask
           in if val < mask then Inr (val, b) else decode_int_rest val 0 b))"

text \<open>The bytes of a string and how they are coded; every failure of the Huffman decoder is an oversize.\<close>

definition string_bytes :: "bool \<Rightarrow> nat \<Rightarrow> bytes \<Rightarrow> bytes qpack_result" where
  "string_bytes huff max_len val =
     (if huff then
        (case get_huffman_decoded_with_max_length max_len (octets_with_slice val) of
           Inl Panic \<Rightarrow> Inl Panic
         | Inl (Error _) \<Rightarrow> Inl (Error HeaderListTooLarge)
         | Inr (out, _) \<Rightarrow> Inr out)
      else if max_len < length val then Inl (Error HeaderListTooLarge) else Inr val)"

definition decode_str :: "nat \<Rightarrow> octets \<Rightarrow> (bytes \<times> octets) qpack_result" where
  "decode_str max_len b =
     outcome_bind (qpack_from_octets (peek_u 1 b)) (\<lambda>first :: u8.
     outcome_bind (decode_int 7 b) (\<lambda>(len, b).
     outcome_bind (qpack_from_octets (get_bytes (unat len) b)) (\<lambda>(val, b).
     outcome_bind (string_bytes (first AND 0x80 = 0x80) max_len val) (\<lambda>val. Inr (val, b)))))"

text \<open>One turn of the loop: the header and what is left.\<close>

definition decode_field ::
  "field_list_size_tracker \<Rightarrow> octets \<Rightarrow> (h3_header \<times> field_list_size_tracker \<times> octets) qpack_result" where
  "decode_field t b =
     outcome_bind (qpack_from_octets (peek_u 1 b)) (\<lambda>first :: u8.
     outcome_bind (on_field_start t) (\<lambda>t.
       case representation_from_byte first of
         Indexed \<Rightarrow>
           outcome_bind (decode_int 6 b) (\<lambda>(index, b).
             if first AND 0x40 \<noteq> 0x40 then Inl (Error InvalidHeaderValue)
             else
               outcome_bind (lookup_static index) (\<lambda>(name, val).
               outcome_bind (on_field_part_decoded (length name + length val) t) (\<lambda>t.
                 Inr ((name, val), t, b))))
       | IndexedWithPostBase \<Rightarrow>
           outcome_bind (decode_int 4 b) (\<lambda>_. Inl (Error InvalidHeaderValue))
       | Literal \<Rightarrow>
           (case slice_at (o_rest b) 0 of
              None \<Rightarrow> Inl Panic
            | Some head \<Rightarrow>
                outcome_bind (decode_int 3 b) (\<lambda>(name_len, b).
                outcome_bind (qpack_from_octets (get_bytes (unat name_len) b)) (\<lambda>(name, b).
                outcome_bind (string_bytes (head AND 0x08 = 0x08) (unat (remaining t)) name) (\<lambda>name.
                outcome_bind (on_field_part_decoded (length name) t) (\<lambda>t.
                outcome_bind (decode_str (unat (remaining t)) b) (\<lambda>(val, b).
                outcome_bind (on_field_part_decoded (length val) t) (\<lambda>t.
                  Inr ((name, val), t, b))))))))
       | LiteralWithNameRef \<Rightarrow>
           if first AND 0x10 \<noteq> 0x10 then Inl (Error InvalidHeaderValue)
           else
             outcome_bind (decode_int 4 b) (\<lambda>(name_idx, b).
             outcome_bind (lookup_static name_idx) (\<lambda>(name, _).
             outcome_bind (on_field_part_decoded (length name) t) (\<lambda>t.
             outcome_bind (decode_str (unat (remaining t)) b) (\<lambda>(val, b).
             outcome_bind (on_field_part_decoded (length val) t) (\<lambda>t.
               Inr ((name, val), t, b))))))
       | LiteralWithPostBase \<Rightarrow> Inl (Error InvalidHeaderValue)))"

subsection \<open>The decoder moves on and never panics\<close>

definition reads_on :: "octets \<Rightarrow> ('a \<times> octets) qpack_result \<Rightarrow> bool" where
  "reads_on b r \<longleftrightarrow> r \<noteq> Inl Panic \<and> (\<forall>v b'. r = Inr (v, b') \<longrightarrow> advances b b')"

lemma advances_skip: "n \<le> o_cap b \<Longrightarrow> advances b (octets_skip n b)"
  by (auto simp: advances_def)

lemma reads_on_Error [simp]: "reads_on b (Inl (Error e))"
  by (simp add: reads_on_def)

lemma reads_on_Inr [simp]: "reads_on b (Inr (v, b')) \<longleftrightarrow> advances b b'"
  by (simp add: reads_on_def)

lemma reads_on_bind:
  assumes "reads_on b r" "\<And>v b'. r = Inr (v, b') \<Longrightarrow> advances b b' \<Longrightarrow> reads_on b' (f (v, b'))"
  shows "reads_on b (outcome_bind r f)"
proof (cases r)
  case (Inl e)
  then show ?thesis using assms(1) by (simp add: reads_on_def)
next
  case (Inr p)
  then show ?thesis
    using assms by (cases p) (auto simp: reads_on_def intro: advances_trans)
qed

text \<open>Steps that do not touch the cursor.\<close>

lemma reads_on_pure_bind:
  assumes "r \<noteq> Inl Panic" "\<And>v. r = Inr v \<Longrightarrow> reads_on b (f v)"
  shows "reads_on b (outcome_bind r f)"
  using assms by (cases r) (auto simp: reads_on_def)

lemma get_u8_eq: "get_u8 b = (case o_rest b of [] \<Rightarrow> Inl (Error BufferTooShortError) | v # _ \<Rightarrow> Inr (v, octets_skip 1 b))"
  using get_u8_Cons [of b] by (simp add: get_u8_def get_u_def peek_u_def split: list.split)

lemma get_bytes_eq:
  "get_bytes n b = (if o_cap b < n then Inl (Error BufferTooShortError) else Inr (take n (o_rest b), octets_skip n b))"
  by (simp add: get_bytes_def octets_skip_def)

lemma reads_on_u8: "reads_on b (qpack_from_octets (get_u8 b))"
  by (auto simp: get_u8_eq o_cap_rest intro: advances_skip split: list.split)

lemma reads_on_bytes: "reads_on b (qpack_from_octets (get_bytes n b))"
  by (simp add: get_bytes_eq advances_skip)

lemma peek_no_panic: "qpack_from_octets (peek_u n b) \<noteq> Inl Panic"
  by (simp add: peek_u_def Let_def)

lemma reads_on_int_rest: "reads_on b (decode_int_rest val shift b)"
proof (induction "o_cap b" arbitrary: val shift b rule: less_induct)
  case less
  show ?case
  proof (subst decode_int_rest.simps, simp add: Let_def del: outcome_bind.simps, intro impI reads_on_bind [OF reads_on_u8], goal_cases)
    case (1 byte b')
    have "o_cap b' < o_cap b"
      using 1 by (auto simp: get_u8_eq o_cap_rest split: list.splits)
    then show ?case using less by (simp add: Let_def)
  qed
qed

lemma reads_on_int: "reads_on b (decode_int pfx b)"
  unfolding decode_int_def Let_def
  by (rule reads_on_bind [OF reads_on_u8]) (auto simp: reads_on_int_rest)

lemma string_bytes_no_panic: "string_bytes huff max_len val \<noteq> Inl Panic"
proof -
  have "get_huffman_decoded_with_max_length max_len (octets_with_slice val) \<noteq> Inl Panic"
    by (rule huffman_no_panic)
  then show ?thesis
    by (auto simp: string_bytes_def split: sum.splits failure.splits)
qed

lemma reads_on_str: "reads_on b (decode_str max_len b)"
  unfolding decode_str_def
  by (intro reads_on_pure_bind [OF peek_no_panic])
    (auto intro!: reads_on_bind [OF reads_on_int] reads_on_bind [OF reads_on_bytes] reads_on_pure_bind [OF string_bytes_no_panic])

lemma decode_int_consumes: "decode_int pfx b = Inr (v, b') \<Longrightarrow> o_cap b' < o_cap b"
proof -
  assume ok: "decode_int pfx b = Inr (v, b')"
  obtain first b1 where one: "qpack_from_octets (get_u8 b) = Inr (first, b1)"
    using ok by (auto simp: decode_int_def Let_def)
  have "o_cap b1 < o_cap b" using one by (auto simp: get_u8_eq o_cap_rest split: list.splits)
  moreover have "advances b1 b'"
    using ok one reads_on_int_rest [of b1 "ucast first AND (2 ^ pfx - 1)" 0]
    by (auto simp: decode_int_def Let_def reads_on_def split: if_splits)
  ultimately show ?thesis using advances_cap by fastforce
qed

text \<open>What is left of the budget after the parts read, and the cursor behind them.\<close>

definition charges :: "nat \<Rightarrow> field_list_size_tracker \<Rightarrow> field_list_size_tracker \<Rightarrow> bool" where
  "charges n t t' \<longleftrightarrow> unat (remaining t) = unat (remaining t') + n"

lemma on_field_part_charges: "on_field_part_decoded n t = Inr t' \<Longrightarrow> charges n t t'"
proof -
  assume ok: "on_field_part_decoded n t = Inr t'"
  then have n: "n \<le> unat (remaining t)" and t': "t' = t\<lparr>remaining := of_nat (unat (remaining t) - n)\<rparr>"
    by (auto simp: on_field_part_decoded_def split: if_splits)
  have "unat (remaining t) - n < 2 ^ 64" using unat_less_exp [of "remaining t"] by simp
  then have "unat (of_nat (unat (remaining t) - n) :: u64) = unat (remaining t) - n" by (subst unat_of_nat) simp
  moreover have "remaining t' = of_nat (unat (remaining t) - n)" unfolding t' by simp
  ultimately show ?thesis using n unfolding charges_def by (simp only:)
qed

lemma on_field_part_no_panic: "on_field_part_decoded n t \<noteq> Inl Panic"
  by (simp add: on_field_part_decoded_def)

lemma charges_trans: "charges m t t' \<Longrightarrow> charges n t' t'' \<Longrightarrow> charges (m + n) t t''"
  by (simp add: charges_def)

definition header_size :: "h3_header \<Rightarrow> nat" where
  "header_size h = 32 + length (fst h) + length (snd h)"

text \<open>A turn of the loop reads at least a byte and charges the size of the header it gives.\<close>

lemma lookup_no_panic: "lookup_static idx \<noteq> Inl Panic"
  by (simp add: lookup_static_def)

definition no_panic :: "'a qpack_result \<Rightarrow> bool" where
  "no_panic r \<longleftrightarrow> r \<noteq> Inl Panic"

lemma no_panic_simps [simp]: "no_panic (Inr x)" "no_panic (Inl (Error e))"
  by (simp_all add: no_panic_def)

lemma no_panic_bind: "no_panic r \<Longrightarrow> (\<And>x. r = Inr x \<Longrightarrow> no_panic (f x)) \<Longrightarrow> no_panic (outcome_bind r f)"
  by (cases r) (auto simp: no_panic_def)

lemma no_panics:
  "no_panic (decode_int pfx b)" "no_panic (qpack_from_octets (get_bytes n b))" "no_panic (decode_str max_len b)"
  "no_panic (qpack_from_octets (peek_u n b))" "no_panic (string_bytes huff max_len v)"
  "no_panic (on_field_part_decoded n t)" "no_panic (lookup_static idx)"
  by (simp_all add: no_panic_def peek_no_panic string_bytes_no_panic on_field_part_no_panic lookup_no_panic
      reads_on_int [unfolded reads_on_def] reads_on_bytes [unfolded reads_on_def] reads_on_str [unfolded reads_on_def])

lemma decode_field_no_panic: "0 < o_cap b \<Longrightarrow> no_panic (decode_field t b)"
  unfolding decode_field_def on_field_start_def
  by (auto simp: o_cap_rest slice_at_def intro!: no_panic_bind no_panics split: representation.split option.split)

lemma bytes_caps: "qpack_from_octets (get_bytes n b) = Inr (v, b') \<Longrightarrow> o_cap b' \<le> o_cap b"
  using reads_on_bytes [of b n] by (auto simp: reads_on_def dest: advances_cap)

lemma str_caps: "decode_str max_len b = Inr (v, b') \<Longrightarrow> o_cap b' \<le> o_cap b"
  using reads_on_str [of b max_len] by (auto simp: reads_on_def dest: advances_cap)

lemma decode_field_spec:
  assumes "decode_field t b = Inr (h, t', b')"
  shows "o_cap b' < o_cap b \<and> charges (header_size h) t t'"
proof -
  note steps = on_field_part_charges decode_int_consumes bytes_caps str_caps
  obtain first :: u8 where first: "qpack_from_octets (peek_u 1 b) = Inr first"
    using assms by (auto simp: decode_field_def)
  obtain t1 where start: "on_field_start t = Inr t1"
    using assms first by (auto simp: decode_field_def)
  have t1: "charges 32 t t1" using start on_field_part_charges by (simp add: on_field_start_def)
  show ?thesis
  proof (cases "representation_from_byte first")
    case Indexed
    then show ?thesis
      using assms first start t1
      by (auto simp: decode_field_def header_size_def charges_def split: if_splits dest!: steps)
  next
    case Literal
    then show ?thesis
      using assms first start t1
      by (auto simp: decode_field_def header_size_def charges_def split: option.splits dest!: steps)
  next
    case LiteralWithNameRef
    then show ?thesis
      using assms first start t1
      by (auto simp: decode_field_def header_size_def charges_def split: if_splits dest!: steps)
  qed (use assms first start in \<open>auto simp: decode_field_def\<close>)
qed

function decode_headers ::
  "field_list_size_tracker \<Rightarrow> octets \<Rightarrow> h3_header list \<Rightarrow> h3_header list qpack_result" where
  "decode_headers t b out =
     (if 0 < o_cap b
      then outcome_bind (decode_field t b) (\<lambda>(hdr, t, b). decode_headers t b (out @ [hdr]))
      else Inr out)"
  by pat_completeness auto
termination
  by (relation "measure (\<lambda>(_, b, _). o_cap b)") (auto dest: decode_field_spec)

declare decode_headers.simps [simp del]

definition qpack_decode :: "bytes \<Rightarrow> u64 \<Rightarrow> h3_header list qpack_result" where
  "qpack_decode buf max_size =
     (let b = octets_with_slice buf; t = \<lparr>remaining = max_size\<rparr>
      in outcome_bind (decode_int 8 b) (\<lambda>(req_insert_count, b).
         outcome_bind (decode_int 7 b) (\<lambda>(base, b).
           decode_headers t b [])))"

lemma decode_headers_spec:
  "no_panic (decode_headers t b out)
   \<and> (\<forall>hs. decode_headers t b out = Inr hs \<longrightarrow>
        (\<exists>new. hs = out @ new \<and> sum_list (map header_size new) \<le> unat (remaining t)))"
proof (induction t b out rule: decode_headers.induct)
  case (1 t b out)
  show ?case
  proof (cases "0 < o_cap b")
    case True
    show ?thesis
    proof (cases "decode_field t b")
      case (Inl e)
      then show ?thesis using decode_field_no_panic [OF True, of t] True
        by (subst (1 2) decode_headers.simps) (simp add: no_panic_def)
    next
      case (Inr r)
      obtain h t' b' where r: "r = (h, t', b')" by (metis prod_cases3)
      have step: "decode_headers t b out = decode_headers t' b' (out @ [h])"
        using True Inr r by (subst decode_headers.simps) simp
      have "charges (header_size h) t t'" using decode_field_spec Inr r by blast
      then show ?thesis
        using 1 [OF True Inr, unfolded r] unfolding step by (fastforce simp: charges_def)
    qed
  next
    case False
    then show ?thesis by (simp add: decode_headers.simps)
  qed
qed

subsection \<open>Integers\<close>

function int_rest :: "u64 \<Rightarrow> bytes" where
  "int_rest v = (if 128 \<le> v then ucast (v mod 128 + 128) # int_rest (drop_bit 7 v) else [ucast v])"
  by pat_completeness auto
termination
proof (relation "measure unat", goal_cases)
  case (2 v)
  then have "0 < unat v" by (simp add: word_le_nat_alt)
  moreover have "unat (drop_bit 7 v) = unat v div 128"
    by (subst unat_drop_bit_eq) (simp add: drop_bit_eq_div)
  ultimately show ?case by simp
qed simp

declare int_rest.simps [simp del]

definition int_encoding :: "u64 \<Rightarrow> u8 \<Rightarrow> nat \<Rightarrow> bytes" where
  "int_encoding v first pfx =
     (let mask = 2 ^ pfx - 1
      in if v < mask then [first OR ucast v] else (first OR ucast mask) # int_rest (v - mask))"

abbreviation qputs :: "(octets \<Rightarrow> octets qpack_result) \<Rightarrow> bytes \<Rightarrow> bool" where
  "qputs \<equiv> puts QpackBufferTooShort"

lemma qputs_from_octets: "puts BufferTooShortError p v \<Longrightarrow> qputs (\<lambda>b. qpack_from_octets (p b)) v"
  by (simp add: puts_def)

lemma qputs_u8: "qputs (\<lambda>b. qpack_from_octets (put_u8 v b)) [v]"
  by (rule qputs_from_octets [OF puts_u8])

lemma qputs_int_rest: "qputs (encode_int_rest v) (int_rest v)"
proof (induction v rule: int_rest.induct)
  case (1 v)
  show ?case
  proof (cases "128 \<le> v")
    case True
    have "encode_int_rest v = (\<lambda>b. outcome_bind (qpack_from_octets (put_u8 (ucast (v mod 128 + 128)) b))
        (encode_int_rest (drop_bit 7 v)))"
      using True by (intro ext) (subst encode_int_rest.simps, simp)
    then show ?thesis
      using puts_bind [OF qputs_u8 1 [OF True], of "ucast (v mod 128 + 128)"] True by (subst int_rest.simps) simp
  next
    case False
    then show ?thesis
      using qputs_u8 [of "ucast v"] by (simp add: puts_def encode_int_rest.simps int_rest.simps)
  qed
qed

lemma qputs_int: "qputs (encode_int v first pfx) (int_encoding v first pfx)"
  using qputs_u8 [of "first OR ucast v"]
    puts_bind [OF qputs_u8 qputs_int_rest, of "first OR ucast (2 ^ pfx - 1 :: u64)" "v - (2 ^ pfx - 1)"]
  by (cases "v < 2 ^ pfx - 1") (simp_all add: encode_int_def int_encoding_def Let_def puts_def)

text \<open>Flags in the high bits of a byte do not disturb a number in the low bits.\<close>

lemma unat_or_low:
  fixes first x :: u8
  assumes "unat first = a * 2 ^ k" "unat x < 2 ^ k"
  shows "unat (first OR x) = a * 2 ^ k + unat x"
  using or_disjoint [OF assms(2), of a] assms(1) by (simp add: unsigned_or_eq)

lemma unat_mask_u64:
  assumes "k < 64"
  shows "unat (2 ^ k - 1 :: u64) = 2 ^ k - 1"
proof -
  have "(2 ^ k - 1 :: u64) = of_nat (2 ^ k - 1)" by (simp add: of_nat_diff)
  moreover have "(2 :: nat) ^ k - 1 < 2 ^ 64" using power_strict_increasing [OF assms, of "2 :: nat"] by linarith
  ultimately show ?thesis by (simp only: unat_of_nat) simp
qed

lemma unat_and_mask_u64:
  assumes "k < 64"
  shows "unat (w AND (2 ^ k - 1) :: u64) = unat w mod 2 ^ k"
  unfolding unsigned_and_eq unat_mask_u64 [OF assms]
  using take_bit_eq_mask [of k "unat w"] by (simp add: mask_eq_exp_minus_1 take_bit_eq_mod)

lemma byte_high_bit: "(b :: u8) AND 0x80 = 0 \<longleftrightarrow> unat b < 128"
proof -
  have "b AND 0x80 = 0 \<longleftrightarrow> \<not> bit b 7"
    using and_exp_eq_0_iff_not_bit [of b 7] by simp
  also have "\<dots> \<longleftrightarrow> \<not> bit (unat b) 7" by (simp add: bit_unsigned_iff)
  also have "\<dots> \<longleftrightarrow> even (unat b div 128)" by (simp add: bit_iff_odd [of "unat b"])
  also have "\<dots> \<longleftrightarrow> unat b < 128"
  proof -
    have "unat b div 128 < 2" using unat_byte_less [of b] by (intro less_mult_imp_div_less) simp
    then show ?thesis by (cases "unat b < 128") (auto simp: div_eq_0_iff less_2_cases_iff)
  qed
  finally show ?thesis .
qed

lemma unat_low7: "unat ((b :: u8) AND 0x7f) = unat b mod 128"
  using take_bit_eq_mask [of 7 "unat b"] by (simp add: unsigned_and_eq take_bit_eq_mod mask_eq_exp_minus_1)

lemma unat_add_fits: "unat x + unat y < 2 ^ 64 \<Longrightarrow> unat (x + y :: u64) = unat x + unat y"
  by (simp add: unat_word_ariths)

lemma unat_push_fits: "unat w * 2 ^ n < 2 ^ 64 \<Longrightarrow> unat (push_bit n w :: u64) = unat w * 2 ^ n"
  by (subst unsigned_push_bit_eq) (simp add: push_bit_eq_mult take_bit_eq_mod)

lemma unat_drop7: "unat (drop_bit 7 v :: u64) = unat v div 128"
  by (subst unat_drop_bit_eq) (simp add: drop_bit_eq_div)

text \<open>The byte of seven bits and a mark that more follow.\<close>

lemma more_byte:
  fixes v :: u64
  defines "byte \<equiv> ucast (v mod 128 + 128) :: u8"
  shows "byte AND 0x80 \<noteq> 0" "(ucast (byte AND 0x7f) :: u64) = v mod 128"
proof -
  have low: "unat (v mod 128) = unat v mod 128" by (simp add: unat_mod)
  then have "unat (v mod 128 + 128) = unat v mod 128 + 128"
    using mod_less_divisor [of 128 "unat v"] by (subst unat_add_fits) simp_all
  then have byte: "unat byte = unat v mod 128 + 128"
    using mod_less_divisor [of 128 "unat v"] by (simp add: byte_def unsigned_ucast_eq take_bit_eq_mod)
  then show "byte AND 0x80 \<noteq> 0" by (simp add: byte_high_bit)
  show "(ucast (byte AND 0x7f) :: u64) = v mod 128"
    using mod_less_divisor [of 128 "unat v"]
    by (simp add: word_unat_eq_iff unsigned_ucast_eq take_bit_eq_mod unat_low7 byte low)
qed

lemma last_byte:
  fixes v :: u64
  assumes "\<not> 128 \<le> v"
  shows "(ucast v :: u8) AND 0x80 = 0" "(ucast ((ucast v :: u8) AND 0x7f) :: u64) = v"
proof -
  have "unat v < 128" using assms by (simp add: word_le_nat_alt)
  then have v: "unat v < 128" "unat (ucast v :: u8) = unat v" by (simp_all add: unsigned_ucast_eq take_bit_eq_mod)
  then show "(ucast v :: u8) AND 0x80 = 0" by (simp add: byte_high_bit)
  show "(ucast ((ucast v :: u8) AND 0x7f) :: u64) = v"
    using v by (simp add: word_unat_eq_iff unsigned_ucast_eq take_bit_eq_mod unat_low7)
qed

lemma decode_int_rest_step:
  assumes "o_rest b = byte # r" "shift < 64" "inc = push_bit shift (ucast (byte AND 0x7f))"
    and "unat val + unat inc < 2 ^ 64"
  shows "decode_int_rest val shift b = (if byte AND 0x80 = 0 then Inr (val + inc, octets_skip 1 b)
           else decode_int_rest (val + inc) (shift + 7) (octets_skip 1 b))"
  using assms by (subst decode_int_rest.simps) (simp add: get_u8_eq o_cap_rest Let_def)

lemma shift_split: "(m + q * 128) * 2 ^ s = m * 2 ^ s + q * 2 ^ (s + 7 :: nat)" for m q :: nat
  by (simp add: power_add algebra_simps)

lemma decode_int_rest_encoding:
  assumes "o_rest b = int_rest v @ r" "shift < 64" "unat val + unat v * 2 ^ shift < 2 ^ 64"
  shows "decode_int_rest val shift b = Inr (val + push_bit shift v, octets_skip (length (int_rest v)) b)"
  using assms
proof (induction v arbitrary: val shift b rule: int_rest.induct)
  case (1 v)
  show ?case
  proof (cases "128 \<le> v")
    case True
    let ?byte = "ucast (v mod 128 + 128) :: u8" and ?inc = "push_bit shift (v mod 128)"
    have enc: "int_rest v = ?byte # int_rest (drop_bit 7 v)" using True by (subst int_rest.simps) simp
    have v: "128 \<le> unat v" using True by (simp add: word_le_nat_alt)
    have split: "unat v * 2 ^ shift = unat v mod 128 * 2 ^ shift + unat v div 128 * 2 ^ (shift + 7)"
      using shift_split [of "unat v mod 128" "unat v div 128" shift] by simp
    have inc: "unat ?inc = unat v mod 128 * 2 ^ shift"
      using 1(4) split by (subst unat_push_fits) (simp_all add: unat_mod)
    have val: "unat (val + ?inc) = unat val + unat v mod 128 * 2 ^ shift"
      using 1(4) split inc by (subst unat_add_fits) simp_all
    have "(2 :: nat) ^ (shift + 7) \<le> unat v * 2 ^ shift" using v by (simp add: power_add)
    then have "(2 :: nat) ^ (shift + 7) < 2 ^ 64" using 1(4) by linarith
    then have shift: "shift + 7 < 64" by (rule power_less_imp_less_exp [rotated]) simp
    have "decode_int_rest val shift b = decode_int_rest (val + ?inc) (shift + 7) (octets_skip 1 b)"
      using decode_int_rest_step [of b ?byte "int_rest (drop_bit 7 v) @ r" shift ?inc val] 1(2-4) enc inc split
        more_byte [of v] by simp
    also have "\<dots> = Inr (val + ?inc + push_bit (shift + 7) (drop_bit 7 v), octets_skip (length (int_rest v)) b)"
      using 1(1) [OF True, of "octets_skip 1 b" "shift + 7" "val + ?inc"] 1(2,4) enc shift val split
      by (simp add: unat_drop7)
    also have "val + ?inc + push_bit (shift + 7) (drop_bit 7 v) = val + push_bit shift v"
    proof -
      have "unat (push_bit (shift + 7) (drop_bit 7 v)) = unat v div 128 * 2 ^ (shift + 7)"
        using 1(4) split by (subst unat_push_fits) (simp_all add: unat_drop7)
      moreover have "unat (push_bit shift v) = unat v * 2 ^ shift"
        using 1(4) by (subst unat_push_fits) simp_all
      ultimately have "?inc + push_bit (shift + 7) (drop_bit 7 v) = push_bit shift v"
        using inc split 1(4) by (simp add: word_unat_eq_iff) (subst unat_add_fits; simp)
      then show ?thesis by (simp add: add.assoc)
    qed
    finally show ?thesis .
  next
    case False
    have enc: "int_rest v = [ucast v]" using False by (subst int_rest.simps) simp
    have "unat (push_bit shift v) = unat v * 2 ^ shift" using 1(4) by (subst unat_push_fits) simp_all
    then show ?thesis
      using decode_int_rest_step [of b "ucast v" r shift "push_bit shift v" val] 1(2-4) enc last_byte [OF False]
      by simp
  qed
qed

lemma unat_byte_u64 [simp]: "unat (ucast (x :: u8) :: u64) = unat x"
proof -
  have "unat x < 2 ^ 64" using unat_byte_less [of x] by (rule less_trans) simp
  then show ?thesis by (simp add: unsigned_ucast_eq take_bit_eq_mod)
qed

lemma decode_int_first:
  fixes first x :: u8
  assumes "o_rest b = (first OR x) # r" "unat first = a * 2 ^ pfx" "unat x < 2 ^ pfx" "pfx \<le> 8"
  shows "decode_int pfx b = (if unat x < 2 ^ pfx - 1 then Inr (ucast x, octets_skip 1 b)
           else decode_int_rest (ucast x) 0 (octets_skip 1 b))"
proof -
  have "unat (first OR x) = a * 2 ^ pfx + unat x" by (rule unat_or_low [OF assms(2,3)])
  then have "unat (ucast (first OR x) AND (2 ^ pfx - 1) :: u64) = unat (ucast x :: u64)"
    using assms(3,4) unat_byte_less [of "first OR x"]
    by (subst unat_and_mask_u64) simp_all
  then have val: "(ucast (first OR x) AND (2 ^ pfx - 1) :: u64) = ucast x" by (simp add: word_unat_eq_iff)
  have "ucast x < (2 ^ pfx - 1 :: u64) \<longleftrightarrow> unat x < 2 ^ pfx - 1"
    using assms(4) unat_mask_u64 [of pfx] by (simp add: word_less_nat_alt)
  then show ?thesis using assms(1) val by (simp add: decode_int_def Let_def get_u8_eq)
qed

text \<open>The first byte of an encoding: the flags, and a number in the bits below.\<close>

lemma int_encoding_first:
  assumes "pfx \<le> 8"
  obtains x r where "int_encoding v first pfx = (first OR x) # r" "unat x < 2 ^ pfx"
    "if v < 2 ^ pfx - 1 then ucast x = v \<and> r = [] \<and> unat x < 2 ^ pfx - 1
     else (ucast x :: u64) = 2 ^ pfx - 1 \<and> r = int_rest (v - (2 ^ pfx - 1)) \<and> unat x = 2 ^ pfx - 1"
proof -
  have le: "(2 :: nat) ^ pfx \<le> 256" using power_increasing [OF assms, of "2 :: nat"] by simp
  have m: "unat (2 ^ pfx - 1 :: u64) = 2 ^ pfx - 1" using unat_mask_u64 [of pfx] assms by simp
  have small: "unat (ucast w :: u8) = unat w \<and> ucast (ucast w :: u8) = w" if "unat w \<le> 2 ^ pfx - 1" for w :: u64
  proof -
    have "unat w < 256" using that le by linarith
    then have "unat (ucast w :: u8) = unat w" by (simp add: unsigned_ucast_eq take_bit_eq_mod)
    then show ?thesis using unat_byte_u64 [of "ucast w"] by (metis word_unat_eq_iff)
  qed
  show ?thesis
  proof (cases "v < 2 ^ pfx - 1")
    case True
    then have "unat v < 2 ^ pfx - 1" using m by (simp add: word_less_nat_alt)
    then show ?thesis using that [of "ucast v" "[]"] True small [of v] by (simp add: int_encoding_def Let_def)
  next
    case False
    then show ?thesis
      using that [of "ucast (2 ^ pfx - 1 :: u64)" "int_rest (v - (2 ^ pfx - 1))"] small [of "2 ^ pfx - 1"] m
      by (simp add: int_encoding_def Let_def)
  qed
qed

lemma decode_int_encoding:
  assumes "o_rest b = int_encoding v first pfx @ r" "unat first = a * 2 ^ pfx" "pfx \<le> 8"
  shows "decode_int pfx b = Inr (v, octets_skip (length (int_encoding v first pfx)) b)"
proof -
  obtain x r' where x: "int_encoding v first pfx = (first OR x) # r'" "unat x < 2 ^ pfx"
    "if v < 2 ^ pfx - 1 then ucast x = v \<and> r' = [] \<and> unat x < 2 ^ pfx - 1
     else (ucast x :: u64) = 2 ^ pfx - 1 \<and> r' = int_rest (v - (2 ^ pfx - 1)) \<and> unat x = 2 ^ pfx - 1"
    using int_encoding_first [OF assms(3)] .
  have step: "decode_int pfx b = (if unat x < 2 ^ pfx - 1 then Inr (ucast x, octets_skip 1 b)
           else decode_int_rest (ucast x) 0 (octets_skip 1 b))"
    using decode_int_first [of b first x "r' @ r" a pfx] assms x(1,2) by simp
  show ?thesis
  proof (cases "v < 2 ^ pfx - 1")
    case True
    then show ?thesis using step x by simp
  next
    case False
    have "unat (2 ^ pfx - 1 :: u64) + unat (v - (2 ^ pfx - 1)) = unat v"
      using False by (simp add: unat_sub not_less word_le_nat_alt)
    then have "decode_int_rest (2 ^ pfx - 1) 0 (octets_skip 1 b) = Inr (v, octets_skip (length r') (octets_skip 1 b))"
      using decode_int_rest_encoding [of "octets_skip 1 b" "v - (2 ^ pfx - 1)" r 0 "2 ^ pfx - 1"]
        assms(1) x False unat_less_exp [of v] by simp
    then show ?thesis using step x False by simp
  qed
qed

lemma int_encoding_flags:
  assumes "pfx \<le> 8"
  shows "\<exists>h r. int_encoding v first pfx = h # r \<and> (\<forall>k. pfx \<le> k \<and> k < 8 \<longrightarrow> h AND 2 ^ k = first AND 2 ^ k)"
proof -
  obtain x r where x: "int_encoding v first pfx = (first OR x) # r" "unat x < 2 ^ pfx"
    using int_encoding_first [OF assms] by metis
  have "(first OR x) AND 2 ^ k = first AND 2 ^ k" if "pfx \<le> k" "k < 8" for k
  proof -
    have "unat x < 2 ^ k" using x(2) power_increasing [OF that(1), of "2 :: nat"] by linarith
    then have "take_bit k (unat x) = unat x" by (rule take_bit_nat_eq_self)
    then have "\<not> bit (unat x) k" by (metis bit_take_bit_iff less_irrefl)
    then have "\<not> bit x k" by (simp add: bit_unsigned_iff that(2))
    then have "x AND 2 ^ k = 0" by (simp add: and_exp_eq_0_iff_not_bit)
    then show ?thesis by (simp add: bit.conj_disj_distrib2)
  qed
  then show ?thesis using x(1) by blast
qed

subsection \<open>Strings\<close>

lemma lower_map: "(if lower_case then map byte_lower v else v) = map (huffman_symbol lower_case) v"
  by (simp add: huffman_symbol_def map_idI)

lemma encode_str_spec:
  assumes "length v < 2 ^ 64"
  obtains huff s where
    "qputs (encode_str lower_case v first pfx)
       (int_encoding (of_nat (length s)) (if huff then first OR push_bit pfx 1 else first) pfx @ s)"
    "length s < 2 ^ 64"
    "\<And>max_len. length v \<le> max_len \<Longrightarrow> string_bytes huff max_len s = Inr (map (huffman_symbol lower_case) v)"
proof -
  obtain w k where w: "k < 8" "bytes_bits w = symbol_bits (map (huffman_symbol lower_case) v) @ replicate k True"
    "puts BufferTooShortError (put_huffman_encoded lower_case v) w"
    using put_huffman_encoded_spec by blast
  note len = huffman_encoding_len_eq [OF w(1,2)]
  show ?thesis
  proof (cases "length v < length w")
    case True
    have "encode_str lower_case v first pfx = (\<lambda>b. outcome_bind (encode_int (of_nat (length v)) first pfx b)
        (\<lambda>b. qpack_from_octets (put_bytes (map (huffman_symbol lower_case) v) b)))"
      using len True by (simp add: encode_str_def lower_map fun_eq_iff)
    then have "qputs (encode_str lower_case v first pfx)
        (int_encoding (of_nat (length v)) first pfx @ map (huffman_symbol lower_case) v)"
      using puts_bind [OF qputs_int qputs_from_octets [OF puts_bytes]] by simp
    then show ?thesis
      using that [of "map (huffman_symbol lower_case) v" False] assms by (simp add: string_bytes_def)
  next
    case False
    have "encode_str lower_case v first pfx = (\<lambda>b. outcome_bind
        (encode_int (of_nat (length w)) (first OR push_bit pfx 1) pfx b)
        (\<lambda>b. qpack_from_octets (put_huffman_encoded lower_case v b)))"
      using len False by (simp add: encode_str_def fun_eq_iff)
    then have "qputs (encode_str lower_case v first pfx)
        (int_encoding (of_nat (length w)) (first OR push_bit pfx 1) pfx @ w)"
      using puts_bind [OF qputs_int qputs_from_octets [OF w(3)]] by simp
    moreover have "string_bytes True max_len w = Inr (map (huffman_symbol lower_case) v)" if "length v \<le> max_len" for max_len
    proof -
      have "get_huffman_decoded_with_max_length max_len (octets_with_slice w)
          = Inr (map (huffman_symbol lower_case) v, octets_skip (length w) (octets_with_slice w))"
        using w(1,2) that by (auto simp: huffman_decode_iff)
      then show ?thesis by (simp add: string_bytes_def)
    qed
    ultimately show ?thesis using that [of w True] assms False by simp
  qed
qed

lemma peek_u8_Cons: "o_rest b = h # r \<Longrightarrow> peek_u 1 b = Inr (h :: u8)"
  by (simp add: peek_u_def)

lemma get_bytes_rest: "o_rest b = s @ r \<Longrightarrow> get_bytes (length s) b = Inr (s, octets_skip (length s) b)"
  by (simp add: get_bytes_eq o_cap_rest)

lemma unat_length_u64: "length s < 2 ^ 64 \<Longrightarrow> unat (of_nat (length s) :: u64) = length s"
  by (subst unat_of_nat) simp

lemma decode_str_encoding:
  assumes "o_rest b = int_encoding (of_nat (length s)) (if huff then 0x80 else 0) 7 @ s @ r"
    and "length s < 2 ^ 64" "string_bytes huff max_len s = Inr v"
  shows "decode_str max_len b
    = Inr (v, octets_skip (length (int_encoding (of_nat (length s)) (if huff then 0x80 else 0) 7 @ s)) b)"
proof -
  let ?first = "if huff then 0x80 else 0 :: u8" let ?enc = "int_encoding (of_nat (length s)) ?first 7"
  obtain h t where h: "?enc = h # t" and flags: "\<forall>k. 7 \<le> k \<and> k < 8 \<longrightarrow> h AND 2 ^ k = ?first AND 2 ^ k"
    using int_encoding_flags [of 7 "of_nat (length s)" ?first] by auto
  have huff: "h AND 0x80 = 0x80 \<longleftrightarrow> huff" using flags [rule_format, of 7] by simp
  have "unat ?first = (if huff then 1 else 0) * 2 ^ 7" by simp
  from decode_int_encoding [OF assms(1) this]
  have int: "decode_int 7 b = Inr (of_nat (length s), octets_skip (length ?enc) b)" by simp
  have "o_rest (octets_skip (length ?enc) b) = s @ r" using assms(1) by simp
  from get_bytes_rest [OF this] show ?thesis
    using assms(1,3) h huff int unat_length_u64 [OF assms(2)] peek_u8_Cons [of b h "t @ s @ r"]
    by (simp add: decode_str_def)
qed

subsection \<open>The static table\<close>

text \<open>Every entry of the encoding table stands at the right length and names its place in the decoding table.\<close>

definition entry_place :: "nat \<Rightarrow> string \<times> (string \<times> u64) list \<Rightarrow> bool" where
  "entry_place n e \<longleftrightarrow>
     (case e of (name, vals) \<Rightarrow>
        length name = n \<and> vals \<noteq> []
        \<and> list_all (\<lambda>(v, enc). unat enc < 99 \<and> static_decode_strings ! unat enc = (name, v)) vals)"

lemma static_tables_agree: "all_from (\<lambda>n. list_all (entry_place n)) 0 static_encode_strings"
  by (simp add: static_encode_strings_def static_decode_strings_def entry_place_def nat_two)

lemma cmp_lowercase_eq: "length a = length b \<Longrightarrow> cmp_lowercase a b \<longleftrightarrow> a = map byte_lower b"
  by (induction a b rule: list_induct2) (auto simp: cmp_lowercase_def)

definition static_at :: "u64 \<Rightarrow> h3_header" where
  "static_at enc = STATIC_DECODE_TABLE ! unat enc"

lemma lookup_static_eq: "unat enc < 99 \<Longrightarrow> lookup_static enc = Inr (static_at enc)"
  by (simp add: lookup_static_def static_at_def STATIC_DECODE_TABLE_def static_decode_strings_def)

lemma static_at_eq:
  "unat enc < 99 \<Longrightarrow> static_decode_strings ! unat enc = (name, v) \<Longrightarrow>
   static_at enc = (bytes_of_text name, bytes_of_text v)"
proof -
  assume "unat enc < 99" and e: "static_decode_strings ! unat enc = (name, v)"
  moreover have "length static_decode_strings = 99" by (simp add: static_decode_strings_def)
  ultimately show ?thesis by (simp add: static_at_def STATIC_DECODE_TABLE_def)
qed

lemma match_value_spec:
  assumes "match_value h_value (map (\<lambda>(v, enc). (bytes_of_text v, enc)) vals) = Some (idx, exact)"
    and "list_all (\<lambda>(v, enc). unat enc < 99 \<and> static_decode_strings ! unat enc = (name, v)) vals"
  shows "unat idx < 99 \<and> fst (static_at idx) = bytes_of_text name \<and> (exact \<longrightarrow> snd (static_at idx) = h_value)"
  using assms
proof (induction vals)
  case (Cons e vals)
  obtain v enc where e: "e = (v, enc)" by (cases e)
  have "unat enc < 99" "static_at enc = (bytes_of_text name, bytes_of_text v)"
    using Cons.prems(2) e static_at_eq by auto
  then show ?case using Cons e by (auto split: if_splits)
qed simp

lemma match_name_spec:
  assumes "match_name h (map (\<lambda>(name, vals). (bytes_of_text name, map (\<lambda>(v, enc). (bytes_of_text v, enc)) vals)) row)
      = Some (idx, exact)"
    and "list_all (entry_place (length (fst h))) row"
  shows "unat idx < 99 \<and> fst (static_at idx) = map byte_lower (fst h) \<and> (exact \<longrightarrow> snd (static_at idx) = snd h)"
  using assms
proof (induction row)
  case (Cons e row)
  obtain name vals where e: "e = (name, vals)" by (cases e)
  have len: "length (bytes_of_text name) = length (fst h)" and "vals \<noteq> []"
    and places: "list_all (\<lambda>(v, enc). unat enc < 99 \<and> static_decode_strings ! unat enc = (name, v)) vals"
    using Cons.prems(2) e by (auto simp: entry_place_def bytes_of_text_def)
  then obtain v enc rest where vals: "vals = (v, enc) # rest" by (cases vals) auto
  have first: "unat enc < 99" "fst (static_at enc) = bytes_of_text name"
    using places vals static_at_eq by auto
  show ?case
  proof (cases "cmp_lowercase (bytes_of_text name) (fst h)")
    case True
    then have name: "bytes_of_text name = map byte_lower (fst h)" using cmp_lowercase_eq [OF len] by simp
    show ?thesis
    proof (cases "match_value (snd h) (map (\<lambda>(v, enc). (bytes_of_text v, enc)) vals)")
      case None
      then show ?thesis using Cons.prems(1) e True vals first name by auto
    next
      case (Some found)
      then show ?thesis using Cons.prems(1) e True match_value_spec [OF _ places] name by auto
    qed
  next
    case False
    then show ?thesis using Cons e by simp
  qed
qed simp

lemma encoder_lookup_static_spec:
  assumes "encoder_lookup_static h = Some (idx, exact)"
  shows "unat idx < 99 \<and> fst (static_at idx) = map byte_lower (fst h) \<and> (exact \<longrightarrow> snd (static_at idx) = snd h)"
proof -
  let ?n = "length (fst h)"
  have n: "?n < length static_encode_strings"
    using assms by (auto simp: encoder_lookup_static_def STATIC_ENCODE_TABLE_def slice_at_def split: if_splits)
  then have "list_all (entry_place ?n) (static_encode_strings ! ?n)"
    using static_tables_agree by (simp add: all_from_iff)
  moreover have "match_name h (map (\<lambda>(name, vals). (bytes_of_text name, map (\<lambda>(v, enc). (bytes_of_text v, enc)) vals))
      (static_encode_strings ! ?n)) = Some (idx, exact)"
    using assms n by (simp add: encoder_lookup_static_def STATIC_ENCODE_TABLE_def slice_at_def)
  ultimately show ?thesis by (rule match_name_spec [rotated])
qed

subsection \<open>Headers\<close>

lemma on_field_part_ok:
  assumes "n \<le> unat (remaining t)"
  obtains t' where "on_field_part_decoded n t = Inr t'" "charges n t t'"
  using assms on_field_part_charges by (auto simp: on_field_part_decoded_def)

definition lower_header :: "h3_header \<Rightarrow> h3_header" where
  "lower_header h = (map byte_lower (fst h), snd h)"

lemma header_size_lower [simp]: "header_size (lower_header h) = header_size h"
  by (simp add: header_size_def lower_header_def)

text \<open>A header written by the encoder is read back by one turn of the decoder's loop.\<close>

definition reads_back :: "h3_header \<Rightarrow> bytes \<Rightarrow> bool" where
  "reads_back h w \<longleftrightarrow>
     w \<noteq> [] \<and> (\<forall>b r t. o_rest b = w @ r \<and> header_size h \<le> unat (remaining t) \<longrightarrow>
       (\<exists>t'. decode_field t b = Inr (lower_header h, t', octets_skip (length w) b)))"

lemma indexed_reads_back:
  assumes "encoder_lookup_static h = Some (idx, True)"
  shows "reads_back h (int_encoding idx 0xc0 6)"
proof -
  have idx: "unat idx < 99" "static_at idx = lower_header h"
    using encoder_lookup_static_spec [OF assms] by (auto simp: lower_header_def prod_eq_iff)
  obtain hd' tl' where enc: "int_encoding idx 0xc0 6 = hd' # tl'"
    and flags: "\<forall>k. 6 \<le> k \<and> k < 8 \<longrightarrow> hd' AND 2 ^ k = (0xc0 :: u8) AND 2 ^ k"
    using int_encoding_flags [of 6 idx "0xc0"] by auto
  have f: "hd' AND 0x80 = 0x80" "hd' AND 0x40 = 0x40"
    using flags [rule_format, of 7] flags [rule_format, of 6] by simp_all
  have "\<exists>t'. decode_field t b = Inr (lower_header h, t', octets_skip (length (int_encoding idx 0xc0 6)) b)"
    if rest: "o_rest b = int_encoding idx 0xc0 6 @ r" and size: "header_size h \<le> unat (remaining t)" for b r t
  proof -
    obtain t1 where t1: "on_field_part_decoded 32 t = Inr t1" "charges 32 t t1"
      using on_field_part_ok [of 32 t] size by (auto simp: header_size_def)
    obtain t2 where t2: "on_field_part_decoded (length (fst (lower_header h)) + length (snd (lower_header h))) t1 = Inr t2"
      using on_field_part_ok [of "length (fst (lower_header h)) + length (snd (lower_header h))" t1] size t1(2)
      by (auto simp: header_size_def charges_def lower_header_def)
    have int: "decode_int 6 b = Inr (idx, octets_skip (length (int_encoding idx 0xc0 6)) b)"
      by (rule decode_int_encoding [OF rest, of 3]) simp_all
    show ?thesis
      using peek_u8_Cons [of b hd' "tl' @ r"] rest enc int f t1(1) t2 idx(2) lookup_static_eq [OF idx(1)]
      by (cases "lower_header h")
        (simp add: decode_field_def on_field_start_def representation_from_byte_def INDEXED_def)
  qed
  then show ?thesis using enc by (auto simp: reads_back_def)
qed

lemma value_encoding:
  assumes "length v < 2 ^ 64"
  obtains w where "qputs (encode_str False v 0 7) w"
    "\<And>b r max_len. o_rest b = w @ r \<Longrightarrow> length v \<le> max_len \<Longrightarrow> decode_str max_len b = Inr (v, octets_skip (length w) b)"
proof -
  obtain huff s where s: "qputs (encode_str False v 0 7)
       (int_encoding (of_nat (length s)) (if huff then 0 OR push_bit 7 1 else 0) 7 @ s)"
    "length s < 2 ^ 64"
    "\<And>max_len. length v \<le> max_len \<Longrightarrow> string_bytes huff max_len s = Inr (map (huffman_symbol False) v)"
    by (rule encode_str_spec [where lower_case = False and first = 0 and pfx = 7, OF assms]) blast
  have flag: "(if huff then 0 OR push_bit 7 1 else 0 :: u8) = (if huff then 0x80 else 0)" by simp
  have same: "map (huffman_symbol False) v = v" by (simp add: huffman_symbol_def map_idI)
  show ?thesis
  proof (rule that)
    show "qputs (encode_str False v 0 7) (int_encoding (of_nat (length s)) (if huff then 0x80 else 0) 7 @ s)"
      using s(1) unfolding flag .
    show "decode_str max_len b = Inr (v, octets_skip (length (int_encoding (of_nat (length s)) (if huff then 0x80 else 0) 7 @ s)) b)"
      if "o_rest b = (int_encoding (of_nat (length s)) (if huff then 0x80 else 0) 7 @ s) @ r" "length v \<le> max_len" for b r max_len
      using decode_str_encoding [of b s huff r max_len v] s(2) s(3) [OF that(2)] that(1) same by simp
  qed
qed

lemma name_ref_reads_back:
  assumes "encoder_lookup_static h = Some (idx, False)" "length (snd h) < 2 ^ 64"
  obtains w where "qputs (encode_str False (snd h) 0 7) w" "reads_back h (int_encoding idx 0x50 4 @ w)"
proof -
  obtain w where w: "qputs (encode_str False (snd h) 0 7) w"
    "\<And>b r max_len. o_rest b = w @ r \<Longrightarrow> length (snd h) \<le> max_len \<Longrightarrow>
       decode_str max_len b = Inr (snd h, octets_skip (length w) b)"
    using value_encoding [OF assms(2)] by blast
  have idx: "unat idx < 99" "fst (static_at idx) = map byte_lower (fst h)"
    using encoder_lookup_static_spec [OF assms(1)] by auto
  let ?enc = "int_encoding idx 0x50 4"
  obtain hd' tl' where enc: "?enc = hd' # tl'"
    and flags: "\<forall>k. 4 \<le> k \<and> k < 8 \<longrightarrow> hd' AND 2 ^ k = (0x50 :: u8) AND 2 ^ k"
    using int_encoding_flags [of 4 idx "0x50"] by auto
  have f: "hd' AND 0x80 = 0" "hd' AND 0x40 = 0x40" "hd' AND 0x10 = 0x10"
    using flags [rule_format, of 7] flags [rule_format, of 6] flags [rule_format, of 4] by simp_all
  have "\<exists>t'. decode_field t b = Inr (lower_header h, t', octets_skip (length (?enc @ w)) b)"
    if rest: "o_rest b = (?enc @ w) @ r" and size: "header_size h \<le> unat (remaining t)" for b r t
  proof -
    obtain t1 where t1: "on_field_part_decoded 32 t = Inr t1" "charges 32 t t1"
      using on_field_part_ok [of 32 t] size by (auto simp: header_size_def)
    obtain t2 where t2: "on_field_part_decoded (length (fst h)) t1 = Inr t2" "charges (length (fst h)) t1 t2"
      using on_field_part_ok [of "length (fst h)" t1] size t1(2) by (auto simp: header_size_def charges_def)
    have left: "length (snd h) \<le> unat (remaining t2)" using size t1(2) t2(2) by (simp add: header_size_def charges_def)
    obtain t3 where t3: "on_field_part_decoded (length (snd h)) t2 = Inr t3" using on_field_part_ok [OF left] by blast
    have int: "decode_int 4 b = Inr (idx, octets_skip (length ?enc) b)"
      by (rule decode_int_encoding [of b idx "0x50" 4 "w @ r" 5]) (use rest in simp_all)
    have val: "decode_str (unat (remaining t2)) (octets_skip (length ?enc) b)
        = Inr (snd h, octets_skip (length w) (octets_skip (length ?enc) b))"
      by (rule w(2) [OF _ left, of _ r]) (use rest in simp)
    show ?thesis
      using peek_u8_Cons [of b hd' "tl' @ w @ r"] rest enc int val f t1(1) t2(1) t3 idx(2) lookup_static_eq [OF idx(1)]
      by (cases "static_at idx")
        (simp add: decode_field_def on_field_start_def representation_from_byte_def INDEXED_def LITERAL_WITH_NAME_REF_def
          lower_header_def)
  qed
  then show ?thesis using that w(1) enc by (auto simp: reads_back_def)
qed

lemma literal_reads_back:
  assumes "length (fst h) < 2 ^ 64" "length (snd h) < 2 ^ 64"
  obtains u w where "qputs (encode_str True (fst h) LITERAL 3) u" "qputs (encode_str False (snd h) 0 7) w"
    "reads_back h (u @ w)"
proof -
  obtain huff s where s: "qputs (encode_str True (fst h) LITERAL 3)
       (int_encoding (of_nat (length s)) (if huff then LITERAL OR push_bit 3 1 else LITERAL) 3 @ s)"
    "length s < 2 ^ 64"
    "\<And>max_len. length (fst h) \<le> max_len \<Longrightarrow> string_bytes huff max_len s = Inr (map (huffman_symbol True) (fst h))"
    by (rule encode_str_spec [where lower_case = True and first = LITERAL and pfx = 3, OF assms(1)]) blast
  obtain w where w: "qputs (encode_str False (snd h) 0 7) w"
    "\<And>b r max_len. o_rest b = w @ r \<Longrightarrow> length (snd h) \<le> max_len \<Longrightarrow>
       decode_str max_len b = Inr (snd h, octets_skip (length w) b)"
    using value_encoding [OF assms(2)] by blast
  let ?first = "if huff then LITERAL OR push_bit 3 1 else LITERAL"
  let ?enc = "int_encoding (of_nat (length s)) ?first 3"
  obtain hd' tl' where enc: "?enc = hd' # tl'"
    and flags: "\<forall>k. 3 \<le> k \<and> k < 8 \<longrightarrow> hd' AND 2 ^ k = ?first AND 2 ^ k"
    using int_encoding_flags [of 3 "of_nat (length s)" ?first] by auto
  have f: "hd' AND 0x80 = 0" "hd' AND 0x40 = 0" "hd' AND 0x20 = 0x20" "hd' AND 0x08 = 0x08 \<longleftrightarrow> huff"
    using flags [rule_format, of 7] flags [rule_format, of 6] flags [rule_format, of 5] flags [rule_format, of 3]
    by (simp_all add: LITERAL_def)
  have name: "map (huffman_symbol True) (fst h) = map byte_lower (fst h)" by (simp add: huffman_symbol_def)
  have "\<exists>t'. decode_field t b = Inr (lower_header h, t', octets_skip (length ((?enc @ s) @ w)) b)"
    if rest: "o_rest b = ((?enc @ s) @ w) @ r" and size: "header_size h \<le> unat (remaining t)" for b r t
  proof -
    obtain t1 where t1: "on_field_part_decoded 32 t = Inr t1" "charges 32 t t1"
      using on_field_part_ok [of 32 t] size by (auto simp: header_size_def)
    have left1: "length (fst h) \<le> unat (remaining t1)" using size t1(2) by (simp add: header_size_def charges_def)
    obtain t2 where t2: "on_field_part_decoded (length (fst h)) t1 = Inr t2" "charges (length (fst h)) t1 t2"
      using on_field_part_ok [OF left1] by blast
    have left2: "length (snd h) \<le> unat (remaining t2)" using size t1(2) t2(2) by (simp add: header_size_def charges_def)
    obtain t3 where t3: "on_field_part_decoded (length (snd h)) t2 = Inr t3" using on_field_part_ok [OF left2] by blast
    have "unat ?first = (if huff then 5 else 4) * 2 ^ 3" by (simp add: LITERAL_def)
    then have int: "decode_int 3 b = Inr (of_nat (length s), octets_skip (length ?enc) b)"
      by (rule decode_int_encoding [of b "of_nat (length s)" ?first 3 "s @ w @ r", rotated]) (use rest in simp_all)
    have raw: "get_bytes (length s) (octets_skip (length ?enc) b) = Inr (s, octets_skip (length s) (octets_skip (length ?enc) b))"
      by (rule get_bytes_rest [of _ s "w @ r"]) (use rest in simp)
    have val: "decode_str (unat (remaining t2)) (octets_skip (length s) (octets_skip (length ?enc) b))
        = Inr (snd h, octets_skip (length w) (octets_skip (length s) (octets_skip (length ?enc) b)))"
      by (rule w(2) [OF _ left2, of _ r]) (use rest in simp)
    have at: "slice_at (o_rest b) 0 = Some hd'" using rest enc by (simp add: slice_at_def)
    have peek: "peek_u 1 b = Inr hd'" using rest enc by (intro peek_u8_Cons [of b hd' "tl' @ s @ w @ r"]) simp
    have repr: "representation_from_byte hd' = Literal"
      using f by (simp add: representation_from_byte_def INDEXED_def LITERAL_def LITERAL_WITH_NAME_REF_def)
    have "decode_field t b = Inr ((map byte_lower (fst h), snd h), t3,
        octets_skip (length w) (octets_skip (length s) (octets_skip (length ?enc) b)))"
      unfolding decode_field_def on_field_start_def
      by (simp add: peek [simplified] repr f(4) at int raw t1(1) t2(1) t3 val s(3) [OF left1] name unat_length_u64 [OF s(2)]
          del: octets_skip_simps)
    then show ?thesis by (simp add: lower_header_def)
  qed
  then have "reads_back h ((?enc @ s) @ w)" using enc by (auto simp: reads_back_def)
  then show ?thesis using that s(1) w(1) by blast
qed

lemma encode_header_spec:
  assumes "header_size h < 2 ^ 64"
  shows "\<exists>w. qputs (encode_header h) w \<and> reads_back h w"
proof -
  have len: "length (fst h) < 2 ^ 64" "length (snd h) < 2 ^ 64" using assms by (simp_all add: header_size_def)
  consider (indexed) idx where "encoder_lookup_static h = Some (idx, True)"
    | (name_ref) idx where "encoder_lookup_static h = Some (idx, False)"
    | (literal) "encoder_lookup_static h = None"
    by (cases "encoder_lookup_static h") auto
  then show ?thesis
  proof cases
    case indexed
    have "qputs (encode_header h) (int_encoding idx 0xc0 6)"
      using qputs_int [of idx "0xc0" 6] indexed by (simp add: puts_def encode_header_def INDEXED_def)
    then show ?thesis using indexed_reads_back [OF indexed] by blast
  next
    case name_ref
    obtain w where w: "qputs (encode_str False (snd h) 0 7) w" "reads_back h (int_encoding idx 0x50 4 @ w)"
      using name_ref_reads_back [OF name_ref len(2)] by blast
    have "qputs (encode_header h) (int_encoding idx 0x50 4 @ w)"
      using puts_bind [OF qputs_int w(1), of idx "0x50" 4] name_ref
      by (simp add: puts_def encode_header_def LITERAL_WITH_NAME_REF_def)
    then show ?thesis using w(2) by blast
  next
    case literal
    obtain u w where w: "qputs (encode_str True (fst h) LITERAL 3) u" "qputs (encode_str False (snd h) 0 7) w"
      "reads_back h (u @ w)"
      using literal_reads_back [OF len] by blast
    have "qputs (encode_header h) (u @ w)"
      using puts_bind [OF w(1,2)] literal by (simp add: puts_def encode_header_def)
    then show ?thesis using w(3) by blast
  qed
qed

lemma encode_headers_spec:
  assumes "sum_list (map header_size hs) < 2 ^ 64"
  shows "\<exists>w. qputs (encode_headers hs) w
    \<and> (\<forall>b t out. o_rest b = w \<and> sum_list (map header_size hs) \<le> unat (remaining t) \<longrightarrow>
         decode_headers t b out = Inr (out @ map lower_header hs))"
  using assms
proof (induction hs)
  case Nil
  have "decode_headers t b out = Inr out" if "o_rest b = []" for t b out
    using that by (subst decode_headers.simps) (simp add: o_cap_rest)
  then show ?case using puts_Nil [of QpackBufferTooShort] by (auto simp: puts_def)
next
  case (Cons h hs)
  obtain u where u: "qputs (encode_header h) u" "reads_back h u"
    using encode_header_spec [of h] Cons.prems by auto
  obtain w where w: "qputs (encode_headers hs) w"
    "\<And>b t out. o_rest b = w \<Longrightarrow> sum_list (map header_size hs) \<le> unat (remaining t) \<Longrightarrow>
       decode_headers t b out = Inr (out @ map lower_header hs)"
    using Cons by auto
  have "qputs (encode_headers (h # hs)) (u @ w)"
    using puts_bind [OF u(1) w(1)] by (simp add: puts_def)
  moreover have "decode_headers t b out = Inr (out @ map lower_header (h # hs))"
    if rest: "o_rest b = u @ w" and size: "sum_list (map header_size (h # hs)) \<le> unat (remaining t)" for b t out
  proof -
    obtain t' where field: "decode_field t b = Inr (lower_header h, t', octets_skip (length u) b)"
      using u(2) rest size unfolding reads_back_def by (metis (no_types) add_leD1 list.simps(9) sum_list.Cons)
    have "charges (header_size h) t t'" using decode_field_spec [OF field] by simp
    then have "sum_list (map header_size hs) \<le> unat (remaining t')" using size by (simp add: charges_def)
    then have "decode_headers t' (octets_skip (length u) b) (out @ [lower_header h])
        = Inr ((out @ [lower_header h]) @ map lower_header hs)"
      using rest by (intro w(2)) simp_all
    moreover have "0 < o_cap b" using rest u(2) by (simp add: o_cap_rest reads_back_def)
    ultimately show ?thesis using field by (subst decode_headers.simps) simp
  qed
  ultimately show ?case by blast
qed

subsection \<open>Properties\<close>

text \<open>
  C10: Header lists survive compression: for every list of headers the encoder either writes a fixed
  block of bytes or reports that the buffer is too short, and the decoder, given that block and a
  limit not below the size of the list, returns the headers with their names in lower case.
\<close>

theorem qpack_round_trip:
  assumes "sum_list (map header_size hs) \<le> unat max_size"
  shows "\<exists>w. (\<forall>out. qpack_encode hs out
            = (if length w \<le> length out then Inr (length w, w @ drop (length w) out)
               else Inl (Error QpackBufferTooShort)))
         \<and> qpack_decode w max_size = Inr (map (\<lambda>(name, val). (map byte_lower name, val)) hs)"
proof -
  have "sum_list (map header_size hs) < 2 ^ 64" using assms unat_less_exp [of max_size] by simp
  then obtain w where w: "qputs (encode_headers hs) w"
    "\<And>b t out. o_rest b = w \<Longrightarrow> sum_list (map header_size hs) \<le> unat (remaining t) \<Longrightarrow>
       decode_headers t b out = Inr (out @ map lower_header hs)"
    using encode_headers_spec by blast
  let ?w = "int_encoding 0 0 8 @ int_encoding 0 0 7 @ w"
  have two: "int_encoding 0 0 8 = [0]" "int_encoding 0 0 7 = [0]"
    by (simp_all add: int_encoding_def word_less_nat_alt)
  note writes = puts_bind [OF qputs_int puts_bind [OF qputs_int w(1)], of 0 0 8 0 0 7]
  have "qpack_encode hs out = (if length ?w \<le> length out then Inr (length ?w, ?w @ drop (length ?w) out)
      else Inl (Error QpackBufferTooShort))" for out
  proof -
    have "octets_wf (octets_with_slice out)" by (simp add: octets_wf_def)
    then have "outcome_bind (encode_int 0 0 8 (octets_with_slice out)) (\<lambda>b. outcome_bind (encode_int 0 0 7 b) (encode_headers hs))
        = (if length ?w \<le> length out then Inr (octets_write ?w (octets_with_slice out)) else Inl (Error QpackBufferTooShort))"
      using writes by (simp add: puts_def)
    moreover have "qpack_encode hs out
        = outcome_bind (outcome_bind (encode_int 0 0 8 (octets_with_slice out)) (\<lambda>b. outcome_bind (encode_int 0 0 7 b) (encode_headers hs)))
            (\<lambda>b. Inr (o_off b, o_buf b))"
      by (simp add: qpack_encode_def outcome_bind_assoc)
    ultimately show ?thesis by (simp add: octets_write_def)
  qed
  moreover have "qpack_decode ?w max_size = Inr (map lower_header hs)"
  proof -
    let ?b = "octets_with_slice ?w"
    have "decode_int 8 ?b = Inr (0, octets_skip 1 ?b)" "decode_int 7 (octets_skip 1 ?b) = Inr (0, octets_skip 1 (octets_skip 1 ?b))"
      using decode_int_encoding [of ?b 0 0 8 "int_encoding 0 0 7 @ w" 0]
        decode_int_encoding [of "octets_skip 1 ?b" 0 0 7 w 0] by (simp_all add: two)
    then show ?thesis using w(2) [of "octets_skip 1 (octets_skip 1 ?b)" "\<lparr>remaining = max_size\<rparr>" "[]"] assms
      by (simp add: qpack_decode_def Let_def two)
  qed
  moreover have "map lower_header hs = map (\<lambda>(name, val). (map byte_lower name, val)) hs"
    by (auto simp: lower_header_def)
  ultimately show ?thesis by (metis (no_types))
qed

theorem qpack_round_trip_witness:
  "sum_list (map header_size [([0x58, 0x2d, 0x41], [0x31])]) \<le> unat (100 :: u64)
   \<and> (\<exists>w. (\<forall>out. qpack_encode [([0x58, 0x2d, 0x41], [0x31])] out
            = (if length w \<le> length out then Inr (length w, w @ drop (length w) out)
               else Inl (Error QpackBufferTooShort)))
         \<and> qpack_decode w 100 = Inr [([0x78, 0x2d, 0x61], [0x31])])"
  using qpack_round_trip [of "[([0x58, 0x2d, 0x41], [0x31])]" 100] by (simp add: header_size_def byte_lower_def)

text \<open>
  C17: Decoding is safe on every input: no bytes make the decoder panic, and the headers it returns
  never exceed the limit the caller gave, counted as names, values and 32 bytes for each header.
\<close>

theorem qpack_decode_bounded:
  "qpack_decode buf max_size \<noteq> Inl Panic
   \<and> (qpack_decode buf max_size = Inr hs \<longrightarrow> sum_list (map header_size hs) \<le> unat max_size)"
proof
  have "no_panic (qpack_decode buf max_size)"
    unfolding qpack_decode_def Let_def
    by (auto intro!: no_panic_bind no_panics simp: decode_headers_spec)
  then show "qpack_decode buf max_size \<noteq> Inl Panic" by (simp add: no_panic_def)
  show "qpack_decode buf max_size = Inr hs \<longrightarrow> sum_list (map header_size hs) \<le> unat max_size"
    using decode_headers_spec [of "\<lparr>remaining = max_size\<rparr>" _ "[]"]
    by (auto simp: qpack_decode_def Let_def)
qed

theorem qpack_decode_bounded_witness:
  "qpack_decode [0, 0, 0xd1] 42 = Inr [(map (of_nat \<circ> of_char) '':method'', map (of_nat \<circ> of_char) ''GET'')]
   \<and> sum_list (map header_size [(map (of_nat \<circ> of_char) '':method'', map (of_nat \<circ> of_char) ''GET'')]) \<le> unat (42 :: u64)"
proof
  show "qpack_decode [0, 0, 0xd1] 42 = Inr [(map (of_nat \<circ> of_char) '':method'', map (of_nat \<circ> of_char) ''GET'')]"
    by code_simp
  then show "sum_list (map header_size [(map (of_nat \<circ> of_char) '':method'', map (of_nat \<circ> of_char) ''GET'')]) \<le> unat (42 :: u64)"
    using qpack_decode_bounded by blast
qed

end
