(* ===== verification/Spec2Isabelle.thy ===== *)
theory Spec2Isabelle
  imports H2_Tunnel Fragment Routing Range_Set Recv_Buf Stream_Transfer Virtual_Dns Qpack
begin

text \<open>
  Verification development for Koku, an Android VPN built on the Aether engine.

  \<^bold>\<open>The program.\<close>  The application hands the packets of the phone to a packet tunnel
  (\<open>third_party/tun2proxy\<close>), which turns them into connections and answers DNS questions with
  addresses of a private pool.  The engine (\<open>engine/aether\<close>) decides for each connection whether it is
  blocked, sent directly or proxied, after it has recovered the host name from the first bytes, and
  carries proxied IP packets to an edge by MASQUE: as QUIC datagrams, or as capsules on an HTTP/2
  stream whose TLS handshake may be cut into small segments.  QUIC and HTTP/3 are the vendored
  library \<open>engine/quiche\<close> with its byte cursor \<open>octets\<close>.

  \<^bold>\<open>Theories and sources.\<close>  Paths are below \<open>src/\<close>; definitions keep the names of the functions, with
  a prefix where the name is taken.

  \<^item> \<open>Koku_Prelude\<close>: words and bytes, the result type \<open>outcome\<close> (an error, a panic or a value), slice
    access, big-endian runs, 64-bit arithmetic on natural numbers, and two interfaces: a parser
    fed in pieces (\<open>incremental_parser\<close>) and a stream of framed items (\<open>framed_stream\<close>), with the
    lemma that items come out whole however the stream is cut.
  \<^item> \<open>Rust_Text\<close>, \<open>Rust_Collections\<close>, \<open>Std_Net\<close>: what the sources use of the standard library: strings
    and their trimming and parsing, the ordered map, IP addresses with the parser of \<open>std::net\<close>.
  \<^item> \<open>Octets\<close>: the cursor of \<open>engine/quiche/octets/src/lib.rs\<close>, with the interfaces \<open>cursor_codec\<close> (what
    was written is read back) and \<open>cursor_loop\<close> (a run of such items), and \<open>puts\<close> (a writer writes
    fixed bytes or reports a short buffer).
  \<^item> \<open>Huffman_Table\<close>, \<open>Huffman_Code\<close>, \<open>Huffman\<close>: \<open>octets/src/huffman_table.rs\<close> entry by entry, what the
    tables mean, and the routines \<open>get_huffman_decoded\<close>, \<open>put_huffman_encoded\<close> and
    \<open>huffman_encoding_len\<close>.
  \<^item> \<open>Qpack_Table\<close>, \<open>Qpack\<close>: \<open>quiche/src/h3/qpack\<close>: static table, encoder and decoder of header lists.
  \<^item> \<open>Masque\<close>: \<open>engine/aether/src/masque.rs\<close>: datagrams, capsules, \<open>CapsuleParser\<close>.
  \<^item> \<open>Masque_H2\<close>, \<open>H2_Tunnel\<close>: \<open>engine/aether/src/masque_h2.rs\<close>: batching and draining of capsules, and
    the loop of \<open>run\<close> from the response of the edge on, as a function \<open>h2_turn\<close> of the event that woke
    it and as the step relation \<open>h2_reachable\<close>.
  \<^item> \<open>Sniff\<close>, \<open>Fragment\<close>, \<open>Routing\<close>: \<open>sniff.rs\<close>, \<open>fragment.rs\<close> and \<open>routing.rs\<close> of the engine.
  \<^item> \<open>Range_Set\<close>: \<open>quiche/src/ranges.rs\<close>, both representations; \<open>number_recorder\<close> is what its users
    rely on.
  \<^item> \<open>Quic_Error\<close>: \<open>quiche/src/error.rs\<close> and the cursor with the errors of quiche.
  \<^item> \<open>Quic_Packet\<close>: \<open>quiche/src/packet.rs\<close>, the protection part of \<open>crypto\<close>, and what \<open>recv_single\<close> and
    \<open>send_single\<close> of \<open>lib.rs\<close> do with packet numbers and headers.
  \<^item> \<open>Quic_Frame\<close>: \<open>quiche/src/frame.rs\<close> and the loop over the frames of a payload.
  \<^item> \<open>Recv_Buf\<close>: \<open>range_buf.rs\<close>, \<open>flowcontrol.rs\<close> and \<open>stream/recv_buf.rs\<close>.
  \<^item> \<open>Send_Buf\<close>: \<open>stream/send_buf.rs\<close>; \<open>source_run\<close> drives it with writes, sending, acknowledgement, loss
    and reset.
  \<^item> \<open>Stream_Transfer\<close>: both buffers and the STREAM frames between them, composed as in \<open>lib.rs\<close>, over a
    network that loses, repeats and reorders.
  \<^item> \<open>Virtual_Dns\<close>: \<open>tun2proxy/src/virtual_dns.rs\<close> and \<open>dns.rs\<close>.

  \<^bold>\<open>What the lemmas show.\<close>
  \<^item> Streams: from the bytes one application writes to the bytes the other reads nothing is lost,
    repeated or reordered, and no assertion of either buffer fails (\<open>stream_arrives_intact\<close>, built
    on \<open>no_stream_byte_is_lost\<close> of the send side and \<open>application_reads_the_stream\<close> of the receive
    side); what has arrived can be read; the advertised limit never falls.
  \<^item> Packets and frames: headers, packet numbers, frames and payloads are read back as they were
    written; protection is undone by the peer; no number is accepted twice; no bytes make the
    decoders panic, and what they accept is well formed.
  \<^item> HTTP/3 headers: the decoding automaton of the Huffman code accepts exactly the encodings of the
    code table; header lists survive QPACK; decoding keeps to the limit of the caller.
  \<^item> Tunnel: datagrams and capsules survive any cut of the stream within the limit of the parser;
    readiness is signalled only after validated traffic; deadlines are enforced.
  \<^item> Names and rules: the host name is recovered from every ClientHello of the standard form, a
    recovered name is well formed, segments cut the name and conserve the bytes, and the decision
    follows the rule lists; virtual addresses stay bound to their names while they are in use.
  \<^item> Divergences found on the way are stated as theorems too: a full inline range set panics, a
    reset after the final size is silent, completion ignores the end marker, bare IPv6 entries
    are lost.

  \<^bold>\<open>Conventions.\<close>  A struct is a \<open>record\<close>, an enum a \<open>datatype\<close>.  Functions return their state; a panic is
  \<open>Inl Panic\<close>, or \<open>None\<close> where the function has no error of its own.  Lengths, offsets and packet
  numbers are natural numbers.  Where the sums of the source could leave 64 bits (range sets,
  flow control) they wrap around, as in the release build; in the send buffer a subtraction below
  zero is a panic.  Instants are natural numbers given as arguments, one for each reading of the
  clock, and random draws are arguments as well.  Case mapping of strings is that of ASCII.

  \<^bold>\<open>Parameters.\<close>  Code outside the sources is an argument: the AEAD and the header cipher (\<open>packet_key\<close>,
  laws \<open>keys_match\<close> and \<open>seals_empty\<close>), the wrapped writer and the random numbers of the fragmenting
  stream (\<open>writer_law\<close>, \<open>range_law\<close>), the LRU cache and the DNS messages (\<open>lru_law\<close>, \<open>dns_ops\<close>), regular
  expressions and networks (\<open>rule_crates\<close>), and the channels of Tokio.  Each law has a concrete
  instance in a witness.

  \<^bold>\<open>Loops.\<close>  Loops that consume input are functions with a termination proof.  The loops of the receive
  buffer (\<open>store_all\<close>) and of the virtual DNS (\<open>remove_expired\<close>, \<open>allocate\<close>) are partial functions;
  that they end is part of \<open>application_reads_the_stream\<close> and \<open>virtual_dns_always_answers\<close>.  No fuel
  is used.  Bounds in statements are those of the formats: 62 bits for stream offsets, lengths and
  limits, packets below \<open>2^14\<close> bytes for the two-byte length of a STREAM frame, four bytes of packet
  number, 256 KiB of buffered capsules.

  \<^bold>\<open>Not modelled.\<close>  The connection object of quiche around the parts above (handshake, timers, paths,
  packet assembly), loss recovery and congestion control, the C interface and logging, the async
  wrappers and tools shipped with quiche; the tasks, sockets, proxies and child processes of the
  engine, its userspace network stack, the WireGuard, Tor and Psiphon drivers; the sessions of the
  packet tunnel; the JNI layer.  They are I/O, platform glue or drivers of external crates.
\<close>

end
